(* ===== verification/Prelude.thy ===== *)
theory Prelude
  imports Main "HOL-Library.Word"
begin

text \<open>
  What every component of the development shares: the machine types of
  \<^verbatim>\<open>kernel/types.h\<close>, the result type of kernel code (a value, or the reason why the code
  does not return), the table scans that the kernel writes as \<^verbatim>\<open>for\<close> loops, and the
  little-endian layout of integers in bytes, with the lemmas the component proofs use.
\<close>

unbundle bit_operations_syntax

named_theorems kdefs \<open>definitions of kernel operations that proofs unfold\<close>
named_theorems view_simps \<open>how operations act on the views of the state they keep\<close>

subsection \<open>Machine types\<close>

type_synonym byte = "8 word"
type_synonym u16 = "16 word"
type_synonym u32 = "32 word"
type_synonym u64 = "64 word"

text \<open>
  An array of bytes (a disk block, a buffer, a C string, physical memory) is a function from
  offsets to bytes. Loads and stores of pointers use \<open>unat\<close> of the address as the offset.
\<close>

type_synonym bytes = "nat \<Rightarrow> byte"
type_synonym block = bytes

subsection \<open>Results\<close>

text \<open>
  A wait channel of \<^verbatim>\<open>sleep\<close>/\<^verbatim>\<open>wakeup\<close> is an address in the kernel; one constructor
  per object the kernel sleeps on.
\<close>

datatype chan =
    Chan_log | Chan_ticks | Chan_proc nat
  | Chan_buf nat | Chan_inode nat
  | Chan_piperd u64 | Chan_pipewr u64
  | Chan_cons | Chan_tx | Chan_diskfree | Chan_diskbuf nat

text \<open>
  Why kernel code does not return to its caller: \<^verbatim>\<open>panic(s)\<close>, which spins for ever; a
  \<^verbatim>\<open>sleep\<close> on a channel; a spin on a lock that another CPU holds.
\<close>

datatype failure = Panic string | Sleeping chan | Spinning

type_synonym 'a result = "failure + 'a"

definition rbind :: "'e + 'a \<Rightarrow> ('a \<Rightarrow> 'e + 'b) \<Rightarrow> 'e + 'b" where
  "rbind m f = (case m of Inl e \<Rightarrow> Inl e | Inr x \<Rightarrow> f x)"

lemma rbind_simps [simp]:
  "rbind (Inl e) f = Inl e"
  "rbind (Inr x) f = f x"
  by (simp_all add: rbind_def)

lemma rbind_Inr_iff: "rbind m f = Inr y \<longleftrightarrow> (\<exists>x. m = Inr x \<and> f x = Inr y)"
  by (cases m) auto

lemma rbind_Inl_iff:
  "rbind m f = Inl e \<longleftrightarrow> m = Inl e \<or> (\<exists>x. m = Inr x \<and> f x = Inl e)"
  by (cases m) auto

lemma rbind_cong [fundef_cong]:
  "m = m' \<Longrightarrow> (\<And>x. m' = Inr x \<Longrightarrow> f x = g x) \<Longrightarrow> rbind m f = rbind m' g"
  by (cases m') auto

lemma rbind_assoc: "rbind (rbind m f) g = rbind m (\<lambda>x. rbind (f x) g)"
  by (cases m) auto

text \<open>The bytes of a string literal, without the terminating 0.\<close>

definition str :: "string \<Rightarrow> byte list" where
  "str cs = map of_char cs"

text \<open>\<^verbatim>\<open>if(!b) panic(msg);\<close>\<close>

definition panic_unless :: "bool \<Rightarrow> string \<Rightarrow> 's \<Rightarrow> 's result" where
  "panic_unless b msg s = (if b then Inr s else Inl (Panic msg))"

lemma panic_unless_simps [simp]:
  "panic_unless True msg s = Inr s"
  "panic_unless False msg s = Inl (Panic msg)"
  "b \<Longrightarrow> panic_unless b msg s = Inr s"
  "\<not> b \<Longrightarrow> panic_unless b msg s = Inl (Panic msg)"
  by (simp_all add: panic_unless_def)

lemma panic_unless_Inr: "panic_unless b msg s = Inr s' \<longleftrightarrow> b \<and> s' = s"
  by (auto simp: panic_unless_def)

text \<open>\<^verbatim>\<open>for(x in xs) f(x);\<close> on the state.\<close>

primrec rfold :: "('a \<Rightarrow> 's \<Rightarrow> 's result) \<Rightarrow> 'a list \<Rightarrow> 's \<Rightarrow> 's result" where
  "rfold f [] s = Inr s"
| "rfold f (x # xs) s = rbind (f x s) (\<lambda>s. rfold f xs s)"

lemma rfold_append: "rfold f (xs @ ys) s = rbind (rfold f xs s) (\<lambda>s. rfold f ys s)"
  by (induction xs arbitrary: s) (auto simp: rbind_assoc)

lemma rfold_invariant:
  assumes "P s" "\<And>x s. x \<in> set xs \<Longrightarrow> P s \<Longrightarrow> \<exists>s'. f x s = Inr s' \<and> P s'"
  shows "\<exists>s'. rfold f xs s = Inr s' \<and> P s'"
  using assms
proof (induction xs arbitrary: s)
  case (Cons x xs)
  then obtain s1 where s1: "f x s = Inr s1" "P s1" by (meson list.set_intros(1))
  have "\<exists>s'. rfold f xs s1 = Inr s' \<and> P s'" by (rule Cons.IH [OF s1(2)]) (use Cons.prems(2) in simp)
  then show ?case using s1(1) by simp
qed simp

subsection \<open>Table scans\<close>

text \<open>\<^verbatim>\<open>for(i = lo; i < hi; i++) if(P(i)) return i;\<close>\<close>

function scan :: "(nat \<Rightarrow> bool) \<Rightarrow> nat \<Rightarrow> nat \<Rightarrow> nat option" where
  "scan P i n = (if i < n then (if P i then Some i else scan P (Suc i) n) else None)"
  by pat_completeness auto
termination
  by (relation "measure (\<lambda>(P, i, n). n - i)") auto

declare scan.simps [simp del]

lemma scan_step:
  "\<not> i < n \<Longrightarrow> scan P i n = None"
  "i < n \<Longrightarrow> P i \<Longrightarrow> scan P i n = Some i"
  "i < n \<Longrightarrow> \<not> P i \<Longrightarrow> scan P i n = scan P (Suc i) n"
  by (subst scan.simps, simp)+

lemma scan_Some_iff:
  "scan P i n = Some k \<longleftrightarrow> i \<le> k \<and> k < n \<and> P k \<and> (\<forall>j. i \<le> j \<longrightarrow> j < k \<longrightarrow> \<not> P j)"
proof (induction P i n rule: scan.induct)
  case (1 P i n)
  show ?case
  proof (cases "i < n \<and> \<not> P i")
    case True
    with 1 have IH: "scan P (Suc i) n = Some k \<longleftrightarrow>
        Suc i \<le> k \<and> k < n \<and> P k \<and> (\<forall>j. Suc i \<le> j \<longrightarrow> j < k \<longrightarrow> \<not> P j)" by simp
    have "(i \<le> k \<and> k < n \<and> P k \<and> (\<forall>j. i \<le> j \<longrightarrow> j < k \<longrightarrow> \<not> P j)) \<longleftrightarrow>
        (Suc i \<le> k \<and> k < n \<and> P k \<and> (\<forall>j. Suc i \<le> j \<longrightarrow> j < k \<longrightarrow> \<not> P j))"
      using True by (metis Suc_le_eq le_eq_less_or_eq not_less_eq_eq)
    with IH True show ?thesis by (simp add: scan_step)
  next
    case False
    then show ?thesis
      by (cases "i < n") (auto simp: scan_step intro: le_antisym leI)
  qed
qed

lemma scan_None_iff: "scan P i n = None \<longleftrightarrow> (\<forall>j. i \<le> j \<longrightarrow> j < n \<longrightarrow> \<not> P j)"
proof (induction P i n rule: scan.induct)
  case (1 P i n)
  show ?case
  proof (cases "i < n \<and> \<not> P i")
    case True
    with 1 have "scan P i n = None \<longleftrightarrow> (\<forall>j. Suc i \<le> j \<longrightarrow> j < n \<longrightarrow> \<not> P j)"
      by (simp add: scan_step)
    also have "\<dots> \<longleftrightarrow> (\<forall>j. i \<le> j \<longrightarrow> j < n \<longrightarrow> \<not> P j)"
      using True by (metis Suc_le_eq le_eq_less_or_eq)
    finally show ?thesis .
  next
    case False
    then show ?thesis by (cases "i < n") (auto simp: scan_step)
  qed
qed

lemma scan_hit: "scan P i n = Some k \<Longrightarrow> i \<le> k \<and> k < n \<and> P k"
  by (simp add: scan_Some_iff)

lemma scan_found: "P k \<Longrightarrow> i \<le> k \<Longrightarrow> k < n \<Longrightarrow> \<exists>j. scan P i n = Some j"
  by (metis scan_None_iff not_None_eq)

lemma scan_cong:
  "(\<And>j. i \<le> j \<Longrightarrow> j < n \<Longrightarrow> P j = Q j) \<Longrightarrow> scan P i n = scan Q i n"
proof (induction P i n rule: scan.induct)
  case (1 P i n)
  then show ?case by (cases "i < n"; cases "P i") (auto simp: scan_step)
qed

subsection \<open>Little-endian integers\<close>

definition byte_at :: "'a::len word \<Rightarrow> nat \<Rightarrow> byte" where
  "byte_at w i = ucast (drop_bit (8 * i) w)"

fun le_word :: "byte list \<Rightarrow> 'a::len word" where
  "le_word [] = 0"
| "le_word (b # bs) = ucast b OR push_bit 8 (le_word bs)"

definition le_bytes :: "nat \<Rightarrow> 'a::len word \<Rightarrow> byte list" where
  "le_bytes k w = map (byte_at w) [0..<k]"

lemma bit_byte_at: "bit (byte_at (w :: 'a::len word) i) n \<longleftrightarrow> n < 8 \<and> bit w (8 * i + n)"
  by (auto simp: byte_at_def bit_ucast_iff bit_drop_bit_eq)

lemma length_le_bytes [simp]: "length (le_bytes k w) = k"
  by (simp add: le_bytes_def)

lemma bit_le_word:
  "bit (le_word bs :: 'a::len word) n \<longleftrightarrow>
     n < LENGTH('a) \<and> n div 8 < length bs \<and> bit (bs ! (n div 8)) (n mod 8)"
proof (induction bs arbitrary: n)
  case Nil
  then show ?case by simp
next
  case (Cons b bs)
  show ?case
  proof (cases "n < 8")
    case True
    then show ?thesis
      by (auto simp: bit_or_iff bit_ucast_iff bit_push_bit_iff)
  next
    case False
    then obtain m where n: "n = m + 8" by (metis add.commute le_Suc_ex not_less)
    have nb: "\<not> bit b (m + 8)" using bit_imp_le_length by fastforce
    have d: "(m + 8) div 8 = Suc (m div 8)" and r: "(m + 8) mod 8 = m mod 8" by simp_all
    show ?thesis
      unfolding n d r using Cons.IH [of m] nb
      by (auto simp: bit_or_iff bit_ucast_iff bit_push_bit_iff)
  qed
qed

lemma le_word_le_bytes:
  assumes "LENGTH('a::len) = 8 * k"
  shows "le_word (le_bytes k (w :: 'a word)) = w"
proof (rule bit_word_eqI)
  fix n assume "n < LENGTH('a)"
  with assms have d: "n div 8 < k" by simp
  have "8 * (n div 8) + n mod 8 = n" by simp
  with d \<open>n < LENGTH('a)\<close> show "bit (le_word (le_bytes k w) :: 'a word) n = bit w n"
    by (simp add: bit_le_word le_bytes_def bit_byte_at)
qed

lemma le_bytes_le_word:
  assumes "LENGTH('a::len) = 8 * length bs"
  shows "le_bytes (length bs) (le_word bs :: 'a word) = bs"
proof (rule nth_equalityI)
  fix i assume i: "i < length (le_bytes (length bs) (le_word bs :: 'a word))"
  then have i': "i < length bs" by simp
  show "le_bytes (length bs) (le_word bs :: 'a word) ! i = bs ! i"
  proof (rule bit_word_eqI)
    fix n assume "n < LENGTH(8)"
    then have n: "n < 8" by simp
    with i' assms have "8 * i + n < LENGTH('a)" by simp
    with n i' show "bit (le_bytes (length bs) (le_word bs :: 'a word) ! i) n = bit (bs ! i) n"
      by (simp add: le_bytes_def bit_byte_at bit_le_word)
  qed
qed simp

text \<open>Reading and writing a 16- or 32-bit integer at a byte offset of a block.\<close>

definition getw :: "nat \<Rightarrow> block \<Rightarrow> nat \<Rightarrow> 'a::len word" where
  "getw k d off = le_word (map d [off..<off + k])"

definition putw :: "nat \<Rightarrow> block \<Rightarrow> nat \<Rightarrow> 'a::len word \<Rightarrow> block" where
  "putw k d off w = (\<lambda>i. if off \<le> i \<and> i < off + k then byte_at w (i - off) else d i)"

abbreviation get16 :: "block \<Rightarrow> nat \<Rightarrow> u16" where "get16 \<equiv> getw 2"
abbreviation put16 :: "block \<Rightarrow> nat \<Rightarrow> u16 \<Rightarrow> block" where "put16 \<equiv> putw 2"
abbreviation get32 :: "block \<Rightarrow> nat \<Rightarrow> u32" where "get32 \<equiv> getw 4"
abbreviation put32 :: "block \<Rightarrow> nat \<Rightarrow> u32 \<Rightarrow> block" where "put32 \<equiv> putw 4"
abbreviation get64 :: "bytes \<Rightarrow> nat \<Rightarrow> u64" where "get64 \<equiv> getw 8"
abbreviation put64 :: "bytes \<Rightarrow> nat \<Rightarrow> u64 \<Rightarrow> bytes" where "put64 \<equiv> putw 8"

lemma map_putw: "map (putw k d off w) [off..<off + k] = le_bytes k w"
proof -
  have "[off..<off + k] = map (\<lambda>i. i + off) [0..<k]"
    by (simp add: map_add_upt add.commute)
  then show ?thesis by (simp add: putw_def le_bytes_def)
qed

lemma getw_putw_same:
  "LENGTH('a::len) = 8 * k \<Longrightarrow> getw k (putw k d off (w :: 'a word)) off = w"
  by (simp add: getw_def map_putw le_word_le_bytes)

lemma getw_putw_other:
  assumes "off + k \<le> off' \<or> off' + k' \<le> off"
  shows "getw k' (putw k d off w) off' = getw k' d off'"
proof -
  have "map (putw k d off w) [off'..<off' + k'] = map d [off'..<off' + k']"
    using assms by (auto simp: putw_def)
  then show ?thesis unfolding getw_def by (rule arg_cong)
qed

lemma get16_put16 [simp]: "get16 (put16 d off w) off = w"
  by (simp add: getw_putw_same)

lemma get32_put32 [simp]: "get32 (put32 d off w) off = w"
  by (simp add: getw_putw_same)

lemma get64_put64 [simp]: "get64 (put64 d off w) off = w"
  by (simp add: getw_putw_same)

lemma getw_cong:
  "(\<And>i. off \<le> i \<Longrightarrow> i < off + k \<Longrightarrow> d i = d' i) \<Longrightarrow> getw k d off = getw k d' off"
  unfolding getw_def by (rule arg_cong [where f = le_word]) simp

subsection \<open>Byte ranges\<close>

lemma unat_of_nat_small: "k < 2 ^ LENGTH('a::len) \<Longrightarrow> unat (of_nat k :: 'a word) = k"
  by (simp add: unat_of_nat take_bit_nat_eq_self)

text \<open>The effect of storing or copying \<open>n\<close> bytes at offset \<open>off\<close> of an array.\<close>

definition fill :: "bytes \<Rightarrow> nat \<Rightarrow> byte \<Rightarrow> nat \<Rightarrow> bytes" where
  "fill d off c n = (\<lambda>i. if off \<le> i \<and> i < off + n then c else d i)"

definition copy_bytes :: "bytes \<Rightarrow> nat \<Rightarrow> bytes \<Rightarrow> nat \<Rightarrow> nat \<Rightarrow> bytes" where
  "copy_bytes d off src soff n =
     (\<lambda>i. if off \<le> i \<and> i < off + n then src (i - off + soff) else d i)"

lemma fill_0 [simp]: "fill d off c 0 = d"
  by (rule ext) (auto simp: fill_def)

lemma copy_bytes_0 [simp]: "copy_bytes d off src soff 0 = d"
  by (rule ext) (auto simp: copy_bytes_def)

lemma fill_outside: "i < off \<or> off + n \<le> i \<Longrightarrow> fill d off c n i = d i"
  by (auto simp: fill_def)

lemma copy_bytes_outside: "i < off \<or> off + n \<le> i \<Longrightarrow> copy_bytes d off src soff n i = d i"
  by (auto simp: copy_bytes_def)

lemma copy_bytes_inside: "i < n \<Longrightarrow> copy_bytes d off src soff n (off + i) = src (soff + i)"
  by (simp add: copy_bytes_def add.commute)

lemma getw_fill_other:
  "off + n \<le> off' \<or> off' + k \<le> off \<Longrightarrow> getw k (fill d off c n) off' = getw k d off'"
  by (rule getw_cong) (auto simp: fill_def)

lemma getw_copy_other:
  "off + n \<le> off' \<or> off' + k \<le> off \<Longrightarrow>
    getw k (copy_bytes d off src soff n) off' = getw k d off'"
  by (rule getw_cong) (auto simp: copy_bytes_def)

lemma getw_copy_inside:
  assumes "i + k \<le> n"
  shows "getw k (copy_bytes d off src soff n) (off + i) = getw k src (soff + i)"
proof -
  have "map (copy_bytes d off src soff n) [off + i..<off + i + k] = map src [soff + i..<soff + i + k]"
    using assms by (auto simp: copy_bytes_def ac_simps intro!: nth_equalityI)
  then show ?thesis unfolding getw_def by (rule arg_cong)
qed

lemma le_word_zeros: "\<forall>b \<in> set bs. b = 0 \<Longrightarrow> le_word bs = (0 :: 'a::len word)"
proof (induction bs)
  case (Cons b bs)
  then have "b = 0" and "le_word bs = (0 :: 'a word)" by (simp_all add: le_bytes_def)
  then show ?case by simp
qed simp

lemma getw_fill_zero:
  "off \<le> off' \<Longrightarrow> off' + k \<le> off + n \<Longrightarrow> getw k (fill d off 0 n) off' = 0"
  unfolding getw_def by (rule le_word_zeros) (auto simp: fill_def)

end
