(* ===== verification/Kstate.thy ===== *)
theory Kstate
  imports Prelude
begin

text \<open>
  The kernel's data: the constants of \<^verbatim>\<open>kernel/param.h\<close>, \<^verbatim>\<open>kernel/fs.h\<close>,
  \<^verbatim>\<open>kernel/riscv.h\<close> and \<^verbatim>\<open>kernel/memlayout.h\<close>, the structures of the other headers as
  records, and one record \<open>kstate\<close> that holds the kernel's global variables. A table
  (\<^verbatim>\<open>proc[NPROC]\<close>, \<^verbatim>\<open>bcache.buf[NBUF]\<close>, \<^verbatim>\<open>itable.inode[NINODE]\<close>,
  \<^verbatim>\<open>ftable.file[NFILE]\<close>) is a function from indices to structures, and a pointer into it
  is an index. Structures that live in pages of the page allocator (a pipe, a trap frame) are
  in a store from page addresses to structures.

  Kernel code runs as one thread of one CPU: an operation is a function from the state to a
  result and a new state. The spin locks the thread holds are in \<open>held\<close>; a region of code
  between \<^verbatim>\<open>acquire\<close> and \<^verbatim>\<open>release\<close> is atomic for the other CPUs. Sleep locks are
  state, since the code tests them.
\<close>

subsection \<open>Constants\<close>

abbreviation (input) NPROC :: nat where "NPROC \<equiv> 64"
abbreviation (input) NOFILE :: nat where "NOFILE \<equiv> 16"
abbreviation (input) NFILE :: nat where "NFILE \<equiv> 100"
abbreviation (input) NINODE :: nat where "NINODE \<equiv> 50"
abbreviation (input) NDEV :: nat where "NDEV \<equiv> 10"
abbreviation (input) ROOTDEV :: u32 where "ROOTDEV \<equiv> 1"
abbreviation (input) MAXARG :: nat where "MAXARG \<equiv> 32"
abbreviation (input) MAXOPBLOCKS :: nat where "MAXOPBLOCKS \<equiv> 10"
abbreviation (input) LOGBLOCKS :: nat where "LOGBLOCKS \<equiv> 30"
abbreviation (input) NBUF :: nat where "NBUF \<equiv> 30"
abbreviation (input) FSSIZE :: nat where "FSSIZE \<equiv> 2000"
abbreviation (input) MAXPATH :: nat where "MAXPATH \<equiv> 128"
abbreviation (input) USERSTACK :: nat where "USERSTACK \<equiv> 2"

abbreviation (input) ROOTINO :: u32 where "ROOTINO \<equiv> 1"
abbreviation (input) BSIZE :: nat where "BSIZE \<equiv> 1024"
abbreviation (input) FSMAGIC :: u32 where "FSMAGIC \<equiv> 0x10203040"
abbreviation (input) NDIRECT :: nat where "NDIRECT \<equiv> 12"
abbreviation (input) NINDIRECT :: nat where "NINDIRECT \<equiv> 256"
abbreviation (input) MAXFILE :: nat where "MAXFILE \<equiv> 268"
abbreviation (input) DINODE_SIZE :: nat where "DINODE_SIZE \<equiv> 64"
abbreviation (input) IPB :: nat where "IPB \<equiv> 16"
abbreviation (input) BPB :: nat where "BPB \<equiv> 8192"
abbreviation (input) DIRSIZ :: nat where "DIRSIZ \<equiv> 14"
abbreviation (input) DIRENT_SIZE :: nat where "DIRENT_SIZE \<equiv> 16"

abbreviation (input) T_DIR :: u16 where "T_DIR \<equiv> 1"
abbreviation (input) T_FILE :: u16 where "T_FILE \<equiv> 2"
abbreviation (input) T_DEVICE :: u16 where "T_DEVICE \<equiv> 3"

abbreviation (input) PGSIZE :: nat where "PGSIZE \<equiv> 4096"
abbreviation (input) KERNBASE :: u64 where "KERNBASE \<equiv> 0x80000000"
abbreviation (input) PHYSTOP :: u64 where "PHYSTOP \<equiv> 0x88000000"
abbreviation (input) MAXVA :: u64 where "MAXVA \<equiv> 0x4000000000"
abbreviation (input) TRAMPOLINE :: u64 where "TRAMPOLINE \<equiv> 0x3ffffff000"
abbreviation (input) TRAPFRAME :: u64 where "TRAPFRAME \<equiv> 0x3fffffe000"

subsection \<open>Structures\<close>

datatype spin =
    Lk_kmem | Lk_bcache | Lk_log | Lk_itable | Lk_ftable | Lk_pid | Lk_wait | Lk_proc nat
  | Lk_pipe u64 | Lk_cons | Lk_tx | Lk_ticks | Lk_vdisk | Lk_pr | Lk_buf nat | Lk_inode nat

record sleeplock =
  sl_locked :: bool
  sl_pid :: int

record superblock =
  sb_magic :: u32
  sb_size :: u32
  sb_nblocks :: u32
  sb_ninodes :: u32
  sb_nlog :: u32
  sb_logstart :: u32
  sb_inodestart :: u32
  sb_bmapstart :: u32

record buf =
  b_valid :: bool
  b_disk :: bool
  b_dev :: u32
  b_blockno :: u32
  b_lock :: sleeplock
  b_refcnt :: u32
  b_prev :: nat
  b_next :: nat
  b_data :: block

record logheader =
  lh_n :: int
  lh_block :: "nat \<Rightarrow> u32"

record logstate =
  log_start :: u32
  log_outstanding :: int
  log_committing :: bool
  log_dev :: u32
  log_lh :: logheader

record inode =
  i_dev :: u32
  i_inum :: u32
  i_ref :: int
  i_lock :: sleeplock
  i_valid :: bool
  i_type :: u16
  i_major :: u16
  i_minor :: u16
  i_nlink :: u16
  i_size :: u32
  i_addrs :: "nat \<Rightarrow> u32"

datatype filetype = FD_NONE | FD_PIPE | FD_INODE | FD_DEVICE

record kfile =
  f_type :: filetype
  f_ref :: int
  f_readable :: bool
  f_writable :: bool
  f_pipe :: u64
  f_ip :: nat
  f_off :: u32
  f_major :: u16

record pipe =
  pi_data :: bytes
  pi_nread :: u32
  pi_nwrite :: u32
  pi_readopen :: bool
  pi_writeopen :: bool

record kcontext =
  ctx_ra :: u64
  ctx_sp :: u64
  ctx_s0 :: u64
  ctx_s1 :: u64
  ctx_s2 :: u64
  ctx_s3 :: u64
  ctx_s4 :: u64
  ctx_s5 :: u64
  ctx_s6 :: u64
  ctx_s7 :: u64
  ctx_s8 :: u64
  ctx_s9 :: u64
  ctx_s10 :: u64
  ctx_s11 :: u64

record trapframe =
  kernel_satp :: u64
  kernel_sp :: u64
  kernel_trap :: u64
  epc :: u64
  kernel_hartid :: u64
  tf_ra :: u64
  tf_sp :: u64
  tf_gp :: u64
  tf_tp :: u64
  tf_t0 :: u64
  tf_t1 :: u64
  tf_t2 :: u64
  tf_s0 :: u64
  tf_s1 :: u64
  tf_a0 :: u64
  tf_a1 :: u64
  tf_a2 :: u64
  tf_a3 :: u64
  tf_a4 :: u64
  tf_a5 :: u64
  tf_a6 :: u64
  tf_a7 :: u64
  tf_s2 :: u64
  tf_s3 :: u64
  tf_s4 :: u64
  tf_s5 :: u64
  tf_s6 :: u64
  tf_s7 :: u64
  tf_s8 :: u64
  tf_s9 :: u64
  tf_s10 :: u64
  tf_s11 :: u64
  tf_t3 :: u64
  tf_t4 :: u64
  tf_t5 :: u64
  tf_t6 :: u64

datatype procstate = UNUSED | USED | SLEEPING | RUNNABLE | RUNNING | ZOMBIE

record proc =
  p_state :: procstate
  p_chan :: "chan option"
  p_killed :: bool
  p_xstate :: int
  p_pid :: int
  p_parent :: "nat option"
  p_kstack :: u64
  p_sz :: u64
  p_pagetable :: u64
  p_trapframe :: u64
  p_context :: kcontext
  p_ofile :: "nat \<Rightarrow> nat option"
  p_cwd :: "nat option"
  p_name :: bytes

subsection \<open>The kernel state\<close>

text \<open>
  \<open>kend\<close> is the linker's symbol \<^verbatim>\<open>end\<close>; \<open>cur\<close> is the index of \<^verbatim>\<open>myproc()\<close>.
  \<open>disk\<close> is the content of the disk, by block; \<open>dwrites\<close> is the sequence of block writes
  the disk has done, oldest first. Index \<open>NBUF\<close> of \<open>bufs\<close> is \<^verbatim>\<open>bcache.head\<close>.
  \<open>devsw_read\<close> and \<open>devsw_write\<close> say which entries of \<^verbatim>\<open>devsw\<close> are set: the one device
  that the kernel registers is the console. \<open>ketext\<close>, \<open>ktrampoline\<close> and \<open>sym_forkret\<close> to
  \<open>sym_kernelvec\<close> are addresses that the linker assigns,
  \<open>fs_first\<close> is the static variable of \<^verbatim>\<open>forkret\<close>. \<open>uart_out\<close> is the sequence of bytes
  written to the UART's transmit register, oldest first, \<open>uart_in\<close> the bytes received and not
  yet read.
\<close>

record kstate =
  mem :: bytes
  kend :: u64
  freelist :: u64
  held :: "spin list"
  cur :: nat
  procs :: "nat \<Rightarrow> proc"
  initproc :: nat
  nextpid :: int
  ticks :: u32
  tframes :: "u64 \<Rightarrow> trapframe"
  pipes :: "u64 \<Rightarrow> pipe"
  disk :: "u32 \<Rightarrow> block"
  dwrites :: "(u32 \<times> block) list"
  bufs :: "nat \<Rightarrow> buf"
  klog :: logstate
  sb :: superblock
  itable :: "nat \<Rightarrow> inode"
  ftable :: "nat \<Rightarrow> kfile"
  devsw_read :: "nat \<Rightarrow> bool"
  devsw_write :: "nat \<Rightarrow> bool"
  kernel_pagetable :: u64
  ketext :: u64
  ktrampoline :: u64
  fs_first :: bool
  cons_buf :: bytes
  cons_r :: u32
  cons_w :: u32
  cons_e :: u32
  tx_busy :: bool
  uart_out :: "byte list"
  uart_in :: "byte list"
  sym_forkret :: u64
  sym_usertrap :: u64
  sym_uservec :: u64
  sym_userret :: u64
  sym_kernelvec :: u64

abbreviation myproc :: "kstate \<Rightarrow> proc" where
  "myproc s \<equiv> procs s (cur s)"

text \<open>The thread's view of a spin lock; theory \<open>Spinlock\<close> relates it to the lock's memory.\<close>

definition acquire :: "spin \<Rightarrow> kstate \<Rightarrow> kstate result" where
  "acquire lk s = (if lk \<in> set (held s) then Inl (Panic ''acquire'')
                   else Inr (s\<lparr>held := lk # held s\<rparr>))"

definition release :: "spin \<Rightarrow> kstate \<Rightarrow> kstate result" where
  "release lk s = (if lk \<notin> set (held s) then Inl (Panic ''release'')
                   else Inr (s\<lparr>held := removeAll lk (held s)\<rparr>))"

lemma acquire_free [simp]: "lk \<notin> set (held s) \<Longrightarrow> acquire lk s = Inr (s\<lparr>held := lk # held s\<rparr>)"
  by (simp add: acquire_def)

lemma release_held [simp]:
  "held s = lk # hs \<Longrightarrow> lk \<notin> set hs \<Longrightarrow> release lk s = Inr (s\<lparr>held := hs\<rparr>)"
  by (simp add: release_def)

lemma acquire_Inr_iff: "acquire lk s = Inr s' \<longleftrightarrow> lk \<notin> set (held s) \<and> s' = s\<lparr>held := lk # held s\<rparr>"
  by (auto simp: acquire_def)

lemma release_Inr_iff:
  "release lk s = Inr s' \<longleftrightarrow> lk \<in> set (held s) \<and> s' = s\<lparr>held := removeAll lk (held s)\<rparr>"
  by (auto simp: release_def)

subsection \<open>Zero-initialised structures\<close>

definition sleeplock0 :: sleeplock where
  "sleeplock0 = \<lparr>sl_locked = False, sl_pid = 0\<rparr>"

definition buf0 :: buf where
  "buf0 = \<lparr>b_valid = False, b_disk = False, b_dev = 0, b_blockno = 0, b_lock = sleeplock0,
           b_refcnt = 0, b_prev = 0, b_next = 0, b_data = (\<lambda>_. 0)\<rparr>"

definition inode0 :: inode where
  "inode0 = \<lparr>i_dev = 0, i_inum = 0, i_ref = 0, i_lock = sleeplock0, i_valid = False, i_type = 0,
             i_major = 0, i_minor = 0, i_nlink = 0, i_size = 0, i_addrs = (\<lambda>_. 0)\<rparr>"

definition file0 :: kfile where
  "file0 = \<lparr>f_type = FD_NONE, f_ref = 0, f_readable = False, f_writable = False, f_pipe = 0,
            f_ip = 0, f_off = 0, f_major = 0\<rparr>"

definition pipe0 :: pipe where
  "pipe0 = \<lparr>pi_data = (\<lambda>_. 0), pi_nread = 0, pi_nwrite = 0, pi_readopen = False,
            pi_writeopen = False\<rparr>"

definition context0 :: kcontext where
  "context0 = \<lparr>ctx_ra = 0, ctx_sp = 0, ctx_s0 = 0, ctx_s1 = 0, ctx_s2 = 0, ctx_s3 = 0, ctx_s4 = 0,
     ctx_s5 = 0, ctx_s6 = 0, ctx_s7 = 0, ctx_s8 = 0, ctx_s9 = 0, ctx_s10 = 0, ctx_s11 = 0\<rparr>"

definition trapframe0 :: trapframe where
  "trapframe0 = \<lparr>kernel_satp = 0, kernel_sp = 0, kernel_trap = 0, epc = 0, kernel_hartid = 0,
     tf_ra = 0, tf_sp = 0, tf_gp = 0, tf_tp = 0, tf_t0 = 0, tf_t1 = 0, tf_t2 = 0, tf_s0 = 0,
     tf_s1 = 0, tf_a0 = 0, tf_a1 = 0, tf_a2 = 0, tf_a3 = 0, tf_a4 = 0, tf_a5 = 0, tf_a6 = 0,
     tf_a7 = 0, tf_s2 = 0, tf_s3 = 0, tf_s4 = 0, tf_s5 = 0, tf_s6 = 0, tf_s7 = 0, tf_s8 = 0,
     tf_s9 = 0, tf_s10 = 0, tf_s11 = 0, tf_t3 = 0, tf_t4 = 0, tf_t5 = 0, tf_t6 = 0\<rparr>"

definition proc0 :: proc where
  "proc0 = \<lparr>p_state = UNUSED, p_chan = None, p_killed = False, p_xstate = 0, p_pid = 0,
     p_parent = None, p_kstack = 0, p_sz = 0, p_pagetable = 0, p_trapframe = 0,
     p_context = context0, p_ofile = (\<lambda>_. None), p_cwd = None, p_name = (\<lambda>_. 0)\<rparr>"

definition logstate0 :: logstate where
  "logstate0 = \<lparr>log_start = 0, log_outstanding = 0, log_committing = False, log_dev = 0,
     log_lh = \<lparr>lh_n = 0, lh_block = (\<lambda>_. 0)\<rparr>\<rparr>"

definition superblock0 :: superblock where
  "superblock0 = \<lparr>sb_magic = 0, sb_size = 0, sb_nblocks = 0, sb_ninodes = 0, sb_nlog = 0,
     sb_logstart = 0, sb_inodestart = 0, sb_bmapstart = 0\<rparr>"

definition kstate0 :: "u64 \<Rightarrow> (u32 \<Rightarrow> block) \<Rightarrow> kstate" where
  "kstate0 e d = \<lparr>mem = (\<lambda>_. 0), kend = e, freelist = 0, held = [], cur = 0,
     procs = (\<lambda>_. proc0), initproc = 0, nextpid = 1, ticks = 0, tframes = (\<lambda>_. trapframe0),
     pipes = (\<lambda>_. pipe0), disk = d, dwrites = [], bufs = (\<lambda>_. buf0), klog = logstate0,
     sb = superblock0, itable = (\<lambda>_. inode0), ftable = (\<lambda>_. file0),
     devsw_read = (\<lambda>_. False), devsw_write = (\<lambda>_. False), kernel_pagetable = 0,
     ketext = e, ktrampoline = e, fs_first = True, cons_buf = (\<lambda>_. 0), cons_r = 0, cons_w = 0,
     cons_e = 0, tx_busy = False, uart_out = [], uart_in = [], sym_forkret = e, sym_usertrap = e, sym_uservec = e,
     sym_userret = e, sym_kernelvec = e\<rparr>"

lemma kstate0_simps [simp]:
  "mem (kstate0 e d) = (\<lambda>_. 0)" "kend (kstate0 e d) = e" "freelist (kstate0 e d) = 0"
  "held (kstate0 e d) = []" "cur (kstate0 e d) = 0" "procs (kstate0 e d) = (\<lambda>_. proc0)"
  "nextpid (kstate0 e d) = 1" "ticks (kstate0 e d) = 0" "disk (kstate0 e d) = d"
  "dwrites (kstate0 e d) = []" "bufs (kstate0 e d) = (\<lambda>_. buf0)" "klog (kstate0 e d) = logstate0"
  "sb (kstate0 e d) = superblock0" "itable (kstate0 e d) = (\<lambda>_. inode0)"
  "ftable (kstate0 e d) = (\<lambda>_. file0)" "pipes (kstate0 e d) = (\<lambda>_. pipe0)"
  "initproc (kstate0 e d) = 0" "tframes (kstate0 e d) = (\<lambda>_. trapframe0)"
  "cons_r (kstate0 e d) = 0" "cons_w (kstate0 e d) = 0" "cons_e (kstate0 e d) = 0"
  "uart_out (kstate0 e d) = []" "uart_in (kstate0 e d) = []" "tx_busy (kstate0 e d) = False"
  "fs_first (kstate0 e d) = True" "devsw_read (kstate0 e d) = (\<lambda>_. False)"
  "devsw_write (kstate0 e d) = (\<lambda>_. False)"
  by (simp_all add: kstate0_def)

lemmas zero_defs = sleeplock0_def buf0_def inode0_def file0_def pipe0_def proc0_def logstate0_def
  superblock0_def kstate0_def

end
