(* ===== verification/Kstring.thy ===== *)
theory Kstring
  imports Prelude
begin

text \<open>
  \<^verbatim>\<open>kernel/string.c\<close>: the byte and string routines, written as the loops of the source over
  arrays of bytes, and what each loop computes. A pointer is an array and an offset.
\<close>

subsection \<open>Definitions\<close>

text \<open>\<^verbatim>\<open>for(i = 0; i < n; i++) cdst[i] = c;\<close>\<close>

function memset_loop :: "bytes \<Rightarrow> nat \<Rightarrow> int \<Rightarrow> nat \<Rightarrow> nat \<Rightarrow> bytes" where
  "memset_loop m dst c i n =
     (if i < n then memset_loop (m(dst + i := of_int c)) dst c (Suc i) n else m)"
  by pat_completeness auto
termination
  by (relation "measure (\<lambda>(m, dst, c, i, n). n - i)") auto

definition memset :: "bytes \<Rightarrow> nat \<Rightarrow> int \<Rightarrow> nat \<Rightarrow> bytes" where
  "memset m dst c n = memset_loop m dst c 0 n"

fun memcmp :: "bytes \<Rightarrow> nat \<Rightarrow> bytes \<Rightarrow> nat \<Rightarrow> nat \<Rightarrow> int" where
  "memcmp v1 s1 v2 s2 0 = 0"
| "memcmp v1 s1 v2 s2 (Suc n) =
     (if v1 s1 \<noteq> v2 s2 then int (unat (v1 s1)) - int (unat (v2 s2))
      else memcmp v1 (Suc s1) v2 (Suc s2) n)"

text \<open>\<^verbatim>\<open>while(n-- > 0) *d++ = *s++;\<close> and \<^verbatim>\<open>while(n-- > 0) *--d = *--s;\<close>\<close>

fun move_up :: "bytes \<Rightarrow> nat \<Rightarrow> nat \<Rightarrow> nat \<Rightarrow> bytes" where
  "move_up m d s 0 = m"
| "move_up m d s (Suc n) = move_up (m(d := m s)) (Suc d) (Suc s) n"

fun move_down :: "bytes \<Rightarrow> nat \<Rightarrow> nat \<Rightarrow> nat \<Rightarrow> bytes" where
  "move_down m d s 0 = m"
| "move_down m d s (Suc n) = move_down (m(d - 1 := m (s - 1))) (d - 1) (s - 1) n"

definition memmove :: "bytes \<Rightarrow> nat \<Rightarrow> nat \<Rightarrow> nat \<Rightarrow> bytes" where
  "memmove m dst src n =
     (if n = 0 then m
      else if src < dst \<and> src + n > dst then move_down m (dst + n) (src + n) n
      else move_up m dst src n)"

definition memcpy :: "bytes \<Rightarrow> nat \<Rightarrow> nat \<Rightarrow> nat \<Rightarrow> bytes" where
  "memcpy m dst src n = memmove m dst src n"

fun strncmp :: "bytes \<Rightarrow> nat \<Rightarrow> bytes \<Rightarrow> nat \<Rightarrow> nat \<Rightarrow> int" where
  "strncmp p i q j 0 = 0"
| "strncmp p i q j (Suc n) =
     (if p i \<noteq> 0 \<and> p i = q j then strncmp p (Suc i) q (Suc j) n
      else int (unat (p i)) - int (unat (q j)))"

text \<open>\<^verbatim>\<open>while(n-- > 0) *s++ = 0;\<close>\<close>

fun zero_tail :: "bytes \<Rightarrow> nat \<Rightarrow> nat \<Rightarrow> bytes" where
  "zero_tail d i 0 = d"
| "zero_tail d i (Suc n) = zero_tail (d(i := 0)) (Suc i) n"

fun strncpy :: "bytes \<Rightarrow> nat \<Rightarrow> bytes \<Rightarrow> nat \<Rightarrow> nat \<Rightarrow> bytes" where
  "strncpy d i t j 0 = d"
| "strncpy d i t j (Suc n) =
     (if t j \<noteq> 0 then strncpy (d(i := t j)) (Suc i) t (Suc j) n
      else zero_tail (d(i := t j)) (Suc i) n)"

text \<open>\<^verbatim>\<open>while(--n > 0 && (*s++ = *t++) != 0) ; *s = 0;\<close> with \<open>n\<close> counted before the decrement\<close>

fun safestrcpy_loop :: "bytes \<Rightarrow> nat \<Rightarrow> bytes \<Rightarrow> nat \<Rightarrow> nat \<Rightarrow> bytes" where
  "safestrcpy_loop d i t j 0 = d(i := 0)"
| "safestrcpy_loop d i t j (Suc 0) = d(i := 0)"
| "safestrcpy_loop d i t j (Suc (Suc n)) =
     (if t j \<noteq> 0 then safestrcpy_loop (d(i := t j)) (Suc i) t (Suc j) (Suc n)
      else (d(i := t j))(Suc i := 0))"

definition safestrcpy :: "bytes \<Rightarrow> nat \<Rightarrow> bytes \<Rightarrow> nat \<Rightarrow> nat \<Rightarrow> bytes" where
  "safestrcpy d i t j n = (if n = 0 then d else safestrcpy_loop d i t j n)"

partial_function (option) strlen_from :: "bytes \<Rightarrow> nat \<Rightarrow> nat \<Rightarrow> nat option" where
  "strlen_from s i n = (if s (i + n) = 0 then Some n else strlen_from s i (Suc n))"

definition strlen :: "bytes \<Rightarrow> nat \<Rightarrow> nat option" where
  "strlen s i = strlen_from s i 0"

text \<open>
  The characters of the C string at offset \<open>i\<close> of an array, at most \<open>n\<close> of them: what the
  string routines mean by a counted string.
\<close>

definition cstrn :: "bytes \<Rightarrow> nat \<Rightarrow> nat \<Rightarrow> byte list" where
  "cstrn p i n = takeWhile (\<lambda>c. c \<noteq> 0) (map p [i..<i + n])"

subsection \<open>Memory blocks\<close>

declare memset_loop.simps [simp del]

lemma memset_loop_eq:
  "i \<le> n \<Longrightarrow> memset_loop m dst c i n = fill m (dst + i) (of_int c) (n - i)"
proof (induction "n - i" arbitrary: m i)
  case 0
  then show ?case by (subst memset_loop.simps) simp
next
  case (Suc k)
  then have i: "i < n" by simp
  have "memset_loop m dst c i n = memset_loop (m(dst + i := of_int c)) dst c (Suc i) n"
    using i by (subst memset_loop.simps) simp
  also have "\<dots> = fill (m(dst + i := of_int c)) (dst + Suc i) (of_int c) (n - Suc i)"
    using Suc i by auto
  also have "\<dots> = fill m (dst + i) (of_int c) (n - i)"
    using i by (auto simp: fill_def fun_eq_iff)
  finally show ?case .
qed

lemma memset_eq_fill: "memset m dst c n = fill m dst (of_int c) n"
  by (simp add: memset_def memset_loop_eq)

lemma memcmp_0_iff: "memcmp v1 s1 v2 s2 n = 0 \<longleftrightarrow> (\<forall>k<n. v1 (s1 + k) = v2 (s2 + k))"
proof (induction v1 s1 v2 s2 n rule: memcmp.induct)
  case (2 v1 s1 v2 s2 n)
  have "(\<forall>k<Suc n. v1 (s1 + k) = v2 (s2 + k)) \<longleftrightarrow>
      v1 s1 = v2 s2 \<and> (\<forall>k<n. v1 (Suc s1 + k) = v2 (Suc s2 + k))"
    by (metis (no_types, lifting) Suc_less_eq add.right_neutral add_Suc_shift less_Suc_eq_0_disj
        zero_less_Suc)
  moreover have "v1 s1 = v2 s2" if "uint (v1 s1) = uint (v2 s2)"
    using that by (simp add: word_uint_eq_iff)
  ultimately show ?case using 2 by auto
qed simp

lemma move_up_eq:
  "\<not> (s < d \<and> d < s + n) \<Longrightarrow> move_up m d s n = copy_bytes m d m s n"
proof (induction n arbitrary: m d s)
  case (Suc n)
  have "\<not> (Suc s < Suc d \<and> Suc d < Suc s + n)" using Suc.prems by auto
  then have "move_up (m(d := m s)) (Suc d) (Suc s) n =
      copy_bytes (m(d := m s)) (Suc d) (m(d := m s)) (Suc s) n" by (rule Suc.IH)
  then have "move_up m d s (Suc n) = copy_bytes (m(d := m s)) (Suc d) (m(d := m s)) (Suc s) n"
    by simp
  also have "\<dots> = copy_bytes m d m s (Suc n)"
  proof (rule ext)
    fix i
    have "i - Suc d + Suc s = i - d + s" "i - d + s \<noteq> d" if "d < i" "i < d + Suc n"
      using that Suc.prems by linarith+
    then show "copy_bytes (m(d := m s)) (Suc d) (m(d := m s)) (Suc s) n i =
        copy_bytes m d m s (Suc n) i"
      by (cases "d < i \<and> i < d + Suc n") (auto simp: copy_bytes_def)
  qed
  finally show ?case .
qed simp

lemma move_down_eq:
  "s \<le> d \<Longrightarrow> move_down m (d + n) (s + n) n = copy_bytes m d m s n"
proof (induction n arbitrary: m)
  case (Suc n)
  have "move_down m (d + Suc n) (s + Suc n) (Suc n) =
      copy_bytes (m(d + n := m (s + n))) d (m(d + n := m (s + n))) s n"
    using Suc by simp
  also have "\<dots> = copy_bytes m d m s (Suc n)"
    using Suc.prems by (auto simp: copy_bytes_def fun_eq_iff less_Suc_eq add.commute)
  finally show ?case .
qed simp

lemma memmove_eq_copy: "memmove m dst src n = copy_bytes m dst m src n"
  by (auto simp: memmove_def move_up_eq move_down_eq)

subsection \<open>Strings\<close>

lemma cstrn_0 [simp]: "cstrn p i 0 = []"
  by (simp add: cstrn_def)

lemma cstrn_Suc: "cstrn p i (Suc n) = (if p i = 0 then [] else p i # cstrn p (Suc i) n)"
  by (simp add: cstrn_def upt_conv_Cons del: upt_Suc)

lemma cstrn_cong: "(\<And>k. k < n \<Longrightarrow> p (i + k) = q (j + k)) \<Longrightarrow> cstrn p i n = cstrn q j n"
proof (induction n arbitrary: i j)
  case (Suc n)
  have "p i = q j" using Suc.prems [of 0] by simp
  moreover have "cstrn p (Suc i) n = cstrn q (Suc j) n"
    by (rule Suc.IH) (use Suc.prems in \<open>metis Suc_less_eq add_Suc_shift\<close>)
  ultimately show ?case by (simp add: cstrn_Suc)
qed simp

lemma strncmp_0_iff: "strncmp p i q j n = 0 \<longleftrightarrow> cstrn p i n = cstrn q j n"
proof (induction p i q j n rule: strncmp.induct)
  case (2 p i q j n)
  have "p i = q j" if "uint (p i) = uint (q j)"
    using that by (simp add: word_uint_eq_iff)
  with 2 show ?case by (auto simp: cstrn_Suc)
qed simp

lemma strncmp_sym: "strncmp p i q j n = - strncmp q j p i n"
  by (induction p i q j n rule: strncmp.induct) auto

lemma zero_tail_eq: "zero_tail d i n = fill d i 0 n"
proof (induction n arbitrary: d i)
  case (Suc n)
  then show ?case by (auto simp: fill_def fun_eq_iff)
qed simp

lemma strncpy_outside: "k < i \<or> i + n \<le> k \<Longrightarrow> strncpy d i t j n k = d k"
  by (induction n arbitrary: d i j k) (auto simp: zero_tail_eq fill_def)

lemma strncpy_inside:
  "k < n \<Longrightarrow> strncpy d i t j n (i + k) =
     (if k < length (cstrn t j n) then t (j + k) else 0)"
proof (induction n arbitrary: d i j k)
  case (Suc n)
  show ?case
  proof (cases "t j = 0")
    case True
    with Suc.prems show ?thesis by (auto simp: cstrn_Suc zero_tail_eq fill_def)
  next
    case False
    show ?thesis
    proof (cases k)
      case 0
      with False show ?thesis by (simp add: cstrn_Suc strncpy_outside)
    next
      case k: (Suc k')
      with Suc.prems have "k' < n" by simp
      then have "strncpy (d(i := t j)) (Suc i) t (Suc j) n (Suc i + k') =
          (if k' < length (cstrn t (Suc j) n) then t (Suc j + k') else 0)" by (rule Suc.IH)
      with k False show ?thesis by (simp add: cstrn_Suc)
    qed
  qed
qed simp

lemma cstrn_nth: "k < length (cstrn t j n) \<Longrightarrow> t (j + k) = cstrn t j n ! k \<and> t (j + k) \<noteq> 0 \<and> k < n"
proof (induction n arbitrary: j k)
  case (Suc n)
  then show ?case
  proof (cases k)
    case k: (Suc k')
    with Suc.prems have "t j \<noteq> 0" "k' < length (cstrn t (Suc j) n)"
      by (auto simp: cstrn_Suc split: if_splits)
    with Suc.IH [of k' "Suc j"] k show ?thesis by (auto simp: cstrn_Suc)
  qed (auto simp: cstrn_Suc split: if_splits)
qed simp

lemma length_cstrn_le: "length (cstrn t j n) \<le> n"
  using length_takeWhile_le [of "\<lambda>c. c \<noteq> 0" "map t [j..<j + n]"] by (simp add: cstrn_def)

lemma cstrn_strncpy: "cstrn (strncpy d i t j n) i n = cstrn t j n"
proof (induction n arbitrary: d i j)
  case (Suc n)
  then show ?case
    by (auto simp: cstrn_Suc strncpy_outside zero_tail_eq fill_def)
qed simp

lemma safestrcpy_loop_outside:
  "k < i \<or> i + n \<le> k \<Longrightarrow> 0 < n \<Longrightarrow> safestrcpy_loop d i t j n k = d k"
proof (induction n arbitrary: d i j)
  case (Suc n)
  then show ?case by (cases n) auto
qed simp

lemma cstrn_safestrcpy_loop:
  "0 < n \<Longrightarrow> cstrn (safestrcpy_loop d i t j n) i n = cstrn t j (n - 1)"
proof (induction n arbitrary: d i j)
  case (Suc n)
  then show ?case
    by (cases n) (auto simp: cstrn_Suc safestrcpy_loop_outside)
qed simp

lemma strlen_from_step:
  "s (i + n) = 0 \<Longrightarrow> strlen_from s i n = Some n"
  "s (i + n) \<noteq> 0 \<Longrightarrow> strlen_from s i n = strlen_from s i (Suc n)"
  by (simp_all add: strlen_from.simps [of s i n])

lemma strlen_from_eq:
  "s (i + k) = 0 \<Longrightarrow> n \<le> k \<Longrightarrow> (\<And>j. n \<le> j \<Longrightarrow> j < k \<Longrightarrow> s (i + j) \<noteq> 0) \<Longrightarrow>
     strlen_from s i n = Some k"
proof (induction "k - n" arbitrary: n)
  case 0
  then show ?case by (simp add: strlen_from_step)
next
  case (Suc d)
  then have "n < k" "s (i + n) \<noteq> 0" by auto
  moreover have "strlen_from s i (Suc n) = Some k"
    by (rule Suc.hyps(1)) (use Suc \<open>n < k\<close> in auto)
  ultimately show ?case by (simp add: strlen_from_step)
qed

lemma strlen_eq:
  "s (i + k) = 0 \<Longrightarrow> (\<And>j. j < k \<Longrightarrow> s (i + j) \<noteq> 0) \<Longrightarrow> strlen s i = Some k"
  unfolding strlen_def by (rule strlen_from_eq) auto

end
