(* ===== verification/Kalloc.thy ===== *)
theory Kalloc
  imports Riscv Kstring
begin

text \<open>
  \<^verbatim>\<open>kernel/kalloc.c\<close>: the physical page allocator. The free list is threaded through the
  free pages themselves (\<^verbatim>\<open>struct run\<close>), so its links are loads from \<open>mem\<close>. The relation
  \<open>free_list\<close> reads the chain as a list of page addresses; the locale \<open>page_allocator\<close>
  states what the rest of the kernel relies on, and \<open>kmem\<close> is its interpretation on the code.
\<close>

subsection \<open>Definitions\<close>

definition kfree :: "u64 \<Rightarrow> kstate \<Rightarrow> kstate result" where
  "kfree pa s =
     (if unat pa mod PGSIZE \<noteq> 0 \<or> pa < kend s \<or> pa \<ge> PHYSTOP then Inl (Panic ''kfree'')
      else
        let s = s\<lparr>mem := memset (mem s) (unat pa) 1 PGSIZE\<rparr> in
        rbind (acquire Lk_kmem s) (\<lambda>s.
        release Lk_kmem
          (s\<lparr>mem := put64 (mem s) (unat pa) (freelist s), freelist := pa\<rparr>)))"

definition kalloc :: "kstate \<Rightarrow> (u64 \<times> kstate) result" where
  "kalloc s =
     rbind (acquire Lk_kmem s) (\<lambda>s.
     let r = freelist s;
         s = (if r \<noteq> 0 then s\<lparr>freelist := get64 (mem s) (unat r)\<rparr> else s) in
     rbind (release Lk_kmem s) (\<lambda>s.
     let s = (if r \<noteq> 0 then s\<lparr>mem := memset (mem s) (unat r) 5 PGSIZE\<rparr> else s) in
     Inr (r, s)))"

text \<open>
  \<^verbatim>\<open>for(; p + PGSIZE <= pa_end; p += PGSIZE) kfree(p);\<close> ends because \<^verbatim>\<open>kfree\<close> panics on
  an address at or above \<^verbatim>\<open>PHYSTOP\<close>.
\<close>

lemma kfree_below_PHYSTOP: "kfree pa s = Inr s' \<Longrightarrow> unat pa < unat PHYSTOP"
  by (auto simp: kfree_def word_less_nat_alt word_le_nat_alt not_le split: if_splits)

function freerange_loop :: "u64 \<Rightarrow> u64 \<Rightarrow> kstate \<Rightarrow> kstate result" where
  "freerange_loop p pa_end s =
     (if p + 4096 \<le> pa_end then rbind (kfree p s) (\<lambda>s. freerange_loop (p + 4096) pa_end s)
      else Inr s)"
  by pat_completeness auto
termination
proof (relation "measure (\<lambda>(p, e, s). unat PHYSTOP - unat p)")
  fix p pa_end :: u64 and s x
  assume "kfree p s = Inr x"
  then have "unat p < unat PHYSTOP" by (rule kfree_below_PHYSTOP)
  moreover from this have "unat (p + 4096) = unat p + 4096" by (simp add: unat_plus_if')
  ultimately show "((p + 4096, pa_end, x), p, pa_end, s)
      \<in> measure (\<lambda>(p, e, s). unat PHYSTOP - unat p)" by simp
qed simp

declare freerange_loop.simps [simp del]

definition freerange :: "u64 \<Rightarrow> u64 \<Rightarrow> kstate \<Rightarrow> kstate result" where
  "freerange pa_start pa_end s = freerange_loop (PGROUNDUP pa_start) pa_end s"

definition kinit :: "kstate \<Rightarrow> kstate result" where
  "kinit s = freerange (kend s) PHYSTOP s"

subsection \<open>The free list\<close>

primrec chain :: "bytes \<Rightarrow> u64 \<Rightarrow> u64 list \<Rightarrow> bool" where
  "chain m p [] \<longleftrightarrow> p = 0"
| "chain m p (x # xs) \<longleftrightarrow> p = x \<and> x \<noteq> 0 \<and> chain m (get64 m (unat x)) xs"

definition good_page :: "kstate \<Rightarrow> u64 \<Rightarrow> bool" where
  "good_page s pa \<longleftrightarrow> unat pa mod PGSIZE = 0 \<and> kend s \<le> pa \<and> pa < PHYSTOP \<and> pa \<noteq> 0"

definition free_list :: "kstate \<Rightarrow> u64 list \<Rightarrow> bool" where
  "free_list s xs \<longleftrightarrow>
     chain (mem s) (freelist s) xs \<and> distinct xs \<and> (\<forall>x\<in>set xs. good_page s x)"

definition page_bytes :: "u64 \<Rightarrow> nat set" where
  "page_bytes pa = {unat pa..<unat pa + PGSIZE}"

lemma free_list_cong:
  "mem s' = mem s \<Longrightarrow> freelist s' = freelist s \<Longrightarrow> kend s' = kend s \<Longrightarrow>
     free_list s' xs = free_list s xs"
  by (simp add: free_list_def good_page_def)

lemma chain_unique: "chain m p xs \<Longrightarrow> chain m p ys \<Longrightarrow> xs = ys"
proof (induction xs arbitrary: p ys)
  case Nil
  then show ?case by (cases ys) auto
next
  case (Cons x xs)
  then show ?case by (cases ys) auto
qed

lemma free_list_unique: "free_list s xs \<Longrightarrow> free_list s ys \<Longrightarrow> xs = ys"
  by (auto simp: free_list_def dest: chain_unique)

lemma pages_apart:
  assumes "unat x mod 4096 = 0" "unat y mod 4096 = 0" "x \<noteq> y"
  shows "unat x + 4096 \<le> unat y \<or> unat y + 4096 \<le> unat x"
proof -
  obtain i j where ij: "unat x = 4096 * i" "unat y = 4096 * j"
    using assms(1,2) by (auto elim!: mod_eq_0_iff_dvd [THEN iffD1, THEN dvdE])
  moreover have "i \<noteq> j" using assms(3) ij by (auto simp: word_unat_eq_iff)
  ultimately show ?thesis by auto
qed

lemma chain_other_page:
  assumes "\<forall>x\<in>set xs. unat x mod 4096 = 0" "unat pa mod 4096 = 0" "pa \<notin> set xs"
    and "\<And>i. i \<notin> page_bytes pa \<Longrightarrow> m' i = m i"
  shows "chain m' p xs = chain m p xs"
  using assms(1,3)
proof (induction xs arbitrary: p)
  case (Cons x xs)
  have "unat x + 4096 \<le> unat pa \<or> unat pa + 4096 \<le> unat x"
    using Cons.prems assms(2) by (intro pages_apart) auto
  then have "get64 m' (unat x) = get64 m (unat x)"
    by (intro getw_cong assms(4)) (auto simp: page_bytes_def)
  with Cons show ?case by simp
qed simp

subsection \<open>The operations\<close>

lemma kfree_page:
  assumes "free_list s xs" "Lk_kmem \<notin> set (held s)" "good_page s pa" "pa \<notin> set xs"
  obtains m where "kfree pa s = Inr (s\<lparr>mem := m, freelist := pa\<rparr>)"
    "free_list (s\<lparr>mem := m, freelist := pa\<rparr>) (pa # xs)"
    "\<And>i. i \<notin> page_bytes pa \<Longrightarrow> m i = mem s i"
proof
  let ?m = "put64 (fill (mem s) (unat pa) 1 4096) (unat pa) (freelist s)"
  have out: "?m i = mem s i" if "i \<notin> page_bytes pa" for i
    using that by (auto simp: putw_def fill_def page_bytes_def)
  show "kfree pa s = Inr (s\<lparr>mem := ?m, freelist := pa\<rparr>)"
    using assms(2,3) by (auto simp: kfree_def good_page_def memset_eq_fill not_le not_less)
  have "chain ?m (freelist s) xs = chain (mem s) (freelist s) xs"
    by (rule chain_other_page [OF _ _ assms(4) out])
      (use assms in \<open>auto simp: free_list_def good_page_def\<close>)
  then show "free_list (s\<lparr>mem := ?m, freelist := pa\<rparr>) (pa # xs)"
    using assms by (auto simp: free_list_def good_page_def)
  show "\<And>i. i \<notin> page_bytes pa \<Longrightarrow> ?m i = mem s i" by (rule out)
qed

lemma kalloc_page:
  assumes "free_list s (x # xs)" "Lk_kmem \<notin> set (held s)"
  obtains f where "kalloc s = Inr (x, s\<lparr>mem := fill (mem s) (unat x) 5 PGSIZE, freelist := f\<rparr>)"
    "free_list (s\<lparr>mem := fill (mem s) (unat x) 5 PGSIZE, freelist := f\<rparr>) xs"
proof
  let ?f = "get64 (mem s) (unat x)" and ?m = "fill (mem s) (unat x) 5 PGSIZE"
  have x: "freelist s = x" "x \<noteq> 0" using assms(1) by (auto simp: free_list_def)
  with assms(2) show "kalloc s = Inr (x, s\<lparr>mem := ?m, freelist := ?f\<rparr>)"
    by (auto simp: kalloc_def memset_eq_fill)
  have "chain ?m ?f xs = chain (mem s) ?f xs"
    by (rule chain_other_page [where pa = x])
      (use assms(1) in \<open>auto simp: free_list_def good_page_def fill_def page_bytes_def\<close>)
  with assms(1) show "free_list (s\<lparr>mem := ?m, freelist := ?f\<rparr>) xs"
    by (auto simp: free_list_def good_page_def)
qed

lemma kalloc_empty:
  assumes "free_list s []" "Lk_kmem \<notin> set (held s)"
  shows "kalloc s = Inr (0, s)"
  using assms by (auto simp: free_list_def kalloc_def)

subsection \<open>The interface of the allocator\<close>

locale page_allocator =
  fixes alloc :: "'s \<Rightarrow> (u64 \<times> 's) result"
    and dealloc :: "u64 \<Rightarrow> 's \<Rightarrow> 's result"
    and free :: "'s \<Rightarrow> u64 list \<Rightarrow> bool"
    and page :: "'s \<Rightarrow> u64 \<Rightarrow> bool"
    and ready :: "'s \<Rightarrow> bool"
  assumes alloc_none: "free s [] \<Longrightarrow> ready s \<Longrightarrow> alloc s = Inr (0, s)"
    and alloc_some: "free s (x # xs) \<Longrightarrow> ready s \<Longrightarrow>
      \<exists>s'. alloc s = Inr (x, s') \<and> free s' xs \<and> page s' = page s \<and> ready s'"
    and dealloc_page: "free s xs \<Longrightarrow> ready s \<Longrightarrow> page s p \<Longrightarrow> p \<notin> set xs \<Longrightarrow>
      \<exists>s'. dealloc p s = Inr s' \<and> free s' (p # xs) \<and> page s' = page s \<and> ready s'"
    and free_pages: "free s xs \<Longrightarrow> distinct xs \<and> 0 \<notin> set xs \<and> (\<forall>x\<in>set xs. page s x)"
begin

text \<open>An allocation never fails otherwise than by returning 0, and only when no page is free.\<close>

lemma alloc_result:
  assumes "free s xs" "ready s"
  obtains (none) "xs = []" "alloc s = Inr (0, s)"
  | (some) x xs' s' where "xs = x # xs'" "alloc s = Inr (x, s')" "free s' xs'" "x \<noteq> 0"
      "page s x" "x \<notin> set xs'" "ready s'" "page s' = page s"
proof (cases xs)
  case Nil
  with assms none show ?thesis by (simp add: alloc_none)
next
  case (Cons x xs')
  with assms obtain s' where "alloc s = Inr (x, s')" "free s' xs'" "page s' = page s" "ready s'"
    using alloc_some by blast
  moreover have "x \<noteq> 0" "page s x" "x \<notin> set xs'"
    using free_pages [OF assms(1)] Cons by auto
  ultimately show ?thesis using Cons some by blast
qed

text \<open>A freed page is the next one allocated, and then the free pages are as before.\<close>

lemma dealloc_alloc:
  assumes "free s xs" "ready s" "page s p" "p \<notin> set xs"
  shows "\<exists>s1 s2. dealloc p s = Inr s1 \<and> alloc s1 = Inr (p, s2) \<and> free s2 xs \<and> page s2 = page s
    \<and> ready s2"
proof -
  from dealloc_page [OF assms] obtain s1 where
    s1: "dealloc p s = Inr s1" "free s1 (p # xs)" "page s1 = page s" "ready s1" by blast
  with alloc_some [OF s1(2)] show ?thesis by fastforce
qed

text \<open>A page that has been allocated can be given back.\<close>

lemma alloc_dealloc:
  assumes "free s xs" "ready s" "alloc s = Inr (x, s')" "x \<noteq> 0"
  shows "\<exists>s''. dealloc x s' = Inr s'' \<and> free s'' xs"
  using assms(1,2)
proof (cases rule: alloc_result)
  case none
  with assms(3,4) show ?thesis by simp
next
  case (some y ys t)
  with assms(3) have "y = x" "t = s'" by auto
  with some dealloc_page [of s' ys x] show ?thesis by auto
qed

end

interpretation kmem: page_allocator kalloc kfree free_list good_page "\<lambda>s. Lk_kmem \<notin> set (held s)"
proof unfold_locales
  fix s x xs assume "free_list s (x # xs)" "Lk_kmem \<notin> set (held s)"
  then obtain f where
    "kalloc s = Inr (x, s\<lparr>mem := fill (mem s) (unat x) 5 PGSIZE, freelist := f\<rparr>)"
    "free_list (s\<lparr>mem := fill (mem s) (unat x) 5 PGSIZE, freelist := f\<rparr>) xs"
    by (rule kalloc_page)
  with \<open>Lk_kmem \<notin> set (held s)\<close> show "\<exists>s'. kalloc s = Inr (x, s') \<and> free_list s' xs \<and>
      good_page s' = good_page s \<and> Lk_kmem \<notin> set (held s')"
    by (auto simp: good_page_def fun_eq_iff)
next
  fix s xs p
  assume "free_list s xs" "Lk_kmem \<notin> set (held s)" "good_page s p" "p \<notin> set xs"
  then obtain m where "kfree p s = Inr (s\<lparr>mem := m, freelist := p\<rparr>)"
    "free_list (s\<lparr>mem := m, freelist := p\<rparr>) (p # xs)" by (rule kfree_page)
  with \<open>Lk_kmem \<notin> set (held s)\<close> show "\<exists>s'. kfree p s = Inr s' \<and> free_list s' (p # xs) \<and>
      good_page s' = good_page s \<and> Lk_kmem \<notin> set (held s')"
    by (auto simp: good_page_def fun_eq_iff)
next
  fix s xs assume "free_list s xs"
  then show "distinct xs \<and> 0 \<notin> set xs \<and> (\<forall>x\<in>set xs. good_page s x)"
    by (auto simp: free_list_def good_page_def)
qed (rule kalloc_empty)

subsection \<open>Initialisation\<close>

definition pages_from :: "u64 \<Rightarrow> nat \<Rightarrow> u64 list" where
  "pages_from p n = map (\<lambda>i. p + 4096 * of_nat i) [0..<n]"

lemma pages_from_Suc: "pages_from p (Suc n) = p # pages_from (p + 4096) n"
  unfolding pages_from_def
  by (subst upt_conv_Cons) (auto simp: map_Suc_upt [symmetric] algebra_simps simp del: upt_Suc)

lemma page_count_Suc:
  assumes "Suc n = (e - p) div 4096"
  shows "p + 4096 \<le> e" "n = (e - (p + 4096)) div (4096 :: nat)"
proof -
  have "4096 \<le> e - p" using assms by (metis div_less nat.distinct(1) not_less)
  then show "p + 4096 \<le> e" by simp
  from \<open>4096 \<le> e - p\<close> have "(e - p) div 4096 = Suc ((e - p - 4096) div 4096)"
    by (intro le_div_geq) simp_all
  with assms show "n = (e - (p + 4096)) div 4096" by simp
qed

lemma freerange_loop_frees:
  assumes "free_list s xs" "Lk_kmem \<notin> set (held s)" "unat p mod 4096 = 0" "kend s \<le> p" "p \<noteq> 0"
    and "pa_end \<le> PHYSTOP" "p \<le> PHYSTOP" "\<forall>x\<in>set xs. x < p"
  shows "\<exists>s'. freerange_loop p pa_end s = Inr s' \<and> kend s' = kend s \<and>
    free_list s' (rev (pages_from p ((unat pa_end - unat p) div 4096)) @ xs)"
  using assms
proof (induction "(unat pa_end - unat p) div 4096" arbitrary: p s xs)
  case 0
  then have "unat pa_end < unat p + 4096" by (simp add: div_eq_0_iff)
  moreover have "unat (p + 4096) = unat p + 4096"
    using 0 by (simp add: word_le_nat_alt unat_plus_if')
  ultimately have "\<not> p + 4096 \<le> pa_end" by (simp add: word_le_nat_alt)
  with 0 show ?case by (subst freerange_loop.simps) (simp add: pages_from_def)
next
  case (Suc n)
  have u: "unat (p + 4096) = unat p + 4096"
    using Suc.prems by (simp add: word_le_nat_alt unat_plus_if')
  have big: "unat p + 4096 \<le> unat pa_end"
    using Suc.hyps(2) by (rule page_count_Suc)
  then have le: "p + 4096 \<le> pa_end" by (simp add: word_le_nat_alt u)
  have nz: "p + 4096 \<noteq> 0" using u by (metis add_is_0 unat_0 zero_neq_numeral)
  have good: "good_page s p" "p \<notin> set xs"
    using Suc.prems big by (auto simp: good_page_def word_le_nat_alt word_less_nat_alt)
  obtain m where m: "kfree p s = Inr (s\<lparr>mem := m, freelist := p\<rparr>)"
    "free_list (s\<lparr>mem := m, freelist := p\<rparr>) (p # xs)"
    using kfree_page [OF Suc.prems(1,2) good] by blast
  have n: "n = (unat pa_end - unat (p + 4096)) div 4096"
    using page_count_Suc(2) [OF Suc.hyps(2)] by (simp add: u)
  have "\<exists>s'. freerange_loop (p + 4096) pa_end (s\<lparr>mem := m, freelist := p\<rparr>) = Inr s' \<and>
      kend s' = kend (s\<lparr>mem := m, freelist := p\<rparr>) \<and>
      free_list s' (rev (pages_from (p + 4096) ((unat pa_end - unat (p + 4096)) div 4096)) @ p # xs)"
    by (rule Suc.hyps(1) [OF n m(2)])
      (use Suc.prems big in \<open>auto simp: word_le_nat_alt word_less_nat_alt u nz\<close>)
  then obtain s' where s': "freerange_loop (p + 4096) pa_end (s\<lparr>mem := m, freelist := p\<rparr>) = Inr s'"
      "kend s' = kend s" "free_list s' (rev (pages_from (p + 4096) n) @ p # xs)"
    unfolding n [symmetric] by auto
  have "freerange_loop p pa_end s = Inr s'"
    using m(1) le s'(1) by (subst freerange_loop.simps) simp
  moreover have "rev (pages_from p (Suc n)) @ xs = rev (pages_from (p + 4096) n) @ p # xs"
    by (simp add: pages_from_Suc)
  ultimately show ?case using s'(2,3) unfolding Suc.hyps(2) [symmetric] by auto
qed

lemma in_pages_from:
  assumes "unat p + 4096 * n \<le> 2 ^ 63"
  shows "x \<in> set (pages_from p n) \<longleftrightarrow> (\<exists>i<n. unat x = unat p + 4096 * i)"
proof -
  have eq: "p + 4096 * of_nat i = x \<longleftrightarrow> unat x = unat p + 4096 * i" if "i < n" for i
  proof -
    have i: "unat p + 4096 * i < 2 ^ 64" using that assms by simp
    have "p + 4096 * of_nat i = of_nat (unat p + 4096 * i)" by simp
    then have "unat (p + 4096 * of_nat i) = unat p + 4096 * i"
      using unat_of_nat_small [of "unat p + 4096 * i", where 'a = 64] i by simp
    then show ?thesis by (metis word_unat_eq_iff)
  qed
  have "x \<in> set (pages_from p n) \<longleftrightarrow> (\<exists>i<n. p + 4096 * of_nat i = x)"
    by (auto simp: pages_from_def)
  with eq show ?thesis by metis
qed

text \<open>The pages from the first page boundary at or after \<^verbatim>\<open>end\<close> up to \<^verbatim>\<open>PHYSTOP\<close>.\<close>

lemma roundup_bounds:
  fixes k :: nat
  assumes "p = (k + 4095) div 4096 * 4096" "k \<le> 4096 * e"
  shows "k \<le> p" "p < k + 4096" "p \<le> 4096 * e" "\<exists>q. p = 4096 * q"
proof -
  show "k \<le> p" "p < k + 4096"
    unfolding assms(1) using div_mult_mod_eq [of "k + 4095" 4096]
      mod_less_divisor [of 4096 "k + 4095"] by linarith+
  have "(k + 4095) div 4096 < Suc e"
    using assms(2) by (intro less_mult_imp_div_less) simp
  then show "p \<le> 4096 * e" unfolding assms(1) by simp
  show "\<exists>q. p = 4096 * q" unfolding assms(1) by (simp add: mult.commute)
qed

lemma pages_between:
  fixes x :: nat
  assumes "p = 4096 * q" "k \<le> p" "p < k + 4096" "q \<le> e"
  shows "(\<exists>i < (4096 * e - p) div 4096. x = p + 4096 * i) \<longleftrightarrow> 4096 dvd x \<and> k \<le> x \<and> x < 4096 * e"
proof -
  have n: "(4096 * e - p) div 4096 = e - q" unfolding assms(1) by (simp add: diff_mult_distrib2 [symmetric])
  show ?thesis
  proof
    assume "\<exists>i < (4096 * e - p) div 4096. x = p + 4096 * i"
    then obtain i where "i < e - q" "x = p + 4096 * i" unfolding n by auto
    then show "4096 dvd x \<and> k \<le> x \<and> x < 4096 * e" using assms by auto
  next
    assume x: "4096 dvd x \<and> k \<le> x \<and> x < 4096 * e"
    then obtain j where j: "x = 4096 * j" by (elim conjE dvdE)
    with x assms have "q \<le> j" "j < e" by auto
    then show "\<exists>i < (4096 * e - p) div 4096. x = p + 4096 * i"
      unfolding n using assms(1) j by (intro exI [of _ "j - q"]) auto
  qed
qed

subsection \<open>Properties\<close>

text \<open>
  C9: after \<^verbatim>\<open>kinit\<close> the free list holds every page-aligned address between \<^verbatim>\<open>end\<close> and
  \<^verbatim>\<open>PHYSTOP\<close> exactly once and nothing else, and no panic occurs.
\<close>

theorem kinit_frees_every_page:
  assumes "freelist s = 0" "Lk_kmem \<notin> set (held s)" "0 < kend s" "kend s \<le> PHYSTOP"
  shows "\<exists>s' xs. kinit s = Inr s' \<and> free_list s' xs \<and> distinct xs \<and>
    (\<forall>pa. pa \<in> set xs \<longleftrightarrow> good_page s pa)"
proof -
  let ?p = "PGROUNDUP (kend s)"
  let ?n = "(unat PHYSTOP - unat ?p) div 4096"
  have phys: "unat PHYSTOP = 4096 * 557056" by simp
  have kend: "0 < unat (kend s)" "unat (kend s) \<le> 4096 * 557056"
    using assms(3,4) by (simp_all add: word_less_nat_alt word_le_nat_alt)
  then have "unat ?p = (unat (kend s) + 4095) div 4096 * 4096" by (intro unat_PGROUNDUP) simp
  from roundup_bounds [OF this kend(2)] obtain q where
    p: "unat (kend s) \<le> unat ?p" "unat ?p < unat (kend s) + 4096" "unat ?p \<le> 4096 * 557056"
       "unat ?p = 4096 * q" by blast
  have "\<exists>s'. freerange_loop ?p PHYSTOP s = Inr s' \<and> kend s' = kend s \<and>
      free_list s' (rev (pages_from ?p ?n) @ [])"
    by (rule freerange_loop_frees)
      (use assms p kend in \<open>auto simp: free_list_def word_le_nat_alt unat_eq_0 [symmetric]\<close>)
  then obtain s' where s': "kinit s = Inr s'" "free_list s' (rev (pages_from ?p ?n))"
    by (auto simp: kinit_def freerange_def)
  have "pa \<in> set (rev (pages_from ?p ?n)) \<longleftrightarrow> good_page s pa" for pa
  proof -
    have "q \<le> 557056" using p by simp
    have "pa \<in> set (pages_from ?p ?n) \<longleftrightarrow> (\<exists>i<?n. unat pa = unat ?p + 4096 * i)"
      using p by (intro in_pages_from) (simp add: phys)
    also have "\<dots> \<longleftrightarrow> 4096 dvd unat pa \<and> unat (kend s) \<le> unat pa \<and> unat pa < 4096 * 557056"
      unfolding phys by (rule pages_between [OF p(4,1,2) \<open>q \<le> 557056\<close>])
    also have "\<dots> \<longleftrightarrow> good_page s pa"
      using kend by (auto simp: good_page_def word_le_nat_alt word_less_nat_alt)
    finally show ?thesis by simp
  qed
  moreover have "distinct (rev (pages_from ?p ?n))" using s'(2) by (simp add: free_list_def)
  ultimately show ?thesis using s' by blast
qed

theorem kinit_frees_every_page_witness:
  "\<exists>s' xs. kinit (kstate0 0x87ffe123 (\<lambda>_ _. 0)) = Inr s' \<and> free_list s' xs \<and> distinct xs \<and>
     0x87fff000 \<in> set xs \<and> 0x87ffe000 \<notin> set xs"
proof -
  let ?s = "kstate0 0x87ffe123 (\<lambda>_ _. 0)"
  have "\<exists>s' xs. kinit ?s = Inr s' \<and> free_list s' xs \<and> distinct xs \<and>
      (\<forall>pa. pa \<in> set xs \<longleftrightarrow> good_page ?s pa)"
    by (rule kinit_frees_every_page) (simp_all add: kstate0_def)
  moreover have "good_page ?s 0x87fff000" "\<not> good_page ?s 0x87ffe000"
    by (simp_all add: good_page_def kstate0_def)
  ultimately show ?thesis by blast
qed

text \<open>
  C10: \<^verbatim>\<open>kalloc\<close> returns 0 exactly when no page is free, and otherwise a page of the free list
  that is on it no more, filled with the byte 5; no other byte of memory changes.
\<close>

theorem kalloc_hands_out_page:
  assumes "free_list s xs" "Lk_kmem \<notin> set (held s)"
  shows "xs = [] \<and> kalloc s = Inr (0, s) \<or>
    (\<exists>x ys s'. xs = x # ys \<and> kalloc s = Inr (x, s') \<and> x \<noteq> 0 \<and> good_page s x \<and> x \<notin> set ys \<and>
       free_list s' ys \<and> (\<forall>i. mem s' i = (if i \<in> page_bytes x then 5 else mem s i)))"
proof (cases xs)
  case Nil
  with assms kalloc_empty show ?thesis by simp
next
  case (Cons x ys)
  with assms obtain f where
    "kalloc s = Inr (x, s\<lparr>mem := fill (mem s) (unat x) 5 PGSIZE, freelist := f\<rparr>)"
    "free_list (s\<lparr>mem := fill (mem s) (unat x) 5 PGSIZE, freelist := f\<rparr>) ys"
    using kalloc_page by blast
  moreover have "x \<noteq> 0" "good_page s x" "x \<notin> set ys"
    using assms(1) Cons by (auto simp: free_list_def)
  ultimately show ?thesis using Cons by (auto simp: fill_def page_bytes_def)
qed

theorem kalloc_hands_out_page_witness:
  "let s = (kstate0 0x80020000 (\<lambda>_ _. 0))\<lparr>freelist := 0x80021000\<rparr> in
   free_list s [0x80021000] \<and> (\<exists>s'. kalloc s = Inr (0x80021000, s') \<and> free_list s' [])"
proof -
  let ?s = "(kstate0 0x80020000 (\<lambda>_ _. 0))\<lparr>freelist := 0x80021000\<rparr>"
  have z: "get64 (\<lambda>_. 0) n = 0" for n by (simp add: getw_def le_word_zeros)
  have fl: "free_list ?s [0x80021000]"
    by (simp add: free_list_def good_page_def kstate0_def z)
  with kalloc_hands_out_page [OF fl] show ?thesis by (auto simp: kstate0_def)
qed

text \<open>
  C11: an allocated page that is given back with \<^verbatim>\<open>kfree\<close> is the page the next \<^verbatim>\<open>kalloc\<close>
  returns, and the free list is then what it was.
\<close>

theorem kfree_kalloc_roundtrip:
  assumes "free_list s xs" "Lk_kmem \<notin> set (held s)" "good_page s p" "p \<notin> set xs"
  shows "\<exists>s1 s2. kfree p s = Inr s1 \<and> free_list s1 (p # xs) \<and> kalloc s1 = Inr (p, s2) \<and>
    free_list s2 xs"
  using kmem.dealloc_alloc [OF assms] kmem.dealloc_page [OF assms] by auto

theorem kfree_kalloc_roundtrip_witness:
  "\<exists>s1 s2. kfree 0x80021000 (kstate0 0x80020000 (\<lambda>_ _. 0)) = Inr s1 \<and>
     free_list s1 [0x80021000] \<and> kalloc s1 = Inr (0x80021000, s2) \<and> free_list s2 []"
  by (rule kfree_kalloc_roundtrip)
    (simp_all add: free_list_def good_page_def kstate0_def)

end
