(* ===== verification/Spinlock.thy ===== *)
theory Spinlock
  imports Kstate
begin

text \<open>
  Spin locks, \<^verbatim>\<open>kernel/spinlock.c\<close>, on the memory that all CPUs share. The operations are given
  twice: as functions of one CPU, and cut into the steps between which other CPUs run. The
  properties are mutual exclusion for every interleaving, that interrupts are off while a CPU
  holds a lock, and that the view of one thread, the list \<open>held\<close> of theory \<open>Kstate\<close> with its
  \<open>acquire\<close> and \<open>release\<close>, is a refinement of the code.
\<close>

subsection \<open>Definitions\<close>

text \<open>A pointer to a \<^verbatim>\<open>struct cpu\<close> is the index of the CPU, or \<open>None\<close> for 0.\<close>

record spinlock =
  lk_locked :: u32
  lk_name :: string
  lk_cpu :: "nat option"

text \<open>
  Of \<^verbatim>\<open>struct cpu\<close>, the fields that the locks use; \<open>c_sie\<close> is the interrupt-enable bit of the
  CPU's status register.
\<close>

record cpu =
  c_noff :: int
  c_intena :: bool
  c_sie :: bool

record machine =
  locks :: "spin \<Rightarrow> spinlock"
  cpus :: "nat \<Rightarrow> cpu"

definition set_lock :: "spin \<Rightarrow> (spinlock \<Rightarrow> spinlock) \<Rightarrow> machine \<Rightarrow> machine" where
  "set_lock lk f m = m\<lparr>locks := (locks m)(lk := f (locks m lk))\<rparr>"

definition set_cpu :: "nat \<Rightarrow> (cpu \<Rightarrow> cpu) \<Rightarrow> machine \<Rightarrow> machine" where
  "set_cpu c f m = m\<lparr>cpus := (cpus m)(c := f (cpus m c))\<rparr>"

definition initlock :: "spin \<Rightarrow> string \<Rightarrow> machine \<Rightarrow> machine" where
  "initlock lk name = set_lock lk (\<lambda>x. x\<lparr>lk_name := name, lk_locked := 0, lk_cpu := None\<rparr>)"

definition intr_get :: "nat \<Rightarrow> machine \<Rightarrow> bool" where
  "intr_get c m = c_sie (cpus m c)"

definition intr_off :: "nat \<Rightarrow> machine \<Rightarrow> machine" where
  "intr_off c = set_cpu c (\<lambda>x. x\<lparr>c_sie := False\<rparr>)"

definition intr_on :: "nat \<Rightarrow> machine \<Rightarrow> machine" where
  "intr_on c = set_cpu c (\<lambda>x. x\<lparr>c_sie := True\<rparr>)"

definition push_off :: "nat \<Rightarrow> machine \<Rightarrow> machine" where
  "push_off c m =
     (let old = intr_get c m;
          m = intr_off c m;
          m = (if c_noff (cpus m c) = 0 then set_cpu c (\<lambda>x. x\<lparr>c_intena := old\<rparr>) m else m) in
      set_cpu c (\<lambda>x. x\<lparr>c_noff := c_noff x + 1\<rparr>) m)"

definition pop_off :: "nat \<Rightarrow> machine \<Rightarrow> machine result" where
  "pop_off c m =
     (if intr_get c m then Inl (Panic ''pop_off - interruptible'')
      else if c_noff (cpus m c) < 1 then Inl (Panic ''pop_off'')
      else
        let m = set_cpu c (\<lambda>x. x\<lparr>c_noff := c_noff x - 1\<rparr>) m in
        Inr (if c_noff (cpus m c) = 0 \<and> c_intena (cpus m c) then intr_on c m else m))"

definition holding :: "nat \<Rightarrow> spin \<Rightarrow> machine \<Rightarrow> bool" where
  "holding c lk m \<longleftrightarrow> lk_locked (locks m lk) \<noteq> 0 \<and> lk_cpu (locks m lk) = Some c"

text \<open>The atomic swaps: \<^verbatim>\<open>__sync_lock_test_and_set(&lk->locked, 1)\<close> and \<^verbatim>\<open>__sync_lock_release\<close>.\<close>

definition test_and_set :: "spin \<Rightarrow> machine \<Rightarrow> u32 \<times> machine" where
  "test_and_set lk m = (lk_locked (locks m lk), set_lock lk (\<lambda>x. x\<lparr>lk_locked := 1\<rparr>) m)"

definition lock_release :: "spin \<Rightarrow> machine \<Rightarrow> machine" where
  "lock_release lk = set_lock lk (\<lambda>x. x\<lparr>lk_locked := 0\<rparr>)"

text \<open>
  On one CPU alone, the loop of \<^verbatim>\<open>acquire\<close> ends at its first swap or never.
\<close>

definition spin_acquire :: "nat \<Rightarrow> spin \<Rightarrow> machine \<Rightarrow> machine result" where
  "spin_acquire c lk m =
     (let m = push_off c m in
      if holding c lk m then Inl (Panic ''acquire'')
      else
        let (old, m) = test_and_set lk m in
        if old \<noteq> 0 then Inl Spinning
        else Inr (set_lock lk (\<lambda>x. x\<lparr>lk_cpu := Some c\<rparr>) m))"

definition spin_release :: "nat \<Rightarrow> spin \<Rightarrow> machine \<Rightarrow> machine result" where
  "spin_release c lk m =
     (if \<not> holding c lk m then Inl (Panic ''release'')
      else
        let m = set_lock lk (\<lambda>x. x\<lparr>lk_cpu := None\<rparr>) m;
            m = lock_release lk m in
        pop_off c m)"

subsection \<open>Interleaving\<close>

text \<open>
  Where a CPU is: outside the two functions, or before the next of the marked points of
  \<^verbatim>\<open>acquire\<close> (the swap, the store of \<^verbatim>\<open>lk->cpu\<close>) or of \<^verbatim>\<open>release\<close> (the swap, \<^verbatim>\<open>pop_off\<close>), or
  in \<^verbatim>\<open>panic\<close>.
\<close>

datatype pc = Outside | Swapping spin | Owning spin | Clearing spin | Popping | Panicked

text \<open>
  \<open>crit c\<close> is the list of the locks whose critical sections CPU \<open>c\<close> is in: it has returned from
  \<^verbatim>\<open>acquire\<close> and not called \<^verbatim>\<open>release\<close>. \<open>extra c\<close> counts its calls of \<^verbatim>\<open>push_off\<close> outside
  \<^verbatim>\<open>acquire\<close> that it has not undone.
\<close>

record conf =
  mach :: machine
  pcs :: "nat \<Rightarrow> pc"
  crit :: "nat \<Rightarrow> spin list"
  extra :: "nat \<Rightarrow> nat"

definition goto :: "nat \<Rightarrow> pc \<Rightarrow> machine \<Rightarrow> conf \<Rightarrow> conf" where
  "goto c p m x = x\<lparr>mach := m, pcs := (pcs x)(c := p)\<rparr>"

inductive cstep :: "conf \<Rightarrow> conf \<Rightarrow> bool" where
  acq_push: "pcs x c = Outside \<Longrightarrow> m = push_off c (mach x) \<Longrightarrow>
    cstep x (goto c (if holding c lk m then Panicked else Swapping lk) m x)"
| acq_swap: "pcs x c = Swapping lk \<Longrightarrow> test_and_set lk (mach x) = (old, m) \<Longrightarrow>
    cstep x (goto c (if old \<noteq> 0 then Swapping lk else Owning lk) m x)"
| acq_own: "pcs x c = Owning lk \<Longrightarrow> m = set_lock lk (\<lambda>y. y\<lparr>lk_cpu := Some c\<rparr>) (mach x) \<Longrightarrow>
    cstep x (goto c Outside m (x\<lparr>crit := (crit x)(c := lk # crit x c)\<rparr>))"
| rel_clear: "pcs x c = Outside \<Longrightarrow> holding c lk (mach x) \<Longrightarrow>
    m = set_lock lk (\<lambda>y. y\<lparr>lk_cpu := None\<rparr>) (mach x) \<Longrightarrow>
    cstep x (goto c (Clearing lk) m (x\<lparr>crit := (crit x)(c := remove1 lk (crit x c))\<rparr>))"
| rel_panic: "pcs x c = Outside \<Longrightarrow> \<not> holding c lk (mach x) \<Longrightarrow>
    cstep x (goto c Panicked (mach x) x)"
| rel_swap: "pcs x c = Clearing lk \<Longrightarrow> cstep x (goto c Popping (lock_release lk (mach x)) x)"
| rel_pop: "pcs x c = Popping \<Longrightarrow> pop_off c (mach x) = Inr m \<Longrightarrow> cstep x (goto c Outside m x)"
| rel_pop_panic: "pcs x c = Popping \<Longrightarrow> pop_off c (mach x) = Inl e \<Longrightarrow>
    cstep x (goto c Panicked (mach x) x)"
| push: "pcs x c = Outside \<Longrightarrow>
    cstep x (goto c Outside (push_off c (mach x)) (x\<lparr>extra := (extra x)(c := extra x c + 1)\<rparr>))"
| pop: "pcs x c = Outside \<Longrightarrow> 0 < extra x c \<Longrightarrow> pop_off c (mach x) = Inr m \<Longrightarrow>
    cstep x (goto c Outside m (x\<lparr>extra := (extra x)(c := extra x c - 1)\<rparr>))"

text \<open>At boot, all locks are free, no CPU has called \<^verbatim>\<open>push_off\<close>, and interrupts may be on or off.\<close>

inductive reachable :: "conf \<Rightarrow> bool" where
  boot: "(\<And>lk. lk_locked (locks m lk) = 0 \<and> lk_cpu (locks m lk) = None) \<Longrightarrow>
    (\<And>c. c_noff (cpus m c) = 0) \<Longrightarrow>
    reachable \<lparr>mach = m, pcs = (\<lambda>_. Outside), crit = (\<lambda>_. []), extra = (\<lambda>_. 0)\<rparr>"
| run: "reachable x \<Longrightarrow> cstep x y \<Longrightarrow> reachable y"

subsection \<open>What the operations change\<close>

lemmas lock_defs = set_lock_def set_cpu_def intr_get_def intr_off_def intr_on_def

lemma push_off_cpu:
  "cpus (push_off c m) = (cpus m)(c := (cpus m c)\<lparr>c_sie := False, c_noff := c_noff (cpus m c) + 1,
      c_intena := (if c_noff (cpus m c) = 0 then c_sie (cpus m c) else c_intena (cpus m c))\<rparr>)"
  "locks (push_off c m) = locks m"
  by (auto simp: push_off_def lock_defs Let_def)

lemma pop_off_Inr:
  assumes "pop_off c m = Inr m'"
  shows "\<not> c_sie (cpus m c)" "1 \<le> c_noff (cpus m c)" "locks m' = locks m"
    "d \<noteq> c \<Longrightarrow> cpus m' d = cpus m d" "c_noff (cpus m' c) = c_noff (cpus m c) - 1"
    "c_sie (cpus m' c) \<longleftrightarrow> c_noff (cpus m c) = 1 \<and> c_intena (cpus m c)"
  using assms by (auto simp: pop_off_def lock_defs Let_def split: if_splits)

lemma pop_off_Inl: "pop_off c m = Inl e \<Longrightarrow> c_sie (cpus m c) \<or> c_noff (cpus m c) < 1"
  by (auto simp: pop_off_def lock_defs Let_def split: if_splits)

subsection \<open>The invariant\<close>

text \<open>
  A CPU owns a lock from its successful swap in \<^verbatim>\<open>acquire\<close> to the swap in \<^verbatim>\<open>release\<close>: the locks of its
  critical sections, and the one that it is about to enter or has just left.
\<close>

fun moving :: "pc \<Rightarrow> spin list" where
  "moving (Owning lk) = [lk]"
| "moving (Clearing lk) = [lk]"
| "moving _ = []"

abbreviation owned :: "conf \<Rightarrow> nat \<Rightarrow> spin set" where
  "owned x c \<equiv> set (moving (pcs x c) @ crit x c)"

definition one_owner :: "(spin \<Rightarrow> bool) \<Rightarrow> (nat \<Rightarrow> spin set) \<Rightarrow> bool" where
  "one_owner taken own \<longleftrightarrow>
     (\<forall>lk. taken lk \<longleftrightarrow> (\<exists>c. lk \<in> own c)) \<and> (\<forall>c d lk. lk \<in> own c \<longrightarrow> lk \<in> own d \<longrightarrow> c = d)"

lemma one_owner_take:
  "one_owner taken own \<Longrightarrow> \<not> taken lk \<Longrightarrow> one_owner (taken(lk := True)) (own(c := insert lk (own c)))"
  unfolding one_owner_def by (auto split: if_splits)

lemma one_owner_drop:
  "one_owner taken own \<Longrightarrow> lk \<in> own c \<Longrightarrow> one_owner (taken(lk := False)) (own(c := own c - {lk}))"
  unfolding one_owner_def by (auto split: if_splits)

definition lock_inv :: "conf \<Rightarrow> bool" where
  "lock_inv x \<longleftrightarrow>
     one_owner (\<lambda>lk. lk_locked (locks (mach x) lk) \<noteq> 0) (owned x) \<and>
     (\<forall>c lk. lk_cpu (locks (mach x) lk) = Some c \<longleftrightarrow> lk \<in> set (crit x c)) \<and>
     (\<forall>c. distinct (moving (pcs x c) @ crit x c))"

definition depth_inv :: "conf \<Rightarrow> bool" where
  "depth_inv x \<longleftrightarrow> (\<forall>c. pcs x c \<noteq> Panicked \<longrightarrow>
     c_noff (cpus (mach x) c) = int (length (crit x c) + extra x c + (if pcs x c = Outside then 0 else 1)) \<and>
     (0 < c_noff (cpus (mach x) c) \<longrightarrow> \<not> c_sie (cpus (mach x) c)))"

lemma lock_invD:
  assumes "lock_inv x"
  shows "one_owner (\<lambda>lk. lk_locked (locks (mach x) lk) \<noteq> 0) (owned x)"
    "lk_cpu (locks (mach x) lk) = Some c \<longleftrightarrow> lk \<in> set (crit x c)"
    "distinct (moving (pcs x c) @ crit x c)"
  using assms by (auto simp: lock_inv_def)

lemma lock_inv_holding: "lock_inv x \<Longrightarrow> holding c lk (mach x) \<longleftrightarrow> lk \<in> set (crit x c)"
  by (auto simp: lock_inv_def one_owner_def holding_def)

text \<open>Steps that neither take nor give back a lock.\<close>

lemma lock_inv_same:
  assumes "lock_inv x" "locks m = locks (mach x)" "moving p = moving (pcs x c)"
  shows "lock_inv (goto c p m (x\<lparr>extra := e\<rparr>))" "lock_inv (goto c p m x)"
proof -
  have "moving (((pcs x)(c := p)) d) = moving (pcs x d)" for d using assms(3) by simp
  then show "lock_inv (goto c p m (x\<lparr>extra := e\<rparr>))" "lock_inv (goto c p m x)"
    using assms(1,2) unfolding lock_inv_def goto_def by simp_all
qed

lemma lock_inv_own:
  assumes i: "lock_inv x" and p: "pcs x c = Owning lk"
  shows "lock_inv (goto c Outside (set_lock lk (\<lambda>y. y\<lparr>lk_cpu := Some c\<rparr>) (mach x))
    (x\<lparr>crit := (crit x)(c := lk # crit x c)\<rparr>))" (is "lock_inv ?y")
proof -
  have "owned ?y = owned x" using p by (auto simp: fun_eq_iff goto_def)
  moreover have "lk_locked (locks (mach ?y) l) = lk_locked (locks (mach x) l)" for l
    by (simp add: goto_def set_lock_def)
  moreover have "lk \<in> set (crit x d) \<Longrightarrow> False" for d
    using i p unfolding lock_inv_def one_owner_def
    by (metis UnCI distinct.simps(2) distinct_append list.set_intros(1) moving.simps(1) append_Cons append_Nil set_append)
  ultimately show ?thesis
    using i p by (auto simp: lock_inv_def goto_def set_lock_def)
qed

lemma lock_inv_swap:
  assumes i: "lock_inv x" and p: "pcs x c = Swapping lk" and s: "test_and_set lk (mach x) = (old, m)"
  shows "lock_inv (goto c (if old \<noteq> 0 then Swapping lk else Owning lk) m x)" (is "lock_inv ?y")
proof (cases "old = 0")
  case True
  with s have free: "lk_locked (locks (mach x) lk) = 0" by (simp add: test_and_set_def)
  let ?taken = "\<lambda>x l. lk_locked (locks (mach x) l) \<noteq> 0"
  have "owned ?y = (owned x)(c := insert lk (owned x c))" using True p by (auto simp: fun_eq_iff goto_def)
  moreover have "?taken ?y = (?taken x)(lk := True)"
    using s by (auto simp: fun_eq_iff goto_def test_and_set_def set_lock_def)
  ultimately have "one_owner (?taken ?y) (owned ?y)"
    using one_owner_take [of "?taken x" "owned x" lk c] i free by (simp add: lock_inv_def)
  moreover have "lk \<notin> set (crit x c)" using i free by (auto simp: lock_inv_def one_owner_def)
  moreover have "lk_cpu (locks (mach ?y) l) = lk_cpu (locks (mach x) l)" for l
    using s by (auto simp: goto_def test_and_set_def set_lock_def)
  moreover have "crit ?y = crit x" "pcs ?y = (pcs x)(c := Owning lk)" using True by (simp_all add: goto_def)
  ultimately show ?thesis
    using lock_invD(2,3) [OF i] p unfolding lock_inv_def by auto
next
  case False
  with s have "lk_locked (locks (mach x) lk) \<noteq> 0" by (simp add: test_and_set_def)
  then have "lk_locked (locks m l) \<noteq> 0 \<longleftrightarrow> lk_locked (locks (mach x) l) \<noteq> 0" for l
    using s by (cases "l = lk") (auto simp: test_and_set_def set_lock_def)
  moreover have "moving (((pcs x)(c := Swapping lk)) d) = moving (pcs x d)" for d using p by simp
  moreover have "lk_cpu (locks m l) = lk_cpu (locks (mach x) l)" for l
    using s by (auto simp: test_and_set_def set_lock_def)
  ultimately show ?thesis using i False unfolding lock_inv_def goto_def by simp
qed

lemma lock_inv_clear:
  assumes i: "lock_inv x" and p: "pcs x c = Outside" and h: "holding c lk (mach x)"
  shows "lock_inv (goto c (Clearing lk) (set_lock lk (\<lambda>y. y\<lparr>lk_cpu := None\<rparr>) (mach x))
    (x\<lparr>crit := (crit x)(c := remove1 lk (crit x c))\<rparr>))" (is "lock_inv ?y")
proof -
  have c: "lk \<in> set (crit x c)" "distinct (crit x c)"
    using i h by (auto simp: lock_inv_holding lock_inv_def)
  then have "owned ?y = owned x" using p by (auto simp: fun_eq_iff goto_def)
  moreover have "lk_locked (locks (mach ?y) l) = lk_locked (locks (mach x) l)" for l
    by (simp add: goto_def set_lock_def)
  ultimately have "one_owner (\<lambda>l. lk_locked (locks (mach ?y) l) \<noteq> 0) (owned ?y)"
    using lock_invD(1) [OF i] by simp
  moreover have "lk \<in> set (crit x d) \<Longrightarrow> d = c" for d
    using lock_invD(2) [OF i, of lk d] lock_invD(2) [OF i, of lk c] c(1) by simp
  then have "lk_cpu (locks (mach ?y) l) = Some d \<longleftrightarrow> l \<in> set (crit ?y d)" for l d
    using lock_invD(2) [OF i, of l d] c(2) by (auto simp: goto_def set_lock_def)
  moreover have "distinct (moving (pcs ?y d) @ crit ?y d)" for d
    using lock_invD(3) [OF i, of d] c by (simp add: goto_def)
  ultimately show ?thesis unfolding lock_inv_def by simp
qed

lemma lock_inv_release:
  assumes i: "lock_inv x" and p: "pcs x c = Clearing lk"
  shows "lock_inv (goto c Popping (lock_release lk (mach x)) x)" (is "lock_inv ?y")
proof -
  let ?taken = "\<lambda>x l. lk_locked (locks (mach x) l) \<noteq> 0"
  have d: "lk \<notin> set (crit x c)" using i p unfolding lock_inv_def by (auto dest!: spec [of _ c])
  then have "owned ?y = (owned x)(c := owned x c - {lk})" using p by (auto simp: fun_eq_iff goto_def)
  moreover have "?taken ?y = (?taken x)(lk := False)"
    by (auto simp: fun_eq_iff goto_def lock_release_def set_lock_def)
  ultimately have "one_owner (?taken ?y) (owned ?y)"
    using one_owner_drop [of "?taken x" "owned x" lk c] i p by (simp add: lock_inv_def)
  moreover have "lk_cpu (locks (mach ?y) l) = Some d \<longleftrightarrow> l \<in> set (crit ?y d)" for l d
    using lock_invD(2) [OF i, of l d] by (auto simp: goto_def lock_release_def set_lock_def)
  moreover have "distinct (moving (pcs ?y d) @ crit ?y d)" for d
    using lock_invD(3) [OF i, of d] p by (auto simp: goto_def)
  ultimately show ?thesis unfolding lock_inv_def by simp
qed

lemma cstep_lock_inv:
  assumes "cstep x y" "lock_inv x"
  shows "lock_inv y"
  using assms(1)
proof cases
  case (acq_push c m lk)
  with assms(2) show ?thesis by (auto simp: push_off_cpu intro!: lock_inv_same)
next
  case (acq_swap c lk old m)
  with lock_inv_swap [OF assms(2)] show ?thesis by simp
next
  case (acq_own c lk m)
  with lock_inv_own [OF assms(2)] show ?thesis by simp
next
  case (rel_clear c lk m)
  with lock_inv_clear [OF assms(2)] show ?thesis by simp
next
  case (rel_swap c lk)
  with lock_inv_release [OF assms(2)] show ?thesis by simp
next
  case (rel_pop c m)
  with assms(2) show ?thesis by (auto simp: pop_off_Inr(3) intro!: lock_inv_same)
next
  case (push c)
  with assms(2) show ?thesis by (auto simp: push_off_cpu intro!: lock_inv_same(1))
next
  case (pop c m)
  with assms(2) show ?thesis by (auto simp: pop_off_Inr(3) intro!: lock_inv_same(1))
qed (use assms(2) in \<open>auto intro!: lock_inv_same\<close>)

lemma cstep_depth_inv:
  assumes "cstep x y" "depth_inv x" "lock_inv x"
  shows "depth_inv y"
  using assms(1)
proof cases
  case (acq_push c m lk)
  with assms(2) show ?thesis by (auto simp: depth_inv_def goto_def push_off_cpu)
next
  case (acq_swap c lk old m)
  with assms(2) show ?thesis by (auto simp: depth_inv_def goto_def test_and_set_def set_lock_def)
next
  case (acq_own c lk m)
  with assms(2) show ?thesis by (auto simp: depth_inv_def goto_def set_lock_def)
next
  case (rel_clear c lk m)
  with assms(2,3) have "lk \<in> set (crit x c)" by (simp add: lock_inv_holding)
  then have "length (crit x c) = Suc (length (remove1 lk (crit x c)))"
    by (simp add: length_remove1) (metis Suc_pred length_pos_if_in_set)
  with rel_clear assms(2) show ?thesis by (auto simp: depth_inv_def goto_def set_lock_def)
next
  case (rel_swap c lk)
  with assms(2) show ?thesis by (auto simp: depth_inv_def goto_def lock_release_def set_lock_def)
next
  case (rel_pop c m)
  with assms(2) pop_off_Inr [OF rel_pop(3)] show ?thesis by (auto simp: depth_inv_def goto_def)
next
  case (push c)
  with assms(2) show ?thesis by (auto simp: depth_inv_def goto_def push_off_cpu)
next
  case (pop c m)
  with assms(2) pop_off_Inr [OF pop(4)] show ?thesis by (auto simp: depth_inv_def goto_def)
qed (use assms(2) in \<open>auto simp: depth_inv_def goto_def\<close>)

lemma reachable_inv: "reachable x \<Longrightarrow> lock_inv x \<and> depth_inv x"
proof (induction rule: reachable.induct)
  case (boot m)
  then show ?case by (simp add: lock_inv_def one_owner_def depth_inv_def)
next
  case (run x y)
  then show ?case using cstep_lock_inv cstep_depth_inv by blast
qed

subsection \<open>The view of one thread\<close>

text \<open>
  What a provider of locks promises to the thread that runs on a CPU: taking and giving back locks
  moves the list of locks that the thread holds the way \<open>acquire\<close> and \<open>release\<close> do.
\<close>

definition take_lock :: "spin \<Rightarrow> spin list \<Rightarrow> spin list result" where
  "take_lock lk hs = (if lk \<in> set hs then Inl (Panic ''acquire'') else Inr (lk # hs))"

definition drop_lock :: "spin \<Rightarrow> spin list \<Rightarrow> spin list result" where
  "drop_lock lk hs = (if lk \<notin> set hs then Inl (Panic ''release'') else Inr (removeAll lk hs))"

lemma acquire_take_lock: "acquire lk s = rbind (take_lock lk (held s)) (\<lambda>hs. Inr (s\<lparr>held := hs\<rparr>))"
  by (simp add: acquire_def take_lock_def)

lemma release_drop_lock: "release lk s = rbind (drop_lock lk (held s)) (\<lambda>hs. Inr (s\<lparr>held := hs\<rparr>))"
  by (simp add: release_def drop_lock_def)

text \<open>The detailed result \<open>r\<close> has the failure of the abstract one, or a state related to its state.\<close>

fun refined :: "('m \<Rightarrow> 'a \<Rightarrow> bool) \<Rightarrow> 'm result \<Rightarrow> 'a result \<Rightarrow> bool" where
  "refined R r (Inl e) \<longleftrightarrow> r = Inl e"
| "refined R r (Inr a) \<longleftrightarrow> (\<exists>m. r = Inr m \<and> R m a)"

datatype lock_op = Take spin | Drop spin

fun lock_call :: "(spin \<Rightarrow> 'm \<Rightarrow> 'm result) \<Rightarrow> (spin \<Rightarrow> 'm \<Rightarrow> 'm result) \<Rightarrow> lock_op \<Rightarrow> 'm \<Rightarrow> 'm result" where
  "lock_call acq rel (Take lk) m = acq lk m"
| "lock_call acq rel (Drop lk) m = rel lk m"

locale lock_provider =
  fixes view :: "'m \<Rightarrow> spin list \<Rightarrow> bool"
    and acq rel :: "spin \<Rightarrow> 'm \<Rightarrow> 'm result"
    and busy :: "spin \<Rightarrow> 'm \<Rightarrow> bool"
  assumes acq: "view m hs \<Longrightarrow> \<not> busy lk m \<Longrightarrow>
      refined view (acq lk m) (take_lock lk hs)"
    and acq_busy: "view m hs \<Longrightarrow> busy lk m \<Longrightarrow> acq lk m = Inl Spinning"
    and acq_keeps: "acq lk m = Inr m' \<Longrightarrow> busy lk' m' = busy lk' m"
    and rel: "view m hs \<Longrightarrow> refined view (rel lk m) (drop_lock lk hs)"
    and rel_keeps: "rel lk m = Inr m' \<Longrightarrow> busy lk' m' = busy lk' m"
begin

text \<open>A run of operations on locks that no other CPU holds does what it does on the list.\<close>

lemma run_refines:
  assumes "view m hs" "\<forall>lk. Take lk \<in> set ops \<longrightarrow> \<not> busy lk m"
  shows "refined view (rfold (lock_call acq rel) ops m) (rfold (lock_call take_lock drop_lock) ops hs)"
  using assms
proof (induction ops arbitrary: m hs)
  case (Cons a ops)
  have "refined view (lock_call acq rel a m) (lock_call take_lock drop_lock a hs)"
    using acq [OF Cons.prems(1)] rel [OF Cons.prems(1)] Cons.prems(2) by (cases a) auto
  moreover have "busy lk m' = busy lk m" if "lock_call acq rel a m = Inr m'" for m' lk
    using that acq_keeps rel_keeps by (cases a) auto
  ultimately show ?case
    using Cons.prems(2) Cons.IH by (cases "lock_call take_lock drop_lock a hs") fastforce+
qed simp

end

text \<open>
  CPU \<open>c\<close> holds the locks \<open>hs\<close>: its depth of \<^verbatim>\<open>push_off\<close> is their number, and its interrupts are
  off if there are any.
\<close>

definition cpu_view :: "nat \<Rightarrow> machine \<Rightarrow> spin list \<Rightarrow> bool" where
  "cpu_view c m hs \<longleftrightarrow> distinct hs \<and> (\<forall>lk. holding c lk m \<longleftrightarrow> lk \<in> set hs) \<and>
     (\<forall>lk. lk_cpu (locks m lk) = Some c \<longrightarrow> lk_locked (locks m lk) \<noteq> 0) \<and>
     c_noff (cpus m c) = int (length hs) \<and> (hs \<noteq> [] \<longrightarrow> \<not> c_sie (cpus m c))"

definition other_cpu :: "nat \<Rightarrow> spin \<Rightarrow> machine \<Rightarrow> bool" where
  "other_cpu c lk m \<longleftrightarrow> lk_locked (locks m lk) \<noteq> 0 \<and> lk_cpu (locks m lk) \<noteq> Some c"

lemma spin_acquire_view:
  assumes v: "cpu_view c m hs" and b: "\<not> other_cpu c lk m"
  shows "refined (cpu_view c) (spin_acquire c lk m) (take_lock lk hs)"
proof (cases "lk \<in> set hs")
  case True
  then have "holding c lk (push_off c m)" using v by (simp add: cpu_view_def holding_def push_off_cpu)
  with True show ?thesis by (simp add: take_lock_def spin_acquire_def)
next
  case False
  then have "\<not> holding c lk m" using v by (simp add: cpu_view_def)
  with b have "lk_locked (locks m lk) = 0" by (auto simp: holding_def other_cpu_def)
  with False v show ?thesis
    by (auto simp: take_lock_def spin_acquire_def holding_def push_off_cpu test_and_set_def set_lock_def cpu_view_def)
qed

lemma spin_release_view:
  assumes v: "cpu_view c m hs"
  shows "refined (cpu_view c) (spin_release c lk m) (drop_lock lk hs)"
proof (cases "lk \<in> set hs")
  case False
  then have "\<not> holding c lk m" using v by (simp add: cpu_view_def)
  with False show ?thesis by (simp add: drop_lock_def spin_release_def)
next
  case True
  then have h: "holding c lk m" "\<not> c_sie (cpus m c)" "c_noff (cpus m c) = int (length hs)" "distinct hs"
    using v by (auto simp: cpu_view_def)
  have l: "length hs = Suc (length (removeAll lk hs))"
    using True h(4) by (simp add: distinct_remove1_removeAll [symmetric] length_remove1)
      (metis Suc_pred length_pos_if_in_set)
  let ?m = "lock_release lk (set_lock lk (\<lambda>x. x\<lparr>lk_cpu := None\<rparr>) m)"
  have "cpus ?m = cpus m" by (simp add: lock_release_def set_lock_def)
  then obtain m' where m': "pop_off c ?m = Inr m'" using h(2,3) l by (simp add: pop_off_def lock_defs Let_def)
  have "spin_release c lk m = Inr m'" using h(1) m' by (simp add: spin_release_def)
  moreover have "cpu_view c m' (removeAll lk hs)"
    using v pop_off_Inr [OF m'] l h
    by (auto simp: cpu_view_def holding_def lock_release_def set_lock_def distinct_removeAll)
  ultimately show ?thesis using True by (simp add: drop_lock_def)
qed

lemma spin_acquire_busy: "cpu_view c m hs \<Longrightarrow> other_cpu c lk m \<Longrightarrow> spin_acquire c lk m = Inl Spinning"
  by (auto simp: spin_acquire_def other_cpu_def holding_def push_off_cpu test_and_set_def)

interpretation cpu: lock_provider "cpu_view c" "spin_acquire c" "spin_release c" "other_cpu c"
proof
  show "spin_acquire c lk m = Inr m' \<Longrightarrow> other_cpu c lk' m' = other_cpu c lk' m" for lk lk' m m'
    by (auto simp: spin_acquire_def Let_def other_cpu_def test_and_set_def push_off_cpu set_lock_def split: if_splits)
  show "spin_release c lk m = Inr m' \<Longrightarrow> other_cpu c lk' m' = other_cpu c lk' m" for lk lk' m m'
    by (auto simp: spin_release_def other_cpu_def lock_release_def set_lock_def holding_def dest: pop_off_Inr(3) split: if_splits)
qed (use spin_acquire_view spin_release_view spin_acquire_busy in auto)

subsection \<open>An example run\<close>

text \<open>CPU 0 takes the lock of the page allocator at boot.\<close>

definition boot_machine :: machine where
  "boot_machine = \<lparr>locks = (\<lambda>_. \<lparr>lk_locked = 0, lk_name = ''lock'', lk_cpu = None\<rparr>),
     cpus = (\<lambda>_. \<lparr>c_noff = 0, c_intena = False, c_sie = True\<rparr>)\<rparr>"

definition boot_conf :: conf where
  "boot_conf = \<lparr>mach = boot_machine, pcs = (\<lambda>_. Outside), crit = (\<lambda>_. []), extra = (\<lambda>_. 0)\<rparr>"

definition conf1 :: conf where
  "conf1 = goto 0 (Swapping Lk_kmem) (push_off 0 boot_machine) boot_conf"

definition conf2 :: conf where
  "conf2 = goto 0 (Owning Lk_kmem) (snd (test_and_set Lk_kmem (mach conf1))) conf1"

definition conf3 :: conf where
  "conf3 = goto 0 Outside (set_lock Lk_kmem (\<lambda>y. y\<lparr>lk_cpu := Some 0\<rparr>) (mach conf2))
     (conf2\<lparr>crit := (crit conf2)(0 := Lk_kmem # crit conf2 0)\<rparr>)"

lemmas conf_defs = conf1_def conf2_def conf3_def boot_conf_def boot_machine_def goto_def

lemma conf3_reachable: "reachable conf3" "crit conf3 0 = [Lk_kmem]" "pcs conf3 0 = Outside"
proof -
  have "reachable boot_conf" unfolding boot_conf_def by (rule boot) (simp_all add: boot_machine_def)
  moreover have "cstep boot_conf conf1"
    using acq_push [of boot_conf 0 "push_off 0 boot_machine" Lk_kmem]
    by (simp add: conf_defs holding_def push_off_cpu)
  moreover have "cstep conf1 conf2"
    using acq_swap [of conf1 0 Lk_kmem 0 "snd (test_and_set Lk_kmem (mach conf1))"]
    by (simp add: conf2_def) (simp add: conf_defs test_and_set_def push_off_cpu)
  moreover have "cstep conf2 conf3"
    unfolding conf3_def by (rule acq_own) (simp_all add: conf2_def goto_def)
  ultimately show "reachable conf3" by (blast intro: run)
  show "crit conf3 0 = [Lk_kmem]" "pcs conf3 0 = Outside" by (simp_all add: conf_defs)
qed

lemma boot_view: "cpu_view 0 boot_machine []"
  by (simp add: cpu_view_def holding_def boot_machine_def)

subsection \<open>Properties\<close>

text \<open>
  C13: mutual exclusion. However the CPUs' steps interleave, two CPUs are never in the critical
  section of the same lock.
\<close>

theorem spinlock_mutual_exclusion:
  assumes "reachable x" "lk \<in> set (crit x c)" "lk \<in> set (crit x d)"
  shows "c = d"
  using reachable_inv [OF assms(1)] assms(2,3) by (auto simp: lock_inv_def one_owner_def)

theorem spinlock_mutual_exclusion_witness: "{c. Lk_kmem \<in> set (crit conf3 c)} = {0}"
proof -
  have "c = 0" if "Lk_kmem \<in> set (crit conf3 c)" for c
    using spinlock_mutual_exclusion [OF conf3_reachable(1) that, of 0] by (simp add: conf3_reachable)
  then show ?thesis by (auto simp: conf3_reachable)
qed

text \<open>
  C15: while a CPU is in a critical section or inside \<^verbatim>\<open>acquire\<close> or \<^verbatim>\<open>release\<close>, its interrupts are off, so
  that no handler on that CPU can wait for a lock that the CPU holds; and the \<^verbatim>\<open>pop_off\<close> at the end
  of \<^verbatim>\<open>release\<close> does not panic.
\<close>

theorem critical_section_no_interrupts:
  assumes "reachable x" "pcs x c \<noteq> Panicked" "crit x c \<noteq> [] \<or> pcs x c \<noteq> Outside"
  shows "\<not> intr_get c (mach x) \<and> (pcs x c = Popping \<longrightarrow> (\<exists>m. pop_off c (mach x) = Inr m))"
proof -
  have d: "depth_inv x" using reachable_inv [OF assms(1)] by simp
  have "0 < c_noff (cpus (mach x) c)" using d assms(2,3) by (cases "crit x c") (auto simp: depth_inv_def)
  then show ?thesis using d assms(2) by (simp add: depth_inv_def intr_get_def pop_off_def Let_def)
qed

theorem critical_section_no_interrupts_witness: "crit conf3 0 = [Lk_kmem] \<and> \<not> intr_get 0 (mach conf3)"
  using critical_section_no_interrupts [OF conf3_reachable(1), of 0] by (simp add: conf3_reachable)

text \<open>
  C14: on locks that no other CPU holds, any sequence of calls of the code's \<^verbatim>\<open>acquire\<close> and
  \<^verbatim>\<open>release\<close> panics or succeeds as the thread's view of it does, and leaves the CPU with the depth
  of \<^verbatim>\<open>push_off\<close>, the interrupts and the answers of \<^verbatim>\<open>holding\<close> that the view says.
\<close>

theorem spinlock_refines_view:
  assumes "cpu_view c m hs" "\<forall>lk. Take lk \<in> set ops \<longrightarrow> \<not> other_cpu c lk m"
  shows "refined (cpu_view c) (rfold (lock_call (spin_acquire c) (spin_release c)) ops m)
    (rfold (lock_call take_lock drop_lock) ops hs)"
  using assms by (rule cpu.run_refines)

theorem spinlock_refines_view_witness:
  "\<exists>m. rfold (lock_call (spin_acquire 0) (spin_release 0)) [Take Lk_kmem, Take Lk_log, Drop Lk_kmem] boot_machine =
     Inr m \<and> cpu_view 0 m [Lk_log]"
  using spinlock_refines_view [OF boot_view, of "[Take Lk_kmem, Take Lk_log, Drop Lk_kmem]"]
  by (simp add: other_cpu_def boot_machine_def take_lock_def drop_lock_def)

end
