(* ===== verification/Sched.thy ===== *)
theory Sched
  imports Riscv
begin

text \<open>
  \<^verbatim>\<open>wakeup\<close> of \<^verbatim>\<open>kernel/proc.c\<close> and the sleep locks of \<^verbatim>\<open>kernel/sleeplock.c\<close> that are
  built on it. A sleep lock is a field of a table entry; its operations take the entry's
  accessor and updater, and \<open>buf\<close> and \<open>inode\<close> instances are named below.
\<close>

subsection \<open>Definitions\<close>

definition set_proc :: "nat \<Rightarrow> (proc \<Rightarrow> proc) \<Rightarrow> kstate \<Rightarrow> kstate" where
  "set_proc p f s = s\<lparr>procs := (procs s)(p := f (procs s p))\<rparr>"

text \<open>\<^verbatim>\<open>for(p = proc; p < &proc[NPROC]; p++) if(p != myproc()) { ... }\<close>\<close>

function wakeup_loop :: "chan \<Rightarrow> nat \<Rightarrow> kstate \<Rightarrow> kstate result" where
  "wakeup_loop ch p s =
     (if p < NPROC then
        (if p \<noteq> cur s then
           rbind (acquire (Lk_proc p) s) (\<lambda>s.
           let s = (if p_state (procs s p) = SLEEPING \<and> p_chan (procs s p) = Some ch
                    then set_proc p (\<lambda>x. x\<lparr>p_state := RUNNABLE\<rparr>) s else s) in
           rbind (release (Lk_proc p) s) (\<lambda>s.
           wakeup_loop ch (Suc p) s))
         else wakeup_loop ch (Suc p) s)
      else Inr s)"
  by pat_completeness auto
termination
  by (relation "measure (\<lambda>(ch, p, s). NPROC - p)") auto

declare wakeup_loop.simps [simp del]

definition wakeup :: "chan \<Rightarrow> kstate \<Rightarrow> kstate result" where
  "wakeup ch s = wakeup_loop ch 0 s"

definition initsleeplock :: "sleeplock \<Rightarrow> sleeplock" where
  "initsleeplock lk = lk\<lparr>sl_locked := False, sl_pid := 0\<rparr>"

text \<open>
  \<^verbatim>\<open>while(lk->locked) sleep(lk, &lk->lk);\<close> leaves the thread asleep on the lock when it is
  taken; the result then names the channel.
\<close>

definition acquiresleep ::
  "spin \<Rightarrow> chan \<Rightarrow> (kstate \<Rightarrow> sleeplock) \<Rightarrow> ((sleeplock \<Rightarrow> sleeplock) \<Rightarrow> kstate \<Rightarrow> kstate) \<Rightarrow>
     kstate \<Rightarrow> kstate result" where
  "acquiresleep lk ch get upd s =
     rbind (acquire lk s) (\<lambda>s.
     if sl_locked (get s) then Inl (Sleeping ch)
     else release lk (upd (\<lambda>_. \<lparr>sl_locked = True, sl_pid = p_pid (myproc s)\<rparr>) s))"

definition releasesleep ::
  "spin \<Rightarrow> chan \<Rightarrow> ((sleeplock \<Rightarrow> sleeplock) \<Rightarrow> kstate \<Rightarrow> kstate) \<Rightarrow> kstate \<Rightarrow> kstate result" where
  "releasesleep lk ch upd s =
     rbind (acquire lk s) (\<lambda>s.
     rbind (wakeup ch (upd (\<lambda>_. \<lparr>sl_locked = False, sl_pid = 0\<rparr>) s)) (\<lambda>s.
     release lk s))"

definition holdingsleep :: "spin \<Rightarrow> (kstate \<Rightarrow> sleeplock) \<Rightarrow> kstate \<Rightarrow> (bool \<times> kstate) result" where
  "holdingsleep lk get s =
     rbind (acquire lk s) (\<lambda>s.
     let r = (sl_locked (get s) \<and> sl_pid (get s) = p_pid (myproc s)) in
     rbind (release lk s) (\<lambda>s. Inr (r, s)))"

definition set_buf :: "nat \<Rightarrow> (buf \<Rightarrow> buf) \<Rightarrow> kstate \<Rightarrow> kstate" where
  "set_buf b f s = s\<lparr>bufs := (bufs s)(b := f (bufs s b))\<rparr>"

definition set_inode :: "nat \<Rightarrow> (inode \<Rightarrow> inode) \<Rightarrow> kstate \<Rightarrow> kstate" where
  "set_inode i f s = s\<lparr>itable := (itable s)(i := f (itable s i))\<rparr>"

definition acquiresleep_buf :: "nat \<Rightarrow> kstate \<Rightarrow> kstate result" where
  "acquiresleep_buf b =
     acquiresleep (Lk_buf b) (Chan_buf b) (\<lambda>s. b_lock (bufs s b))
       (\<lambda>f. set_buf b (\<lambda>x. x\<lparr>b_lock := f (b_lock x)\<rparr>))"

definition releasesleep_buf :: "nat \<Rightarrow> kstate \<Rightarrow> kstate result" where
  "releasesleep_buf b =
     releasesleep (Lk_buf b) (Chan_buf b) (\<lambda>f. set_buf b (\<lambda>x. x\<lparr>b_lock := f (b_lock x)\<rparr>))"

definition holdingsleep_buf :: "nat \<Rightarrow> kstate \<Rightarrow> (bool \<times> kstate) result" where
  "holdingsleep_buf b = holdingsleep (Lk_buf b) (\<lambda>s. b_lock (bufs s b))"

definition acquiresleep_inode :: "nat \<Rightarrow> kstate \<Rightarrow> kstate result" where
  "acquiresleep_inode i =
     acquiresleep (Lk_inode i) (Chan_inode i) (\<lambda>s. i_lock (itable s i))
       (\<lambda>f. set_inode i (\<lambda>x. x\<lparr>i_lock := f (i_lock x)\<rparr>))"

definition releasesleep_inode :: "nat \<Rightarrow> kstate \<Rightarrow> kstate result" where
  "releasesleep_inode i =
     releasesleep (Lk_inode i) (Chan_inode i)
       (\<lambda>f. set_inode i (\<lambda>x. x\<lparr>i_lock := f (i_lock x)\<rparr>))"

definition holdingsleep_inode :: "nat \<Rightarrow> kstate \<Rightarrow> (bool \<times> kstate) result" where
  "holdingsleep_inode i = holdingsleep (Lk_inode i) (\<lambda>s. i_lock (itable s i))"

subsection \<open>Waking sleepers\<close>

text \<open>The processes after all sleepers on \<open>ch\<close> from index \<open>k\<close> on, but the current one, woke up.\<close>

definition woken :: "chan \<Rightarrow> nat \<Rightarrow> nat \<Rightarrow> (nat \<Rightarrow> proc) \<Rightarrow> nat \<Rightarrow> proc" where
  "woken ch k me ps p =
     (if k \<le> p \<and> p < NPROC \<and> p \<noteq> me \<and> p_state (ps p) = SLEEPING \<and> p_chan (ps p) = Some ch
      then (ps p)\<lparr>p_state := RUNNABLE\<rparr> else ps p)"

definition no_plocks :: "kstate \<Rightarrow> bool" where
  "no_plocks s \<longleftrightarrow> (\<forall>p. Lk_proc p \<notin> set (held s))"

lemma wakeup_loop_eq:
  "no_plocks s \<Longrightarrow> wakeup_loop ch k s = Inr (s\<lparr>procs := woken ch k (cur s) (procs s)\<rparr>)"
proof (induction "NPROC - k" arbitrary: k s)
  case 0
  then have "woken ch k (cur s) (procs s) = procs s" by (auto simp: woken_def fun_eq_iff)
  with 0 show ?case by (subst wakeup_loop.simps) simp
next
  case (Suc n)
  then have k: "k < NPROC" by simp
  show ?case
  proof (cases "k = cur s")
    case True
    have "wakeup_loop ch k s = wakeup_loop ch (Suc k) s"
      using k True by (subst wakeup_loop.simps) simp
    moreover have "woken ch (Suc k) (cur s) (procs s) = woken ch k (cur s) (procs s)"
      using True by (auto simp: woken_def fun_eq_iff)
    ultimately show ?thesis using Suc by simp
  next
    case False
    define s1 where "s1 = (if p_state (procs s k) = SLEEPING \<and> p_chan (procs s k) = Some ch
        then set_proc k (\<lambda>x. x\<lparr>p_state := RUNNABLE\<rparr>) s else s)"
    have h: "Lk_proc k \<notin> set (held s)" using Suc.prems by (simp add: no_plocks_def)
    have s1: "held s1 = held s" "cur s1 = cur s" "no_plocks s1"
      using Suc.prems by (auto simp: s1_def set_proc_def no_plocks_def)
    have "wakeup_loop ch k s = wakeup_loop ch (Suc k) s1"
      using k False h by (subst wakeup_loop.simps) (auto simp: s1_def set_proc_def)
    also have "\<dots> = Inr (s1\<lparr>procs := woken ch (Suc k) (cur s1) (procs s1)\<rparr>)"
      using Suc.hyps(2) by (intro Suc.hyps(1)) (simp_all add: s1)
    also have "s1\<lparr>procs := woken ch (Suc k) (cur s1) (procs s1)\<rparr> =
        s\<lparr>procs := woken ch (Suc k) (cur s) (procs s1)\<rparr>"
      by (simp add: s1_def set_proc_def)
    also have "woken ch (Suc k) (cur s) (procs s1) = woken ch k (cur s) (procs s)"
      using k False by (auto simp: woken_def fun_eq_iff s1_def set_proc_def)
    finally show ?thesis .
  qed
qed

lemma wakeup_eq:
  "no_plocks s \<Longrightarrow> wakeup ch s = Inr (s\<lparr>procs := woken ch 0 (cur s) (procs s)\<rparr>)"
  by (simp add: wakeup_def wakeup_loop_eq)

lemma woken_frame [simp]:
  "p_pid (woken ch k me ps p) = p_pid (ps p)"
  "p_killed (woken ch k me ps p) = p_killed (ps p)"
  "p_sz (woken ch k me ps p) = p_sz (ps p)"
  "p_pagetable (woken ch k me ps p) = p_pagetable (ps p)"
  "p_trapframe (woken ch k me ps p) = p_trapframe (ps p)"
  "p_ofile (woken ch k me ps p) = p_ofile (ps p)"
  "p_cwd (woken ch k me ps p) = p_cwd (ps p)"
  "p_parent (woken ch k me ps p) = p_parent (ps p)"
  "woken ch k me ps me = ps me"
  by (simp_all add: woken_def)

subsection \<open>Sleep locks\<close>

text \<open>
  The interface of the sleep locks, for any table entry: what an accessor and an updater of a
  lock field have to satisfy, and what the three operations then do.
\<close>

locale sleep_lock =
  fixes lk :: spin and ch :: chan
    and get :: "kstate \<Rightarrow> sleeplock"
    and upd :: "(sleeplock \<Rightarrow> sleeplock) \<Rightarrow> kstate \<Rightarrow> kstate"
  assumes get_upd: "get (upd f s) = f (get s)"
    and held_upd: "held (upd f s) = held s"
    and cur_upd: "cur (upd f s) = cur s"
    and procs_upd: "procs (upd f s) = procs s"
    and upd_held: "(upd f s)\<lparr>held := h\<rparr> = upd f (s\<lparr>held := h\<rparr>)"
    and get_held: "get (s\<lparr>held := h\<rparr>) = get s"
    and not_plock: "lk \<noteq> Lk_proc p"
begin

lemma acquiresleep_free:
  assumes "lk \<notin> set (held s)" "\<not> sl_locked (get s)"
  shows "acquiresleep lk ch get upd s =
    Inr (upd (\<lambda>_. \<lparr>sl_locked = True, sl_pid = p_pid (myproc s)\<rparr>) s)"
  using assms by (simp add: acquiresleep_def get_held held_upd upd_held)

lemma acquiresleep_taken:
  assumes "lk \<notin> set (held s)" "sl_locked (get s)"
  shows "acquiresleep lk ch get upd s = Inl (Sleeping ch)"
  using assms by (simp add: acquiresleep_def get_held)

lemma holdingsleep_eq:
  assumes "lk \<notin> set (held s)"
  shows "holdingsleep lk get s = Inr (sl_locked (get s) \<and> sl_pid (get s) = p_pid (myproc s), s)"
  using assms by (simp add: holdingsleep_def get_held)

lemma releasesleep_eq:
  assumes "lk \<notin> set (held s)" "no_plocks s"
  shows "releasesleep lk ch upd s =
    Inr ((upd (\<lambda>_. \<lparr>sl_locked = False, sl_pid = 0\<rparr>) s)\<lparr>procs := woken ch 0 (cur s) (procs s)\<rparr>)"
proof -
  let ?s1 = "upd (\<lambda>_. \<lparr>sl_locked = False, sl_pid = 0\<rparr>) (s\<lparr>held := lk # held s\<rparr>)"
  have "no_plocks ?s1" using assms not_plock by (auto simp: no_plocks_def held_upd)
  then have "wakeup ch ?s1 = Inr (?s1\<lparr>procs := woken ch 0 (cur s) (procs s)\<rparr>)"
    by (simp add: wakeup_eq cur_upd procs_upd)
  moreover have "release lk (?s1\<lparr>procs := woken ch 0 (cur s) (procs s)\<rparr>) =
      Inr (?s1\<lparr>procs := woken ch 0 (cur s) (procs s), held := held s\<rparr>)"
    using assms(1) by (simp add: held_upd)
  moreover have "?s1\<lparr>procs := woken ch 0 (cur s) (procs s), held := held s\<rparr> =
      (?s1\<lparr>held := held s\<rparr>)\<lparr>procs := woken ch 0 (cur s) (procs s)\<rparr>" by simp
  ultimately show ?thesis
    using assms(1) by (simp add: releasesleep_def upd_held)
qed

text \<open>A lock that has been taken and released is free, and taking a taken lock sleeps.\<close>

lemma acquire_release:
  assumes "lk \<notin> set (held s)" "no_plocks s" "\<not> sl_locked (get s)"
  shows "\<exists>s1. acquiresleep lk ch get upd s = Inr s1 \<and> sl_locked (get s1) \<and>
    holdingsleep lk get s1 = Inr (True, s1) \<and> acquiresleep lk ch get upd s1 = Inl (Sleeping ch) \<and>
    (\<exists>s2. releasesleep lk ch upd s1 = Inr s2)"
proof -
  let ?s1 = "upd (\<lambda>_. \<lparr>sl_locked = True, sl_pid = p_pid (myproc s)\<rparr>) s"
  have "lk \<notin> set (held ?s1)" "no_plocks ?s1"
    using assms by (simp_all add: held_upd no_plocks_def)
  then show ?thesis
    using assms by (auto simp: acquiresleep_free acquiresleep_taken get_upd holdingsleep_eq cur_upd
        procs_upd releasesleep_eq)
qed

end

interpretation buf_lock: sleep_lock "Lk_buf b" "Chan_buf b" "\<lambda>s. b_lock (bufs s b)"
  "\<lambda>f. set_buf b (\<lambda>x. x\<lparr>b_lock := f (b_lock x)\<rparr>)"
  by unfold_locales (simp_all add: set_buf_def)

interpretation inode_lock: sleep_lock "Lk_inode i" "Chan_inode i" "\<lambda>s. i_lock (itable s i)"
  "\<lambda>f. set_inode i (\<lambda>x. x\<lparr>i_lock := f (i_lock x)\<rparr>)"
  by unfold_locales (simp_all add: set_inode_def)

end
