(* ===== verification/Bio.thy ===== *)
theory Bio
  imports Sched
begin

text \<open>
  The buffer cache, \<^verbatim>\<open>kernel/bio.c\<close>. The doubly linked list through \<^verbatim>\<open>prev\<close> and
  \<^verbatim>\<open>next\<close> is kept as the code keeps it, with buffer indices for pointers and the index
  \<open>NBUF\<close> for \<^verbatim>\<open>bcache.head\<close>. An array \<^verbatim>\<open>data[BSIZE]\<close> is a function of the
  offset, so that a copy of all \<^verbatim>\<open>BSIZE\<close> bytes is an assignment. The lemmas show that
  the list stays a permutation of the buffers in least-recently-used order, that no block has
  two buffers, and that a reader of the cache sees one value per block (\<open>view\<close>).
\<close>

subsection \<open>Operations\<close>

text \<open>
  What \<^verbatim>\<open>virtio_disk_rw\<close> has done when it returns: the device has copied the buffer
  to the block or the block to the buffer, and \<^verbatim>\<open>b->disk\<close>, set while the device owned
  the buffer, is clear. The order of completed writes is recorded in \<open>dwrites\<close>.
\<close>

definition virtio_disk_rw :: "nat \<Rightarrow> bool \<Rightarrow> kstate \<Rightarrow> kstate result" where
  "virtio_disk_rw b wr s =
     rbind (acquire Lk_vdisk s) (\<lambda>s.
     let bn = b_blockno (bufs s b) in
     let s = set_buf b (\<lambda>x. x\<lparr>b_disk := True\<rparr>) s in
     let s = (if wr then s\<lparr>disk := (disk s)(bn := b_data (bufs s b)),
                           dwrites := dwrites s @ [(bn, b_data (bufs s b))]\<rparr>
              else set_buf b (\<lambda>x. x\<lparr>b_data := disk s bn\<rparr>) s) in
     release Lk_vdisk (set_buf b (\<lambda>x. x\<lparr>b_disk := False\<rparr>) s))"

definition binit_step :: "nat \<Rightarrow> kstate \<Rightarrow> kstate" where
  "binit_step b s =
     (let s = set_buf b (\<lambda>x. x\<lparr>b_next := b_next (bufs s NBUF), b_prev := NBUF,
                               b_lock := initsleeplock (b_lock x)\<rparr>) s;
          s = set_buf (b_next (bufs s NBUF)) (\<lambda>x. x\<lparr>b_prev := b\<rparr>) s
      in set_buf NBUF (\<lambda>x. x\<lparr>b_next := b\<rparr>) s)"

definition binit :: "kstate \<Rightarrow> kstate" where
  "binit s = fold binit_step [0..<NBUF] (set_buf NBUF (\<lambda>x. x\<lparr>b_prev := NBUF, b_next := NBUF\<rparr>) s)"

text \<open>
  \<^verbatim>\<open>for(b = ...; b != &bcache.head; b = b->next) if(P(b)) ...\<close>, with \<open>nx\<close> the link
  followed. The first argument bounds the number of buffers visited: a walk of a list that
  never comes back to the head does not return.
\<close>

fun find_buf :: "nat \<Rightarrow> (buf \<Rightarrow> nat) \<Rightarrow> (buf \<Rightarrow> bool) \<Rightarrow> (nat \<Rightarrow> buf) \<Rightarrow> nat \<Rightarrow> nat option result" where
  "find_buf 0 nx P bs b = Inl Spinning"
| "find_buf (Suc k) nx P bs b =
     (if b = NBUF then Inr None
      else if P (bs b) then Inr (Some b)
      else find_buf k nx P bs (nx (bs b)))"

definition bget :: "u32 \<Rightarrow> u32 \<Rightarrow> kstate \<Rightarrow> (nat \<times> kstate) result" where
  "bget dev blockno s =
     rbind (acquire Lk_bcache s) (\<lambda>s.
     rbind (find_buf (Suc NBUF) b_next (\<lambda>b. b_dev b = dev \<and> b_blockno b = blockno) (bufs s)
              (b_next (bufs s NBUF))) (\<lambda>r.
     case r of
       Some b \<Rightarrow>
         rbind (release Lk_bcache (set_buf b (\<lambda>x. x\<lparr>b_refcnt := b_refcnt x + 1\<rparr>) s)) (\<lambda>s.
         rbind (acquiresleep_buf b s) (\<lambda>s. Inr (b, s)))
     | None \<Rightarrow>
         rbind (find_buf (Suc NBUF) b_prev (\<lambda>b. b_refcnt b = 0) (bufs s)
                  (b_prev (bufs s NBUF))) (\<lambda>r.
         case r of
           Some b \<Rightarrow>
             rbind (release Lk_bcache (set_buf b (\<lambda>x. x\<lparr>b_dev := dev, b_blockno := blockno,
                        b_valid := False, b_refcnt := 1\<rparr>) s)) (\<lambda>s.
             rbind (acquiresleep_buf b s) (\<lambda>s. Inr (b, s)))
         | None \<Rightarrow> Inl (Panic ''bget: no buffers''))))"

definition bread :: "u32 \<Rightarrow> u32 \<Rightarrow> kstate \<Rightarrow> (nat \<times> kstate) result" where
  "bread dev blockno s =
     rbind (bget dev blockno s) (\<lambda>(b, s).
     if \<not> b_valid (bufs s b) then
       rbind (virtio_disk_rw b False s) (\<lambda>s.
       Inr (b, set_buf b (\<lambda>x. x\<lparr>b_valid := True\<rparr>) s))
     else Inr (b, s))"

definition bwrite :: "nat \<Rightarrow> kstate \<Rightarrow> kstate result" where
  "bwrite b s =
     rbind (holdingsleep_buf b s) (\<lambda>(h, s).
     if \<not> h then Inl (Panic ''bwrite'') else virtio_disk_rw b True s)"

definition unlink_buf :: "nat \<Rightarrow> kstate \<Rightarrow> kstate" where
  "unlink_buf b s =
     (let s = set_buf (b_next (bufs s b)) (\<lambda>x. x\<lparr>b_prev := b_prev (bufs s b)\<rparr>) s
      in set_buf (b_prev (bufs s b)) (\<lambda>x. x\<lparr>b_next := b_next (bufs s b)\<rparr>) s)"

definition link_front :: "nat \<Rightarrow> kstate \<Rightarrow> kstate" where
  "link_front b s =
     (let s = set_buf b (\<lambda>x. x\<lparr>b_next := b_next (bufs s NBUF), b_prev := NBUF\<rparr>) s;
          s = set_buf (b_next (bufs s NBUF)) (\<lambda>x. x\<lparr>b_prev := b\<rparr>) s
      in set_buf NBUF (\<lambda>x. x\<lparr>b_next := b\<rparr>) s)"

definition brelse :: "nat \<Rightarrow> kstate \<Rightarrow> kstate result" where
  "brelse b s =
     rbind (holdingsleep_buf b s) (\<lambda>(h, s).
     if \<not> h then Inl (Panic ''brelse'')
     else
       rbind (releasesleep_buf b s) (\<lambda>s.
       rbind (acquire Lk_bcache s) (\<lambda>s.
       let s = set_buf b (\<lambda>x. x\<lparr>b_refcnt := b_refcnt x - 1\<rparr>) s in
       let s = (if b_refcnt (bufs s b) = 0 then link_front b (unlink_buf b s) else s) in
       release Lk_bcache s)))"

definition bpin :: "nat \<Rightarrow> kstate \<Rightarrow> kstate result" where
  "bpin b s =
     rbind (acquire Lk_bcache s) (\<lambda>s.
     release Lk_bcache (set_buf b (\<lambda>x. x\<lparr>b_refcnt := b_refcnt x + 1\<rparr>) s))"

definition bunpin :: "nat \<Rightarrow> kstate \<Rightarrow> kstate result" where
  "bunpin b s =
     rbind (acquire Lk_bcache s) (\<lambda>s.
     release Lk_bcache (set_buf b (\<lambda>x. x\<lparr>b_refcnt := b_refcnt x - 1\<rparr>) s))"

subsection \<open>The list of buffers\<close>

text \<open>
  \<open>linked nx pv a xs z\<close>: following \<open>nx\<close> from \<open>a\<close> visits \<open>xs\<close> and then \<open>z\<close>, and \<open>pv\<close> is
  its inverse.
\<close>

fun linked :: "(nat \<Rightarrow> nat) \<Rightarrow> (nat \<Rightarrow> nat) \<Rightarrow> nat \<Rightarrow> nat list \<Rightarrow> nat \<Rightarrow> bool" where
  "linked nx pv a [] z \<longleftrightarrow> nx a = z \<and> pv z = a"
| "linked nx pv a (x # xs) z \<longleftrightarrow> nx a = x \<and> pv x = a \<and> linked nx pv x xs z"

abbreviation nexts :: "kstate \<Rightarrow> nat \<Rightarrow> nat" where
  "nexts s \<equiv> \<lambda>i. b_next (bufs s i)"

abbreviation prevs :: "kstate \<Rightarrow> nat \<Rightarrow> nat" where
  "prevs s \<equiv> \<lambda>i. b_prev (bufs s i)"

text \<open>The cache's list is \<open>xs\<close>, most recently used buffer first, and has every buffer once.\<close>

definition lru :: "kstate \<Rightarrow> nat list \<Rightarrow> bool" where
  "lru s xs \<longleftrightarrow> linked (nexts s) (prevs s) NBUF xs NBUF \<and> distinct xs \<and> set xs = {..<NBUF}"

lemma linked_append:
  "linked nx pv a (xs @ y # ys) z \<longleftrightarrow> linked nx pv a xs y \<and> linked nx pv y ys z"
  by (induction xs arbitrary: a) auto

lemma linked_cong:
  "linked nx pv a xs z \<Longrightarrow> (\<And>i. i \<in> insert a (set xs) \<Longrightarrow> nx' i = nx i) \<Longrightarrow>
     (\<And>i. i \<in> insert z (set xs) \<Longrightarrow> pv' i = pv i) \<Longrightarrow> linked nx' pv' a xs z"
  by (induction xs arbitrary: a) auto

lemma linked_rev: "linked nx pv a xs z \<Longrightarrow> linked pv nx z (rev xs) a"
proof (induction xs arbitrary: a)
  case (Cons x xs)
  then have "linked pv nx z (rev xs) x" "pv x = a" "nx a = x" by auto
  then have "linked pv nx z (rev xs @ x # []) a" by (simp only: linked_append linked.simps simp_thms)
  then show ?case by simp
qed auto

lemma linked_last: "linked nx pv a xs z \<Longrightarrow> pv z = last (a # xs)"
  by (induction xs arbitrary: a) auto

lemma linked_first: "linked nx pv a xs z \<Longrightarrow> nx a = hd (xs @ [z])"
  by (cases xs) auto

text \<open>The end of a segment can be moved to another node.\<close>

lemma linked_retarget:
  assumes "linked nx pv a xs z" "distinct (a # xs)" "y \<notin> set xs"
  shows "linked (nx(last (a # xs) := y)) (pv(y := last (a # xs))) a xs y"
  using assms
proof (induction xs arbitrary: a)
  case (Cons x xs)
  have "linked nx pv x xs z" "distinct (x # xs)" "y \<notin> set xs" using Cons.prems by auto
  then have IH: "linked (nx(last (x # xs) := y)) (pv(y := last (x # xs))) x xs y" by (rule Cons.IH)
  have l: "last (a # x # xs) = last (x # xs)" by simp
  have "last (x # xs) \<noteq> a" using Cons.prems(2) last_in_set [of "x # xs"] by auto
  moreover have "nx a = x" "pv x = a" "y \<noteq> x" using Cons.prems by auto
  ultimately show ?case unfolding l linked.simps(2) using IH by (intro conjI) simp_all
qed simp

lemma linked_unlink:
  assumes l: "linked nx pv h (ys @ b # zs) h" and d: "distinct (h # ys @ b # zs)"
  shows "linked (nx(pv b := nx b)) (pv(nx b := pv b)) h (ys @ zs) h"
proof -
  from l have yl: "linked nx pv h ys b" and zl: "linked nx pv b zs h" by (simp_all add: linked_append)
  have p: "pv b = last (h # ys)" using linked_last [OF yl] .
  have n: "nx b = hd (zs @ [h])" using linked_first [OF zl] .
  show ?thesis
  proof (cases zs)
    case Nil
    have "linked (nx(last (h # ys) := h)) (pv(h := last (h # ys))) h ys h"
      using linked_retarget [OF yl, of h] d by auto
    then show ?thesis using Nil n p by simp
  next
    case (Cons z zs')
    have "linked (nx(last (h # ys) := z)) (pv(z := last (h # ys))) h ys z"
      using linked_retarget [OF yl, of z] d Cons by auto
    moreover have "linked (nx(last (h # ys) := z)) (pv(z := last (h # ys))) z zs' h"
    proof (rule linked_cong)
      show "linked nx pv z zs' h" using zl Cons by simp
      have "last (h # ys) \<in> set (h # ys)" by (rule last_in_set) simp
      then show "i \<in> insert z (set zs') \<Longrightarrow> (nx(last (h # ys) := z)) i = nx i" for i
        using d Cons by auto
      show "i \<in> insert h (set zs') \<Longrightarrow> (pv(z := last (h # ys))) i = pv i" for i
        using d Cons by auto
    qed
    ultimately show ?thesis using Cons n p by (simp add: linked_append)
  qed
qed

lemma linked_push:
  assumes l: "linked nx pv h xs h" and b: "b \<notin> set (h # xs)" and d: "distinct (h # xs)"
  shows "linked (nx(b := nx h, h := b)) (pv(b := h, nx h := b)) h (b # xs) h"
proof (cases xs)
  case Nil
  then show ?thesis using l b by auto
next
  case (Cons x xs')
  have x: "nx h = x" "linked nx pv x xs' h" using l Cons by auto
  have ne: "b \<noteq> h" "b \<noteq> x" "x \<noteq> h" "x \<notin> set xs'" "b \<notin> set xs'" "h \<notin> set xs'"
    using b d Cons by auto
  have "linked (nx(b := x, h := b)) (pv(b := h, x := b)) x xs' h"
  proof (rule linked_cong [OF x(2)])
    show "i \<in> insert x (set xs') \<Longrightarrow> (nx(b := x, h := b)) i = nx i" for i
      using ne by auto
    show "i \<in> insert h (set xs') \<Longrightarrow> (pv(b := h, x := b)) i = pv i" for i
      using ne by auto
  qed
  then show ?thesis unfolding Cons x(1) linked.simps(2) using ne by (intro conjI) simp_all
qed

lemma find_buf_linked:
  assumes "linked nx pv a xs z" "z = NBUF" "NBUF \<notin> set xs" "length xs < k"
    and "\<And>i. nx i = f (bs i)"
  shows "find_buf k f P bs (nx a) = Inr (List.find (\<lambda>i. P (bs i)) xs)"
  using assms
proof (induction xs arbitrary: a k)
  case Nil
  then show ?case by (cases k) auto
next
  case (Cons x xs)
  then obtain j where k: "k = Suc j" by (cases k) auto
  have "find_buf j f P bs (nx x) = Inr (List.find (\<lambda>i. P (bs i)) xs)"
    using Cons k by (intro Cons.IH) auto
  then show ?case using Cons.prems k by auto
qed

lemma lru_find_next:
  assumes "lru s xs" "NBUF < k"
  shows "find_buf k b_next P (bufs s) (b_next (bufs s NBUF)) =
    Inr (List.find (\<lambda>i. P (bufs s i)) xs)"
proof -
  have "length xs = NBUF" using assms(1) distinct_card [of xs] by (simp add: lru_def)
  then show ?thesis using assms
    by (intro find_buf_linked [where nx = "nexts s" and pv = "prevs s"]) (auto simp: lru_def)
qed

lemma lru_find_prev:
  assumes "lru s xs" "NBUF < k"
  shows "find_buf k b_prev P (bufs s) (b_prev (bufs s NBUF)) =
    Inr (List.find (\<lambda>i. P (bufs s i)) (rev xs))"
proof -
  have "length xs = NBUF" using assms(1) distinct_card [of xs] by (simp add: lru_def)
  moreover have "linked (prevs s) (nexts s) NBUF (rev xs) NBUF"
    using assms by (auto simp: lru_def intro: linked_rev)
  ultimately show ?thesis using assms
    by (intro find_buf_linked [where nx = "prevs s" and pv = "nexts s"]) (auto simp: lru_def)
qed

lemma find_Some_prop: "List.find P xs = Some x \<Longrightarrow> x \<in> set xs \<and> P x"
  by (auto simp: find_Some_iff in_set_conv_nth)

lemma find_split:
  "List.find P xs = Some i \<Longrightarrow> \<exists>us vs. xs = us @ i # vs \<and> (\<forall>j\<in>set us. \<not> P j)"
proof (induction xs)
  case (Cons x xs)
  show ?case
  proof (cases "P x")
    case True
    then show ?thesis using Cons.prems by - (rule exI [of _ "[]"], rule exI [of _ xs], simp)
  next
    case False
    then obtain us vs where "xs = us @ i # vs" "\<forall>j\<in>set us. \<not> P j" using Cons by auto
    then show ?thesis using False by - (rule exI [of _ "x # us"], rule exI [of _ vs], simp)
  qed
qed simp

lemma find_None_prop: "List.find P xs = None \<Longrightarrow> x \<in> set xs \<Longrightarrow> \<not> P x"
  by (auto simp: find_None_iff)

subsection \<open>The invariant of the cache and the blocks it shows\<close>

text \<open>
  Every buffer of the cache: not one block twice, and a buffer that nobody refers to, which
  \<^verbatim>\<open>bget\<close> may recycle, has nothing that is not on the disk. Device 0 is the value
  of a buffer never used.
\<close>

definition buf_for :: "kstate \<Rightarrow> u32 \<Rightarrow> nat \<Rightarrow> bool" where
  "buf_for s bn i \<longleftrightarrow> b_dev (bufs s i) = ROOTDEV \<and> b_blockno (bufs s i) = bn"

definition uniq :: "kstate \<Rightarrow> bool" where
  "uniq s \<longleftrightarrow> (\<forall>i<NBUF. \<forall>j<NBUF. \<forall>bn. buf_for s bn i \<longrightarrow> buf_for s bn j \<longrightarrow> i = j)"

definition clean :: "kstate \<Rightarrow> nat \<Rightarrow> bool" where
  "clean s i \<longleftrightarrow> (b_dev (bufs s i) = ROOTDEV \<longrightarrow> b_valid (bufs s i) \<longrightarrow>
     b_data (bufs s i) = disk s (b_blockno (bufs s i)))"

text \<open>
  The cache as one thread sees it between two of its operations: the thread holds the buffers
  \<open>H\<close>, and the blocks \<open>L\<close> are pinned, one reference each. A dirty buffer is held or pinned.
\<close>

definition pinned :: "kstate \<Rightarrow> u32 set \<Rightarrow> nat \<Rightarrow> bool" where
  "pinned s L i \<longleftrightarrow> b_dev (bufs s i) = ROOTDEV \<and> b_blockno (bufs s i) \<in> L"

definition buf_ok :: "nat set \<Rightarrow> u32 set \<Rightarrow> kstate \<Rightarrow> nat \<Rightarrow> bool" where
  "buf_ok H L s i \<longleftrightarrow>
     \<not> b_disk (bufs s i) \<and>
     b_refcnt (bufs s i) = (if i \<in> H then 1 else 0) + (if pinned s L i then 1 else 0) \<and>
     (sl_locked (b_lock (bufs s i)) \<longleftrightarrow> i \<in> H) \<and>
     (i \<in> H \<longrightarrow> sl_pid (b_lock (bufs s i)) = p_pid (myproc s) \<and> b_dev (bufs s i) = ROOTDEV) \<and>
     (i \<in> H \<or> pinned s L i \<longrightarrow> b_valid (bufs s i)) \<and>
     (i \<notin> H \<longrightarrow> \<not> pinned s L i \<longrightarrow> clean s i)"

definition cache :: "nat set \<Rightarrow> u32 set \<Rightarrow> kstate \<Rightarrow> bool" where
  "cache H L s \<longleftrightarrow> (\<exists>xs. lru s xs) \<and> uniq s \<and> H \<subseteq> {..<NBUF} \<and> finite L \<and>
     (\<forall>i<NBUF. buf_ok H L s i) \<and> (\<forall>bn\<in>L. \<exists>i<NBUF. buf_for s bn i)"

text \<open>The content of a block as every reader of the cache sees it.\<close>

definition slot :: "kstate \<Rightarrow> u32 \<Rightarrow> nat option" where
  "slot s bn = scan (buf_for s bn) 0 NBUF"

definition view :: "kstate \<Rightarrow> u32 \<Rightarrow> block" where
  "view s bn = (case slot s bn of
     Some i \<Rightarrow> if b_valid (bufs s i) then b_data (bufs s i) else disk s bn
   | None \<Rightarrow> disk s bn)"

text \<open>The locks that an operation of the cache takes are free.\<close>

definition io_free :: "kstate \<Rightarrow> bool" where
  "io_free s \<longleftrightarrow> Lk_bcache \<notin> set (held s) \<and> Lk_vdisk \<notin> set (held s) \<and>
     (\<forall>i. Lk_buf i \<notin> set (held s)) \<and> no_plocks s"

lemma io_freeD:
  assumes "io_free s"
  shows "Lk_bcache \<notin> set (held s)" "Lk_vdisk \<notin> set (held s)" "Lk_buf i \<notin> set (held s)" "no_plocks s"
  using assms by (auto simp: io_free_def)

lemma io_free_cong: "held s' = held s \<Longrightarrow> io_free s' = io_free s"
  by (simp add: io_free_def no_plocks_def)

lemma uniqD: "uniq s \<Longrightarrow> i < NBUF \<Longrightarrow> j < NBUF \<Longrightarrow> buf_for s bn i \<Longrightarrow> buf_for s bn j \<Longrightarrow> i = j"
  by (simp add: uniq_def)

lemma slot_Some: "slot s bn = Some i \<Longrightarrow> i < NBUF \<and> buf_for s bn i"
  unfolding slot_def by (drule scan_hit) simp

lemma slot_uniq:
  assumes "uniq s"
  shows "slot s bn = Some i \<longleftrightarrow> i < NBUF \<and> buf_for s bn i"
proof
  assume i: "i < NBUF \<and> buf_for s bn i"
  then obtain j where "slot s bn = Some j" using scan_found [of "buf_for s bn" i 0 NBUF]
    by (auto simp: slot_def)
  with i show "slot s bn = Some i" using slot_Some [of s bn j] uniqD [OF assms] by auto
qed (rule slot_Some)

lemma slot_None: "slot s bn = None \<longleftrightarrow> (\<forall>i<NBUF. \<not> buf_for s bn i)"
  unfolding slot_def by (auto simp: scan_None_iff)

lemma view_cached: "uniq s \<Longrightarrow> i < NBUF \<Longrightarrow> buf_for s bn i \<Longrightarrow> b_valid (bufs s i) \<Longrightarrow>
    view s bn = b_data (bufs s i)"
  using slot_uniq [of s bn i] by (simp add: view_def)

text \<open>Two caches that have the same buffers for a block, and agree on it, show the same block.\<close>

lemma lru_cong:
  "lru s xs \<Longrightarrow> (\<And>i. b_next (bufs s' i) = b_next (bufs s i)) \<Longrightarrow>
     (\<And>i. b_prev (bufs s' i) = b_prev (bufs s i)) \<Longrightarrow> lru s' xs"
  by (simp add: lru_def)

lemma uniq_cong:
  "uniq s \<Longrightarrow> (\<And>i. i < NBUF \<Longrightarrow> b_dev (bufs s' i) = b_dev (bufs s i)) \<Longrightarrow>
     (\<And>i. i < NBUF \<Longrightarrow> b_blockno (bufs s' i) = b_blockno (bufs s i)) \<Longrightarrow> uniq s'"
  by (simp add: uniq_def buf_for_def)

lemma slot_cong:
  "(\<And>i. i < NBUF \<Longrightarrow> buf_for s' bn i = buf_for s bn i) \<Longrightarrow> slot s' bn = slot s bn"
  unfolding slot_def by (rule scan_cong) simp

lemma view_cong:
  assumes "\<And>i. i < NBUF \<Longrightarrow> buf_for s' bn i = buf_for s bn i"
    and "\<And>i. i < NBUF \<Longrightarrow> buf_for s bn i \<Longrightarrow> b_valid (bufs s' i) = b_valid (bufs s i)"
    and "\<And>i. i < NBUF \<Longrightarrow> buf_for s bn i \<Longrightarrow> b_data (bufs s' i) = b_data (bufs s i)"
    and "disk s' bn = disk s bn"
  shows "view s' bn = view s bn"
proof -
  have "slot s' bn = slot s bn" using assms(1) by (rule slot_cong)
  then show ?thesis using assms slot_Some [of s bn]
    by (auto simp: view_def split: option.splits)
qed

lemma bufs_set_buf: "bufs (set_buf b f s) i = (if i = b then f (bufs s b) else bufs s i)"
  by (simp add: set_buf_def)

lemma unlink_buf_links:
  assumes "prevs s b \<noteq> b" "nexts s b \<noteq> b"
  shows "nexts (unlink_buf b s) = (nexts s)(prevs s b := nexts s b)"
    "prevs (unlink_buf b s) = (prevs s)(nexts s b := prevs s b)"
  using assms by (simp_all add: unlink_buf_def bufs_set_buf Let_def fun_eq_iff)

lemma link_front_links:
  assumes "b < NBUF" "nexts s NBUF \<noteq> b"
  shows "nexts (link_front b s) = (nexts s)(b := nexts s NBUF, NBUF := b)"
    "prevs (link_front b s) = (prevs s)(b := NBUF, nexts s NBUF := b)"
  using assms by (simp_all add: link_front_def bufs_set_buf Let_def fun_eq_iff)

text \<open>The neighbours of a node of the list are other nodes.\<close>

lemma linked_neighbours:
  assumes "linked nx pv h (ys @ b # zs) h" "distinct (h # ys @ b # zs)"
  shows "pv b \<noteq> b" "nx b \<noteq> b"
proof -
  have "linked nx pv h ys b" "linked nx pv b zs h" using assms(1) by (simp_all add: linked_append)
  then have pn: "pv b = last (h # ys)" "nx b = hd (zs @ [h])"
    by (auto dest: linked_last linked_first)
  have "last (h # ys) \<in> set (h # ys)" by (rule last_in_set) simp
  then show "pv b \<noteq> b" unfolding pn using assms(2) by auto
  have "hd (zs @ [h]) \<in> set (zs @ [h])" by (rule hd_in_set) simp
  then show "nx b \<noteq> b" unfolding pn using assms(2) by auto
qed

lemma lru_unlink_push:
  assumes "lru s xs" "b < NBUF"
  shows "lru (link_front b (unlink_buf b s)) (b # remove1 b xs)"
proof -
  from assms have "b \<in> set xs" by (simp add: lru_def)
  then obtain ys zs where xs: "xs = ys @ b # zs" "b \<notin> set ys" by (metis split_list_first)
  let ?s = "unlink_buf b s"
  have l: "linked (nexts s) (prevs s) NBUF (ys @ b # zs) NBUF" and st: "set xs = {..<NBUF}"
    and dx: "distinct (ys @ b # zs)" using assms(1) unfolding lru_def xs(1) by (rule conjunct1, simp_all)
  have "NBUF \<notin> set xs" unfolding st by simp
  then have d: "distinct (NBUF # ys @ b # zs)" using dx xs by simp
  note ne = linked_neighbours [OF l d]
  have l2: "linked (nexts ?s) (prevs ?s) NBUF (ys @ zs) NBUF"
    unfolding unlink_buf_links [OF ne] using linked_unlink [OF l d] .
  have bn: "nexts ?s NBUF \<noteq> b"
  proof -
    have "hd ((ys @ zs) @ [NBUF]) \<in> set ((ys @ zs) @ [NBUF])" by (rule hd_in_set) simp
    then show ?thesis unfolding linked_first [OF l2] using d by auto
  qed
  have nd: "b \<notin> set (NBUF # ys @ zs)" "distinct (NBUF # ys @ zs)" using d by auto
  have l3: "linked (nexts (link_front b ?s)) (prevs (link_front b ?s)) NBUF (b # ys @ zs) NBUF"
    unfolding link_front_links [OF assms(2) bn] using l2 nd by (rule linked_push)
  have "set (b # ys @ zs) = {..<NBUF}" using st xs(1) by auto
  moreover have "remove1 b xs = ys @ zs" using xs by (simp add: remove1_append)
  moreover have "distinct (b # ys @ zs)" using nd by simp
  ultimately show ?thesis unfolding lru_def using l3 by (simp only: simp_thms)
qed

subsection \<open>What the operations do on such a cache\<close>

lemma cacheD:
  assumes "cache H L s"
  shows "\<exists>xs. lru s xs" "uniq s" "H \<subseteq> {..<NBUF}" "finite L" "i < NBUF \<Longrightarrow> buf_ok H L s i"
    "bn \<in> L \<Longrightarrow> \<exists>i<NBUF. buf_for s bn i"
  using assms by (auto simp: cache_def)

lemma cache_held:
  assumes "cache H L s" "i \<in> H"
  shows "i < NBUF" "\<not> b_disk (bufs s i)" "sl_locked (b_lock (bufs s i))"
    "sl_pid (b_lock (bufs s i)) = p_pid (myproc s)" "b_dev (bufs s i) = ROOTDEV" "b_valid (bufs s i)"
    "b_refcnt (bufs s i) = 1 + (if pinned s L i then 1 else 0)"
    "view s (b_blockno (bufs s i)) = b_data (bufs s i)"
proof -
  show i: "i < NBUF" using assms cacheD(3) [OF assms(1)] by auto
  have "buf_ok H L s i" using cacheD(5) [OF assms(1) i] .
  then show d: "b_dev (bufs s i) = ROOTDEV" and v: "b_valid (bufs s i)"
    and "\<not> b_disk (bufs s i)" "sl_locked (b_lock (bufs s i))"
    "sl_pid (b_lock (bufs s i)) = p_pid (myproc s)"
    "b_refcnt (bufs s i) = 1 + (if pinned s L i then 1 else 0)"
    using assms(2) by (auto simp: buf_ok_def)
  show "view s (b_blockno (bufs s i)) = b_data (bufs s i)"
    using view_cached [OF cacheD(2) [OF assms(1)] i _ v] d by (simp add: buf_for_def)
qed

text \<open>The other parts of the kernel's state do not change; processes may wake up.\<close>

definition io_frame :: "kstate \<Rightarrow> kstate \<Rightarrow> bool" where
  "io_frame s s' \<longleftrightarrow>
     s' = s\<lparr>bufs := bufs s', procs := procs s', disk := disk s', dwrites := dwrites s'\<rparr> \<and>
     (\<forall>p. procs s' p = (procs s p)\<lparr>p_state := p_state (procs s' p)\<rparr>) \<and>
     procs s' (cur s) = procs s (cur s)"

lemma io_frame_refl [simp]: "io_frame s s"
  by (simp add: io_frame_def)

lemma io_frame_trans [trans]:
  assumes "io_frame s t" "io_frame t u"
  shows "io_frame s u"
proof -
  have t: "t = s\<lparr>bufs := bufs t, procs := procs t, disk := disk t, dwrites := dwrites t\<rparr>"
    and u: "u = t\<lparr>bufs := bufs u, procs := procs u, disk := disk u, dwrites := dwrites u\<rparr>"
    using assms by (simp_all only: io_frame_def)
  have c: "cur t = cur s" by (subst t) simp
  have "u = s\<lparr>bufs := bufs u, procs := procs u, disk := disk u, dwrites := dwrites u\<rparr>"
    by (subst u, subst t) simp
  moreover have "procs u p = (procs s p)\<lparr>p_state := p_state (procs u p)\<rparr>" for p
  proof -
    have 1: "procs u p = (procs t p)\<lparr>p_state := p_state (procs u p)\<rparr>"
      and 2: "procs t p = (procs s p)\<lparr>p_state := p_state (procs t p)\<rparr>"
      using assms unfolding io_frame_def by blast+
    have "(procs t p)\<lparr>p_state := x\<rparr> = (procs s p)\<lparr>p_state := x\<rparr>" for x by (subst 2) simp
    then show ?thesis using 1 by (rule back_subst [of "\<lambda>x. procs u p = x", rotated])
  qed
  moreover have "procs u (cur s) = procs s (cur s)" using assms c by (simp add: io_frame_def)
  ultimately show ?thesis unfolding io_frame_def by blast
qed

lemma io_frameD:
  assumes "io_frame s s'"
  shows "mem s' = mem s" "kend s' = kend s" "freelist s' = freelist s" "held s' = held s"
    "cur s' = cur s" "initproc s' = initproc s" "nextpid s' = nextpid s" "ticks s' = ticks s"
    "tframes s' = tframes s" "pipes s' = pipes s" "klog s' = klog s" "sb s' = sb s"
    "itable s' = itable s" "ftable s' = ftable s" "devsw_read s' = devsw_read s"
    "devsw_write s' = devsw_write s" "myproc s' = myproc s" "io_free s' = io_free s"
proof -
  have e: "s' = s\<lparr>bufs := bufs s', procs := procs s', disk := disk s', dwrites := dwrites s'\<rparr>"
    using assms by (simp only: io_frame_def)
  show "mem s' = mem s" "kend s' = kend s" "freelist s' = freelist s" "held s' = held s"
    "cur s' = cur s" "initproc s' = initproc s" "nextpid s' = nextpid s" "ticks s' = ticks s"
    "tframes s' = tframes s" "pipes s' = pipes s" "klog s' = klog s" "sb s' = sb s"
    "itable s' = itable s" "ftable s' = ftable s" "devsw_read s' = devsw_read s"
    "devsw_write s' = devsw_write s" by (subst e, simp)+
  then show "myproc s' = myproc s" "io_free s' = io_free s"
    using assms by (simp_all add: io_frame_def io_free_def no_plocks_def)
qed

lemma set_buf_frame [simp]:
  "procs (set_buf i f s) = procs s" "cur (set_buf i f s) = cur s" "held (set_buf i f s) = held s"
  "disk (set_buf i f s) = disk s" "dwrites (set_buf i f s) = dwrites s" "io_frame s (set_buf i f s)"
  "klog (set_buf i f s) = klog s"
  by (simp_all add: set_buf_def io_frame_def)

lemma set_buf_held [simp]: "(set_buf i f s)\<lparr>held := h\<rparr> = set_buf i f (s\<lparr>held := h\<rparr>)"
  by (simp add: set_buf_def)

lemma set_buf_twice [simp]: "set_buf i f (set_buf i g s) = set_buf i (\<lambda>x. f (g x)) s"
  by (simp add: set_buf_def)

lemma bufs_set_buf_same [simp]: "bufs (set_buf i f s) i = f (bufs s i)"
  by (simp add: set_buf_def)

lemma set_buf_id: "f (bufs s i) = bufs s i \<Longrightarrow> set_buf i f s = s"
  by (simp add: set_buf_def)

abbreviation (input) mine :: "kstate \<Rightarrow> sleeplock" where
  "mine s \<equiv> \<lparr>sl_locked = True, sl_pid = p_pid (myproc s)\<rparr>"

lemma acquiresleep_buf_free:
  "io_free s \<Longrightarrow> \<not> sl_locked (b_lock (bufs s i)) \<Longrightarrow>
     acquiresleep_buf i s = Inr (set_buf i (\<lambda>x. x\<lparr>b_lock := mine s\<rparr>) s)"
  unfolding acquiresleep_buf_def by (rule buf_lock.acquiresleep_free) (simp_all add: io_freeD)

lemma find_uniq:
  assumes "i \<in> set xs" "P i" "\<And>j. j \<in> set xs \<Longrightarrow> P j \<Longrightarrow> j = i"
  shows "List.find P xs = Some i"
  using assms by (metis find_None_prop find_Some_prop option.exhaust)

lemma bget_hit:
  assumes c: "cache H L s" and io: "io_free s" and i: "slot s bn = Some i" and H: "i \<notin> H"
  shows "bget ROOTDEV bn s =
    Inr (i, set_buf i (\<lambda>x. x\<lparr>b_refcnt := b_refcnt x + 1, b_lock := mine s\<rparr>) s)"
proof -
  obtain xs where xs: "lru s xs" using cacheD(1) [OF c] by auto
  have i': "i < NBUF" "buf_for s bn i" using slot_Some [OF i] by auto
  have f: "List.find (\<lambda>i. b_dev (bufs s i) = ROOTDEV \<and> b_blockno (bufs s i) = bn) xs = Some i"
    using i' xs uniqD [OF cacheD(2) [OF c]]
    by (intro find_uniq) (auto simp: lru_def buf_for_def)
  have u: "\<not> sl_locked (b_lock (bufs s i))"
    using cacheD(5) [OF c i'(1)] H by (simp add: buf_ok_def)
  let ?s = "set_buf i (\<lambda>x. x\<lparr>b_refcnt := b_refcnt x + 1\<rparr>) s"
  have "io_free ?s" using io by (simp add: io_free_cong [of ?s s])
  then have "acquiresleep_buf i ?s = Inr (set_buf i (\<lambda>x. x\<lparr>b_refcnt := b_refcnt x + 1, b_lock := mine s\<rparr>) s)"
    using u by (simp add: acquiresleep_buf_free)
  then show ?thesis
    unfolding bget_def using io_freeD(1) [OF io] by (simp add: lru_find_next [OF xs] f)
qed

lemma bget_miss:
  assumes xs: "lru s xs" and io: "io_free s" and n: "slot s bn = None"
    and f: "List.find (\<lambda>i. b_refcnt (bufs s i) = 0) (rev xs) = Some i"
    and u: "\<not> sl_locked (b_lock (bufs s i))"
  shows "bget ROOTDEV bn s =
    Inr (i, set_buf i (\<lambda>x. x\<lparr>b_dev := ROOTDEV, b_blockno := bn, b_valid := False, b_refcnt := 1,
                             b_lock := mine s\<rparr>) s)"
proof -
  have f1: "List.find (\<lambda>i. b_dev (bufs s i) = ROOTDEV \<and> b_blockno (bufs s i) = bn) xs = None"
    using n xs by (auto simp: find_None_iff slot_None buf_for_def lru_def)
  let ?s = "set_buf i (\<lambda>x. x\<lparr>b_dev := ROOTDEV, b_blockno := bn, b_valid := False, b_refcnt := 1\<rparr>) s"
  have "io_free ?s" using io by (simp add: io_free_cong [of ?s s])
  then have "acquiresleep_buf i ?s = Inr (set_buf i (\<lambda>x. x\<lparr>b_dev := ROOTDEV, b_blockno := bn,
      b_valid := False, b_refcnt := 1, b_lock := mine s\<rparr>) s)"
    using u by (simp add: acquiresleep_buf_free)
  then show ?thesis
    unfolding bget_def using io_freeD(1) [OF io]
    by (simp add: lru_find_next [OF xs] lru_find_prev [OF xs] f1 f)
qed

lemma virtio_read:
  assumes "io_free s"
  shows "virtio_disk_rw i False s =
    Inr (set_buf i (\<lambda>x. x\<lparr>b_data := disk s (b_blockno x), b_disk := False\<rparr>) s)"
  using assms by (simp add: virtio_disk_rw_def io_freeD) (simp add: set_buf_def)

lemma virtio_write:
  assumes "io_free s" "\<not> b_disk (bufs s i)"
  shows "virtio_disk_rw i True s =
    Inr (s\<lparr>disk := (disk s)(b_blockno (bufs s i) := b_data (bufs s i)),
           dwrites := dwrites s @ [(b_blockno (bufs s i), b_data (bufs s i))]\<rparr>)"
proof -
  have "(bufs s i)\<lparr>b_disk := False\<rparr> = bufs s i" using assms(2) by (cases "bufs s i") simp
  then show ?thesis using io_freeD(2) [OF assms(1)]
    by (simp add: virtio_disk_rw_def Let_def set_buf_def)
qed

text \<open>
  A read of a block returns it, in the buffer that has it or in one that was free. The buffer
  is then the thread's.
\<close>

definition got :: "u32 \<Rightarrow> nat \<Rightarrow> kstate \<Rightarrow> kstate" where
  "got bn i s = set_buf i (\<lambda>x. x\<lparr>b_dev := ROOTDEV, b_blockno := bn, b_valid := True, b_disk := False,
     b_refcnt := b_refcnt x + 1, b_lock := mine s, b_data := view s bn\<rparr>) s"

lemma got_simps [simp]:
  "b_dev (bufs (got bn i s) i) = ROOTDEV" "b_blockno (bufs (got bn i s) i) = bn"
  "b_valid (bufs (got bn i s) i)" "\<not> b_disk (bufs (got bn i s) i)"
  "b_refcnt (bufs (got bn i s) i) = b_refcnt (bufs s i) + 1"
  "b_lock (bufs (got bn i s) i) = mine s" "b_data (bufs (got bn i s) i) = view s bn"
  "j \<noteq> i \<Longrightarrow> bufs (got bn i s) j = bufs s j"
  "b_next (bufs (got bn i s) j) = b_next (bufs s j)" "b_prev (bufs (got bn i s) j) = b_prev (bufs s j)"
  "disk (got bn i s) = disk s" "dwrites (got bn i s) = dwrites s" "io_frame s (got bn i s)"
  "cur (got bn i s) = cur s" "procs (got bn i s) = procs s" "held (got bn i s) = held s"
  "klog (got bn i s) = klog s"
  by (simp_all add: got_def bufs_set_buf)

lemma set_buf_cong: "f (bufs s i) = g (bufs s i) \<Longrightarrow> set_buf i f s = set_buf i g s"
  by (simp add: set_buf_def)

text \<open>There is a free buffer as long as not all are held or pinned.\<close>

lemma cache_has_free:
  assumes c: "cache H L s" and n: "card H + card L < NBUF"
  shows "\<exists>i<NBUF. b_refcnt (bufs s i) = 0"
proof (rule ccontr)
  assume "\<not> ?thesis"
  then have all: "i \<in> H \<or> pinned s L i" if "i < NBUF" for i
    using that cacheD(5) [OF c that] by (auto simp: buf_ok_def)
  let ?P = "{i. i < NBUF \<and> pinned s L i}"
  have "inj_on (\<lambda>i. b_blockno (bufs s i)) ?P"
    using uniqD [OF cacheD(2) [OF c]] by (auto simp: inj_on_def pinned_def buf_for_def)
  then have "card ?P \<le> card L"
    using cacheD(4) [OF c] by (intro card_inj_on_le [of "\<lambda>i. b_blockno (bufs s i)"]) (auto simp: pinned_def)
  moreover have "{..<NBUF} \<subseteq> H \<union> ?P" using all by auto
  then have "card {..<NBUF} \<le> card (H \<union> ?P)"
    using finite_subset [OF cacheD(3) [OF c]] by (intro card_mono) simp_all
  moreover have "card (H \<union> ?P) \<le> card H + card ?P" by (rule card_Un_le)
  ultimately show False using n by simp
qed

lemma bread_hit:
  assumes c: "cache H L s" and io: "io_free s" and i: "slot s bn = Some i" and H: "i \<notin> H"
  shows "bread ROOTDEV bn s = Inr (i, got bn i s)"
proof -
  let ?f = "\<lambda>x. x\<lparr>b_refcnt := b_refcnt x + 1, b_lock := mine s\<rparr>"
  have i': "i < NBUF" "buf_for s bn i" using slot_Some [OF i] by auto
  have nd: "\<not> b_disk (bufs s i)" using cacheD(5) [OF c i'(1)] by (simp add: buf_ok_def)
  have io': "io_free (set_buf i ?f s)" using io by (simp add: io_free_cong [of "set_buf i ?f s" s])
  show ?thesis
  proof (cases "b_valid (bufs s i)")
    case True
    then have "view s bn = b_data (bufs s i)" using i by (simp add: view_def)
    then have "set_buf i ?f s = got bn i s"
      using True i' nd unfolding got_def
      by (intro set_buf_cong) (rule buf.equality, simp_all add: buf_for_def)
    then show ?thesis using True by (simp add: bread_def bget_hit [OF assms])
  next
    case False
    then have "view s bn = disk s bn" using i by (simp add: view_def)
    then have "set_buf i (\<lambda>x. (?f x)\<lparr>b_data := disk s (b_blockno (?f x)), b_disk := False, b_valid := True\<rparr>) s = got bn i s"
      using i' nd unfolding got_def
      by (intro set_buf_cong) (rule buf.equality, simp_all add: buf_for_def)
    then show ?thesis using False virtio_read [OF io', of i] by (simp add: bread_def bget_hit [OF assms])
  qed
qed

lemma bread_miss:
  assumes xs: "lru s xs" and io: "io_free s" and n: "slot s bn = None"
    and f: "List.find (\<lambda>i. b_refcnt (bufs s i) = 0) (rev xs) = Some i"
    and u: "\<not> sl_locked (b_lock (bufs s i))"
  shows "bread ROOTDEV bn s = Inr (i, got bn i s)"
proof -
  let ?f = "\<lambda>x. x\<lparr>b_dev := ROOTDEV, b_blockno := bn, b_valid := False, b_refcnt := 1, b_lock := mine s\<rparr>"
  have io': "io_free (set_buf i ?f s)" using io by (simp add: io_free_cong [of "set_buf i ?f s" s])
  have "b_refcnt (bufs s i) = 0" using find_Some_prop [OF f] by simp
  moreover have "view s bn = disk s bn" using n by (simp add: view_def)
  ultimately have "set_buf i (\<lambda>x. (?f x)\<lparr>b_data := disk s (b_blockno (?f x)), b_disk := False, b_valid := True\<rparr>) s = got bn i s"
    unfolding got_def by (intro set_buf_cong) (rule buf.equality, simp_all)
  then show ?thesis using virtio_read [OF io', of i] by (simp add: bread_def bget_miss [OF assms])
qed

lemma bread_eq:
  assumes c: "cache H L s" and io: "io_free s" and H: "\<And>i. i \<in> H \<Longrightarrow> b_blockno (bufs s i) \<noteq> bn"
    and n: "slot s bn = None \<Longrightarrow> card H + card L < NBUF"
  shows "\<exists>i<NBUF. i \<notin> H \<and> (buf_for s bn i \<or> slot s bn = None \<and> b_refcnt (bufs s i) = 0) \<and>
    bread ROOTDEV bn s = Inr (i, got bn i s)"
proof (cases "slot s bn")
  case (Some i)
  then have "i < NBUF" "buf_for s bn i" using slot_Some by auto
  moreover from this H have "i \<notin> H" by (auto simp: buf_for_def)
  ultimately show ?thesis using bread_hit [OF c io Some] by blast
next
  case None
  obtain xs where xs: "lru s xs" using cacheD(1) [OF c] by auto
  have st: "set xs = {..<NBUF}" using xs by (simp add: lru_def)
  obtain j where "j < NBUF" "b_refcnt (bufs s j) = 0" using cache_has_free [OF c n [OF None]] by auto
  then obtain i where f: "List.find (\<lambda>i. b_refcnt (bufs s i) = 0) (rev xs) = Some i"
    using st find_None_prop [of "\<lambda>i. b_refcnt (bufs s i) = 0" "rev xs" j] by fastforce
  then have i: "i < NBUF" "b_refcnt (bufs s i) = 0" using find_Some_prop [OF f] st by auto
  have "i \<notin> H" "\<not> sl_locked (b_lock (bufs s i))"
    using cacheD(5) [OF c i(1)] i(2) by (auto simp: buf_ok_def split: if_splits)
  with i None show ?thesis using bread_miss [OF xs io None f] by blast
qed

lemma buf_for_got: "buf_for (got bn i s) bn' j \<longleftrightarrow> (if j = i then bn' = bn else buf_for s bn' j)"
  by (auto simp: buf_for_def)

lemma pinned_got: "pinned (got bn i s) L j \<longleftrightarrow> (if j = i then bn \<in> L else pinned s L j)"
  by (auto simp: pinned_def)

lemma uniq_got:
  assumes "uniq s" "buf_for s bn i \<or> slot s bn = None" "i < NBUF"
  shows "uniq (got bn i s)"
  using assms by (auto simp: uniq_def buf_for_got slot_None split: if_splits)

lemma view_got:
  assumes c: "cache H L s" and i: "i < NBUF" "buf_for s bn i \<or> slot s bn = None \<and> b_refcnt (bufs s i) = 0"
  shows "view (got bn i s) = view s"
proof
  fix bn'
  let ?s = "got bn i s"
  have u: "uniq ?s" using uniq_got [OF cacheD(2) [OF c] _ i(1)] i(2) by blast
  show "view ?s bn' = view s bn'"
  proof (cases "bn' = bn")
    case True
    then show ?thesis using view_cached [OF u i(1), of bn] by (simp add: buf_for_got)
  next
    case False
    show ?thesis
    proof (cases "buf_for s bn' i")
      case True
      have "slot ?s bn' = None"
        using True False uniqD [OF cacheD(2) [OF c] i(1)] by (auto simp: slot_None buf_for_got)
      moreover have "b_refcnt (bufs s i) = 0" using i(2) True False by (auto simp: buf_for_def)
      then have "clean s i" using cacheD(5) [OF c i(1)] by (auto simp: buf_ok_def split: if_splits)
      moreover have "slot s bn' = Some i" using True i(1) slot_uniq [OF cacheD(2) [OF c]] by simp
      ultimately show ?thesis using True by (simp add: view_def clean_def buf_for_def)
    next
      case no: False
      show ?thesis
      proof (rule view_cong)
        show "buf_for ?s bn' j = buf_for s bn' j" for j using no False by (simp add: buf_for_got)
        have "j \<noteq> i" if "buf_for s bn' j" for j using that no by auto
        then show "buf_for s bn' j \<Longrightarrow> b_valid (bufs ?s j) = b_valid (bufs s j)"
          "buf_for s bn' j \<Longrightarrow> b_data (bufs ?s j) = b_data (bufs s j)" for j by simp_all
      qed simp
    qed
  qed
qed

lemma cache_got:
  assumes c: "cache H L s" and i: "i < NBUF" "i \<notin> H"
    and b: "buf_for s bn i \<or> slot s bn = None \<and> b_refcnt (bufs s i) = 0"
  shows "cache (insert i H) L (got bn i s)"
proof -
  let ?s = "got bn i s"
  have L: "pinned s L i \<longleftrightarrow> bn \<in> L"
  proof (cases "buf_for s bn i")
    case True
    then show ?thesis by (simp add: pinned_def buf_for_def)
  next
    case False
    with b have "slot s bn = None" "b_refcnt (bufs s i) = 0" by auto
    then show ?thesis using cacheD(5) [OF c i(1)] cacheD(6) [OF c, of bn]
      by (auto simp: buf_ok_def slot_None split: if_splits)
  qed
  have ok: "buf_ok (insert i H) L ?s j" if j: "j < NBUF" for j
  proof (cases "j = i")
    case True
    show ?thesis using cacheD(5) [OF c i(1)] i(2) L
      unfolding True by (simp add: buf_ok_def pinned_got)
  next
    case False
    then show ?thesis using cacheD(5) [OF c j] by (simp add: buf_ok_def pinned_got clean_def)
  qed
  have pins: "\<exists>j<NBUF. buf_for ?s b j" if bL: "b \<in> L" for b
  proof -
    obtain j where j: "j < NBUF" "buf_for s b j" using cacheD(6) [OF c bL] by auto
    then have "pinned s L j" using bL by (simp add: pinned_def buf_for_def)
    then have "j = i \<Longrightarrow> b = bn"
      using L j b cacheD(5) [OF c j(1)] by (auto simp: buf_for_def buf_ok_def split: if_splits)
    then have "buf_for ?s b j" using j by (simp add: buf_for_got)
    then show ?thesis using j by blast
  qed
  obtain xs where "lru s xs" using cacheD(1) [OF c] by auto
  then have "lru ?s xs" by (rule lru_cong) simp_all
  moreover have "uniq ?s" using uniq_got [OF cacheD(2) [OF c] _ i(1)] b by blast
  ultimately show ?thesis unfolding cache_def
    using ok pins i cacheD(3,4) [OF c] by auto
qed

lemma bread_cache:
  assumes c: "cache H L s" and io: "io_free s" and H: "\<And>i. i \<in> H \<Longrightarrow> b_blockno (bufs s i) \<noteq> bn"
    and n: "slot s bn = None \<Longrightarrow> card H + card L < NBUF"
  obtains i where "bread ROOTDEV bn s = Inr (i, got bn i s)" "i < NBUF" "i \<notin> H"
    "cache (insert i H) L (got bn i s)" "view (got bn i s) = view s"
proof -
  obtain i where i: "i < NBUF" "i \<notin> H" "buf_for s bn i \<or> slot s bn = None \<and> b_refcnt (bufs s i) = 0"
    "bread ROOTDEV bn s = Inr (i, got bn i s)" using bread_eq [OF assms] by blast
  show thesis
    by (rule that [OF i(4) i(1,2) cache_got [OF c i(1-3)] view_got [OF c i(1) i(3)]])
qed

text \<open>A thread changes the data of a buffer that it holds.\<close>

definition set_data :: "nat \<Rightarrow> block \<Rightarrow> kstate \<Rightarrow> kstate" where
  "set_data i d = set_buf i (\<lambda>x. x\<lparr>b_data := d\<rparr>)"

lemma set_data_simps [simp]:
  "b_data (bufs (set_data i d s) j) = (if j = i then d else b_data (bufs s j))"
  "b_dev (bufs (set_data i d s) j) = b_dev (bufs s j)"
  "b_blockno (bufs (set_data i d s) j) = b_blockno (bufs s j)"
  "b_valid (bufs (set_data i d s) j) = b_valid (bufs s j)"
  "b_disk (bufs (set_data i d s) j) = b_disk (bufs s j)"
  "b_refcnt (bufs (set_data i d s) j) = b_refcnt (bufs s j)"
  "b_lock (bufs (set_data i d s) j) = b_lock (bufs s j)"
  "b_next (bufs (set_data i d s) j) = b_next (bufs s j)"
  "b_prev (bufs (set_data i d s) j) = b_prev (bufs s j)"
  "disk (set_data i d s) = disk s" "dwrites (set_data i d s) = dwrites s"
  "cur (set_data i d s) = cur s" "procs (set_data i d s) = procs s" "held (set_data i d s) = held s"
  "klog (set_data i d s) = klog s" "io_frame s (set_data i d s)" "io_free (set_data i d s) = io_free s"
  by (simp_all add: set_data_def bufs_set_buf io_free_cong [of "set_buf i _ s" s])

text \<open>
  A state whose buffers differ from those of \<open>s\<close> in their data, for held buffers, and in the
  order of the list only.
\<close>

lemma cache_same:
  assumes c: "cache H L s" and xs: "lru s' xs"
    and same: "\<And>i. i < NBUF \<Longrightarrow> b_dev (bufs s' i) = b_dev (bufs s i) \<and>
      b_blockno (bufs s' i) = b_blockno (bufs s i)"
    and ok: "\<And>i. i < NBUF \<Longrightarrow> buf_ok H' L' s' i" and H': "H' \<subseteq> {..<NBUF}"
    and L': "finite L'" "\<And>bn. bn \<in> L' \<Longrightarrow> \<exists>i<NBUF. buf_for s bn i"
  shows "cache H' L' s'"
proof -
  have bf: "buf_for s' bn i \<longleftrightarrow> buf_for s bn i" if "i < NBUF" for bn i
    using same [OF that] by (simp add: buf_for_def)
  have "uniq s'" using cacheD(2) [OF c] bf by (simp add: uniq_def)
  moreover have "\<exists>i<NBUF. buf_for s' bn i" if "bn \<in> L'" for bn using L'(2) [OF that] bf by auto
  ultimately show ?thesis unfolding cache_def using xs ok H' L'(1) by blast
qed

lemma set_data_cache:
  assumes c: "cache H L s" and i: "i \<in> H"
  shows "cache H L (set_data i d s)" "view (set_data i d s) = (view s)(b_blockno (bufs s i) := d)"
proof -
  let ?s = "set_data i d s"
  obtain xs where "lru s xs" using cacheD(1) [OF c] by auto
  then have xs: "lru ?s xs" by (rule lru_cong) simp_all
  show c': "cache H L ?s"
  proof (rule cache_same [OF c xs])
    show "buf_ok H L ?s j" if "j < NBUF" for j
      using cacheD(5) [OF c that] i by (auto simp: buf_ok_def pinned_def clean_def)
  qed (use cacheD [OF c] in auto)
  show "view ?s = (view s)(b_blockno (bufs s i) := d)"
  proof
    fix bn
    show "view ?s bn = ((view s)(b_blockno (bufs s i) := d)) bn"
    proof (cases "bn = b_blockno (bufs s i)")
      case True
      then show ?thesis using cache_held(8) [OF c' i] by simp
    next
      case False
      then have "view ?s bn = view s bn" by (intro view_cong) (auto simp: buf_for_def)
      then show ?thesis using False by simp
    qed
  qed
qed

lemma holdingsleep_held:
  assumes "cache H L s" "io_free s" "i \<in> H"
  shows "holdingsleep_buf i s = Inr (True, s)"
  using buf_lock.holdingsleep_eq [OF io_freeD(3) [OF assms(2)], of i] cache_held [OF assms(1,3)]
  by (simp add: holdingsleep_buf_def)

definition wrote :: "nat \<Rightarrow> kstate \<Rightarrow> kstate" where
  "wrote i s = s\<lparr>disk := (disk s)(b_blockno (bufs s i) := b_data (bufs s i)),
     dwrites := dwrites s @ [(b_blockno (bufs s i), b_data (bufs s i))]\<rparr>"

lemma wrote_simps [simp]:
  "bufs (wrote i s) = bufs s" "cur (wrote i s) = cur s" "procs (wrote i s) = procs s"
  "held (wrote i s) = held s" "klog (wrote i s) = klog s" "io_frame s (wrote i s)"
  "io_free (wrote i s) = io_free s"
  "disk (wrote i s) = (disk s)(b_blockno (bufs s i) := b_data (bufs s i))"
  "dwrites (wrote i s) = dwrites s @ [(b_blockno (bufs s i), b_data (bufs s i))]"
  by (simp_all add: wrote_def io_frame_def io_free_def no_plocks_def)

lemma bwrite_cache:
  assumes c: "cache H L s" and io: "io_free s" and i: "i \<in> H"
  shows "bwrite i s = Inr (wrote i s)" "cache H L (wrote i s)" "view (wrote i s) = view s"
    "clean (wrote i s) i"
proof -
  let ?s = "wrote i s"
  show "bwrite i s = Inr ?s"
    by (simp add: bwrite_def holdingsleep_held [OF assms] virtio_write [OF io cache_held(2) [OF c i]] wrote_def)
  show "clean ?s i" by (simp add: clean_def)
  obtain xs where "lru s xs" using cacheD(1) [OF c] by auto
  then have xs: "lru ?s xs" by (rule lru_cong) simp_all
  have other: "b_dev (bufs s j) = ROOTDEV \<Longrightarrow> b_blockno (bufs s j) = b_blockno (bufs s i) \<Longrightarrow> j = i"
    if "j < NBUF" for j
    using uniqD [OF cacheD(2) [OF c] that cache_held(1) [OF c i]] cache_held(5) [OF c i]
    by (auto simp: buf_for_def)
  show "cache H L ?s"
  proof (rule cache_same [OF c xs])
    show "buf_ok H L ?s j" if "j < NBUF" for j
      using cacheD(5) [OF c that] i other [OF that] by (auto simp: buf_ok_def pinned_def clean_def)
  qed (use cacheD [OF c] in auto)
  show "view ?s = view s"
  proof
    fix bn
    have "slot ?s bn = slot s bn" by (rule slot_cong) (simp add: buf_for_def)
    moreover have "slot s (b_blockno (bufs s i)) = Some i"
      using slot_uniq [OF cacheD(2) [OF c]] cache_held [OF c i] by (simp add: buf_for_def)
    ultimately show "view ?s bn = view s bn"
      using cache_held(6) [OF c i] by (auto simp: view_def split: option.splits)
  qed
qed

text \<open>
  Releasing a buffer: the lock is free, the reference is gone, and an unreferenced buffer is the
  most recently used one.
\<close>

definition released :: "nat \<Rightarrow> kstate \<Rightarrow> kstate" where
  "released i s =
     (let s = set_buf i (\<lambda>x. x\<lparr>b_lock := \<lparr>sl_locked = False, sl_pid = 0\<rparr>, b_refcnt := b_refcnt x - 1\<rparr>)
                (s\<lparr>procs := woken (Chan_buf i) 0 (cur s) (procs s)\<rparr>)
      in if b_refcnt (bufs s i) = 0 then link_front i (unlink_buf i s) else s)"

lemma links_frame [simp]:
  "b_data (bufs (link_front i s) j) = b_data (bufs s j)"
  "b_dev (bufs (link_front i s) j) = b_dev (bufs s j)"
  "b_blockno (bufs (link_front i s) j) = b_blockno (bufs s j)"
  "b_valid (bufs (link_front i s) j) = b_valid (bufs s j)"
  "b_disk (bufs (link_front i s) j) = b_disk (bufs s j)"
  "b_refcnt (bufs (link_front i s) j) = b_refcnt (bufs s j)"
  "b_lock (bufs (link_front i s) j) = b_lock (bufs s j)"
  "b_data (bufs (unlink_buf i s) j) = b_data (bufs s j)"
  "b_dev (bufs (unlink_buf i s) j) = b_dev (bufs s j)"
  "b_blockno (bufs (unlink_buf i s) j) = b_blockno (bufs s j)"
  "b_valid (bufs (unlink_buf i s) j) = b_valid (bufs s j)"
  "b_disk (bufs (unlink_buf i s) j) = b_disk (bufs s j)"
  "b_refcnt (bufs (unlink_buf i s) j) = b_refcnt (bufs s j)"
  "b_lock (bufs (unlink_buf i s) j) = b_lock (bufs s j)"
  by (simp_all add: link_front_def unlink_buf_def bufs_set_buf Let_def)

lemma links_frame2 [simp]:
  "disk (link_front i s) = disk s" "dwrites (link_front i s) = dwrites s"
  "cur (link_front i s) = cur s" "procs (link_front i s) = procs s" "held (link_front i s) = held s"
  "klog (link_front i s) = klog s"
  "disk (unlink_buf i s) = disk s" "dwrites (unlink_buf i s) = dwrites s"
  "cur (unlink_buf i s) = cur s" "procs (unlink_buf i s) = procs s" "held (unlink_buf i s) = held s"
  "klog (unlink_buf i s) = klog s"
  by (simp_all add: link_front_def unlink_buf_def Let_def)

lemma links_held:
  "link_front i (s\<lparr>held := h\<rparr>) = (link_front i s)\<lparr>held := h\<rparr>"
  "unlink_buf i (s\<lparr>held := h\<rparr>) = (unlink_buf i s)\<lparr>held := h\<rparr>"
  by (simp_all add: link_front_def unlink_buf_def Let_def set_buf_def)

lemma links_io_frame: "io_frame s (link_front i s)" "io_frame s (unlink_buf i s)"
  by (simp_all add: link_front_def unlink_buf_def Let_def set_buf_def io_frame_def)

lemma brelse_eq:
  assumes "cache H L s" "io_free s" "i \<in> H"
  shows "brelse i s = Inr (released i s)"
proof -
  let ?w = "\<lambda>s. s\<lparr>procs := woken (Chan_buf i) 0 (cur s) (procs s)\<rparr>"
  let ?s1 = "?w (set_buf i (\<lambda>x. x\<lparr>b_lock := \<lparr>sl_locked = False, sl_pid = 0\<rparr>\<rparr>) s)"
  have "releasesleep_buf i s = Inr ?s1"
    unfolding releasesleep_buf_def
    using buf_lock.releasesleep_eq [OF io_freeD(3,4) [OF assms(2)], of i] by simp
  moreover have "Lk_bcache \<notin> set (held ?s1)" using io_freeD(1) [OF assms(2)] by simp
  moreover have "set_buf i (\<lambda>x. x\<lparr>b_refcnt := b_refcnt x - 1\<rparr>) ?s1 =
      set_buf i (\<lambda>x. x\<lparr>b_lock := \<lparr>sl_locked = False, sl_pid = 0\<rparr>, b_refcnt := b_refcnt x - 1\<rparr>) (?w s)"
    by (simp add: set_buf_def)
  ultimately show ?thesis
    by (simp add: brelse_def holdingsleep_held [OF assms] released_def Let_def
        set_buf_held [symmetric] links_held del: set_buf_held)
qed

lemma released_simps [simp]:
  "b_data (bufs (released i s) j) = b_data (bufs s j)"
  "b_dev (bufs (released i s) j) = b_dev (bufs s j)"
  "b_blockno (bufs (released i s) j) = b_blockno (bufs s j)"
  "b_valid (bufs (released i s) j) = b_valid (bufs s j)"
  "b_disk (bufs (released i s) j) = b_disk (bufs s j)"
  "b_refcnt (bufs (released i s) j) = (if j = i then b_refcnt (bufs s i) - 1 else b_refcnt (bufs s j))"
  "b_lock (bufs (released i s) j) =
     (if j = i then \<lparr>sl_locked = False, sl_pid = 0\<rparr> else b_lock (bufs s j))"
  "disk (released i s) = disk s" "dwrites (released i s) = dwrites s" "cur (released i s) = cur s"
  "held (released i s) = held s" "klog (released i s) = klog s"
  "procs (released i s) = woken (Chan_buf i) 0 (cur s) (procs s)"
  by (simp_all add: released_def Let_def bufs_set_buf)

lemma woken_as_state: "woken ch k me ps p = (ps p)\<lparr>p_state := p_state (woken ch k me ps p)\<rparr>"
  by (simp add: woken_def)

lemma wake_io_frame: "io_frame s (s\<lparr>procs := woken ch k (cur s) (procs s)\<rparr>)"
  by (simp add: io_frame_def woken_as_state [symmetric])

lemma released_frame [simp]: "io_frame s (released i s)" "io_free (released i s) = io_free s"
proof -
  let ?s1 = "s\<lparr>procs := woken (Chan_buf i) 0 (cur s) (procs s)\<rparr>"
  let ?s2 = "set_buf i (\<lambda>x. x\<lparr>b_lock := \<lparr>sl_locked = False, sl_pid = 0\<rparr>, b_refcnt := b_refcnt x - 1\<rparr>) ?s1"
  have "io_frame s ?s2" using wake_io_frame set_buf_frame(6) by (rule io_frame_trans)
  moreover have "io_frame ?s2 (link_front i (unlink_buf i ?s2))"
    using links_io_frame(2,1) by (rule io_frame_trans)
  ultimately have "io_frame s (link_front i (unlink_buf i ?s2))" by (rule io_frame_trans)
  with \<open>io_frame s ?s2\<close> show "io_frame s (released i s)" by (simp add: released_def Let_def)
  then show "io_free (released i s) = io_free s" by (rule io_frameD)
qed

lemma lru_released:
  assumes "lru s xs" "i < NBUF"
  shows "lru (released i s) (if b_refcnt (bufs s i) = 1 then i # remove1 i xs else xs)"
proof -
  let ?s1 = "s\<lparr>procs := woken (Chan_buf i) 0 (cur s) (procs s)\<rparr>"
  let ?s2 = "set_buf i (\<lambda>x. x\<lparr>b_lock := \<lparr>sl_locked = False, sl_pid = 0\<rparr>, b_refcnt := b_refcnt x - 1\<rparr>) ?s1"
  have l: "lru ?s2 xs" using assms(1) by (rule lru_cong) (simp_all add: bufs_set_buf)
  show ?thesis using lru_unlink_push [OF l assms(2)] l by (simp add: released_def Let_def)
qed

lemma brelse_cache:
  assumes c: "cache H L s" and i: "i \<in> H" and cl: "b_blockno (bufs s i) \<in> L \<or> clean s i"
  shows "cache (H - {i}) L (released i s)" "view (released i s) = view s"
proof -
  let ?s = "released i s"
  note h = cache_held [OF c i]
  obtain xs where "lru s xs" using cacheD(1) [OF c] by auto
  then obtain ys where ys: "lru ?s ys" using lru_released [OF _ h(1)] by metis
  show "cache (H - {i}) L ?s"
  proof (rule cache_same [OF c ys])
    show "buf_ok (H - {i}) L ?s j" if "j < NBUF" for j
      using cacheD(5) [OF c that] i cl h by (auto simp: buf_ok_def pinned_def clean_def)
    show "H - {i} \<subseteq> {..<NBUF}" using cacheD(3) [OF c] by auto
  qed (use cacheD [OF c] in auto)
  show "view ?s = view s" by (rule ext, rule view_cong) (simp_all add: buf_for_def)
qed

text \<open>Pinning a held buffer, and taking the pin back.\<close>

definition add_ref :: "nat \<Rightarrow> u32 \<Rightarrow> kstate \<Rightarrow> kstate" where
  "add_ref i r = set_buf i (\<lambda>x. x\<lparr>b_refcnt := b_refcnt x + r\<rparr>)"

lemma add_ref_simps [simp]:
  "b_data (bufs (add_ref i r s) j) = b_data (bufs s j)"
  "b_dev (bufs (add_ref i r s) j) = b_dev (bufs s j)"
  "b_blockno (bufs (add_ref i r s) j) = b_blockno (bufs s j)"
  "b_valid (bufs (add_ref i r s) j) = b_valid (bufs s j)"
  "b_disk (bufs (add_ref i r s) j) = b_disk (bufs s j)"
  "b_refcnt (bufs (add_ref i r s) j) = (if j = i then b_refcnt (bufs s i) + r else b_refcnt (bufs s j))"
  "b_lock (bufs (add_ref i r s) j) = b_lock (bufs s j)"
  "b_next (bufs (add_ref i r s) j) = b_next (bufs s j)"
  "b_prev (bufs (add_ref i r s) j) = b_prev (bufs s j)"
  "disk (add_ref i r s) = disk s" "dwrites (add_ref i r s) = dwrites s"
  "cur (add_ref i r s) = cur s" "procs (add_ref i r s) = procs s" "held (add_ref i r s) = held s"
  "klog (add_ref i r s) = klog s" "io_frame s (add_ref i r s)" "io_free (add_ref i r s) = io_free s"
  by (simp_all add: add_ref_def bufs_set_buf io_free_cong [of "set_buf i _ s" s])

lemma bpin_eq: "io_free s \<Longrightarrow> bpin i s = Inr (add_ref i 1 s)"
  by (simp add: bpin_def io_freeD add_ref_def)

lemma bunpin_eq: "io_free s \<Longrightarrow> bunpin i s = Inr (add_ref i (-1) s)"
  by (simp add: bunpin_def io_freeD add_ref_def)

lemma view_add_ref [simp]: "view (add_ref i r s) = view s"
  by (rule ext, rule view_cong) (simp_all add: buf_for_def)

lemma pinned_only:
  assumes c: "cache H L s" and i: "i \<in> H" and j: "j < NBUF" "j \<noteq> i"
  shows "pinned s (insert (b_blockno (bufs s i)) L) j = pinned s L j"
    "pinned s (L - {b_blockno (bufs s i)}) j = pinned s L j"
  using uniqD [OF cacheD(2) [OF c] j(1) cache_held(1) [OF c i]] j cache_held(5) [OF c i]
  by (auto simp: pinned_def buf_for_def)

lemma bpin_cache:
  assumes c: "cache H L s" and i: "i \<in> H" and n: "b_blockno (bufs s i) \<notin> L"
  shows "cache H (insert (b_blockno (bufs s i)) L) (add_ref i 1 s)"
proof -
  let ?s = "add_ref i 1 s" and ?L = "insert (b_blockno (bufs s i)) L"
  note h = cache_held [OF c i]
  obtain xs where "lru s xs" using cacheD(1) [OF c] by auto
  then have xs: "lru ?s xs" by (rule lru_cong) simp_all
  have p: "pinned ?s ?L j = (j = i \<or> pinned s L j)" if "j < NBUF" for j
    using pinned_only(1) [OF c i that] h(5) by (cases "j = i") (auto simp: pinned_def)
  show ?thesis
  proof (rule cache_same [OF c xs])
    show "buf_ok H ?L ?s j" if "j < NBUF" for j
      using cacheD(5) [OF c that] h i n p [OF that]
      by (auto simp: buf_ok_def pinned_def clean_def)
    show "\<exists>i<NBUF. buf_for s bn i" if "bn \<in> ?L" for bn
      using that cacheD(6) [OF c, of bn] h by (auto simp: buf_for_def)
  qed (use cacheD(3,4) [OF c] in auto)
qed

lemma bunpin_cache:
  assumes c: "cache H L s" and i: "i \<in> H" and n: "b_blockno (bufs s i) \<in> L"
  shows "cache H (L - {b_blockno (bufs s i)}) (add_ref i (-1) s)"
proof -
  let ?s = "add_ref i (-1) s" and ?L = "L - {b_blockno (bufs s i)}"
  note h = cache_held [OF c i]
  obtain xs where "lru s xs" using cacheD(1) [OF c] by auto
  then have xs: "lru ?s xs" by (rule lru_cong) simp_all
  have p: "pinned ?s ?L j = (j \<noteq> i \<and> pinned s L j)" if "j < NBUF" for j
    using pinned_only(2) [OF c i that] h(5) by (cases "j = i") (auto simp: pinned_def)
  show ?thesis
  proof (rule cache_same [OF c xs])
    show "buf_ok H ?L ?s j" if "j < NBUF" for j
      using cacheD(5) [OF c that] h i n p [OF that]
      by (auto simp: buf_ok_def pinned_def clean_def)
  qed (use cacheD(3,4,6) [OF c] in auto)
qed

text \<open>A block that is neither held nor pinned is on the disk.\<close>

lemma view_clean:
  assumes c: "cache H L s" and bn: "bn \<notin> L" "\<And>i. i \<in> H \<Longrightarrow> b_blockno (bufs s i) \<noteq> bn"
  shows "view s bn = disk s bn"
proof (cases "slot s bn")
  case (Some i)
  then have i: "i < NBUF" "buf_for s bn i" using slot_Some by auto
  then have "i \<notin> H" "\<not> pinned s L i" using bn by (auto simp: buf_for_def pinned_def)
  then have "clean s i" using cacheD(5) [OF c i(1)] by (simp add: buf_ok_def)
  then show ?thesis using Some i by (simp add: view_def clean_def buf_for_def)
qed (simp add: view_def)

lemma clean_got: "view s bn = disk s bn \<Longrightarrow> clean (got bn i s) i"
  by (simp add: clean_def)

subsection \<open>Initialisation\<close>

lemma binit_step_links:
  assumes "b < NBUF" "nexts s NBUF \<noteq> b"
  shows "nexts (binit_step b s) = (nexts s)(b := nexts s NBUF, NBUF := b)"
    "prevs (binit_step b s) = (prevs s)(b := NBUF, nexts s NBUF := b)"
  using assms by (simp_all add: binit_step_def bufs_set_buf Let_def fun_eq_iff)

lemma binit_step_frame:
  "b_dev (bufs (binit_step b s) j) = b_dev (bufs s j)"
  "b_disk (bufs (binit_step b s) j) = b_disk (bufs s j)"
  "b_refcnt (bufs (binit_step b s) j) = b_refcnt (bufs s j)"
  "b_lock (bufs (binit_step b s) j) =
     (if j = b then initsleeplock (b_lock (bufs s b)) else b_lock (bufs s j))"
  "disk (binit_step b s) = disk s" "held (binit_step b s) = held s"
  "dwrites (binit_step b s) = dwrites s" "klog (binit_step b s) = klog s" "io_frame s (binit_step b s)"
  by (simp_all add: binit_step_def bufs_set_buf Let_def) (simp add: io_frame_def set_buf_def)

lemma fold_binit_links:
  assumes "k \<le> NBUF" "linked (nexts s) (prevs s) NBUF [] NBUF"
  shows "linked (nexts (fold binit_step [0..<k] s)) (prevs (fold binit_step [0..<k] s))
    NBUF (rev [0..<k]) NBUF"
  using assms(1)
proof (induction k)
  case 0
  then show ?case using assms(2) by simp
next
  case (Suc k)
  let ?t = "fold binit_step [0..<k] s"
  have IH: "linked (nexts ?t) (prevs ?t) NBUF (rev [0..<k]) NBUF" using Suc by simp
  have k: "k < NBUF" using Suc.prems by simp
  have "hd (rev [0..<k] @ [NBUF]) \<noteq> k" using k by (cases k) simp_all
  then have n: "nexts ?t NBUF \<noteq> k" unfolding linked_first [OF IH] .
  have "linked (nexts (binit_step k ?t)) (prevs (binit_step k ?t)) NBUF (k # rev [0..<k]) NBUF"
    unfolding binit_step_links [OF k n] using k by (intro linked_push IH) simp_all
  then show ?case by simp
qed

lemma fold_binit_frame:
  "b_dev (bufs (fold binit_step xs s) j) = b_dev (bufs s j)"
  "b_disk (bufs (fold binit_step xs s) j) = b_disk (bufs s j)"
  "b_refcnt (bufs (fold binit_step xs s) j) = b_refcnt (bufs s j)"
  "sl_locked (b_lock (bufs (fold binit_step xs s) j)) = (j \<notin> set xs \<and> sl_locked (b_lock (bufs s j)))"
  "disk (fold binit_step xs s) = disk s" "held (fold binit_step xs s) = held s"
  "dwrites (fold binit_step xs s) = dwrites s" "klog (fold binit_step xs s) = klog s"
  by (induction xs arbitrary: s) (auto simp: binit_step_frame initsleeplock_def)

lemma fold_binit_io_frame: "io_frame s (fold binit_step xs s)"
proof (induction xs arbitrary: s)
  case (Cons x xs)
  show ?case using io_frame_trans [OF binit_step_frame(9) Cons] by simp
qed simp

lemma binit_lru: "lru (binit s) (rev [0..<NBUF])"
proof -
  let ?s = "set_buf NBUF (\<lambda>x. x\<lparr>b_prev := NBUF, b_next := NBUF\<rparr>) s"
  have "linked (nexts ?s) (prevs ?s) NBUF [] NBUF" by simp
  then have "linked (nexts (binit s)) (prevs (binit s)) NBUF (rev [0..<NBUF]) NBUF"
    unfolding binit_def by (rule fold_binit_links [OF order_refl])
  moreover have "set (rev [0..<NBUF]) = {..<NBUF}" by (simp only: set_rev set_upt atLeast0LessThan)
  ultimately show ?thesis unfolding lru_def by (simp only: distinct_rev distinct_upt simp_thms)
qed

lemma binit_frame [simp]:
  "disk (binit s) = disk s" "held (binit s) = held s" "dwrites (binit s) = dwrites s"
  "klog (binit s) = klog s" "io_frame s (binit s)"
  unfolding binit_def
  by (simp_all add: fold_binit_frame) (rule io_frame_trans [OF _ fold_binit_io_frame], simp)

text \<open>The buffers as the loader leaves them, in zeroed memory.\<close>

definition bss_bufs :: "kstate \<Rightarrow> bool" where
  "bss_bufs s \<longleftrightarrow> (\<forall>i<NBUF. b_dev (bufs s i) = 0 \<and> b_refcnt (bufs s i) = 0 \<and> \<not> b_disk (bufs s i))"

lemma bss_kstate0: "bss_bufs (kstate0 e d)"
  by (simp add: bss_bufs_def kstate0_def buf0_def)

lemma binit_cache:
  assumes "bss_bufs s"
  shows "cache {} {} (binit s)" "view (binit s) = disk s"
proof -
  let ?s = "binit s"
  have d: "b_dev (bufs ?s i) = 0" "b_refcnt (bufs ?s i) = 0" "\<not> b_disk (bufs ?s i)"
    "\<not> sl_locked (b_lock (bufs ?s i))" if "i < NBUF" for i
    using assms that by (simp_all add: binit_def bss_bufs_def fold_binit_frame bufs_set_buf)
  have n: "\<not> buf_for ?s bn i" if "i < NBUF" for bn i using d(1) [OF that] by (simp add: buf_for_def)
  have "buf_ok {} {} ?s i" if "i < NBUF" for i
    using d [OF that] by (simp add: buf_ok_def pinned_def clean_def)
  moreover have "uniq ?s" using n by (simp add: uniq_def)
  ultimately show "cache {} {} ?s" unfolding cache_def using binit_lru by blast
  show "view ?s = disk s"
  proof
    fix bn
    have "slot ?s bn = None" using n by (simp add: slot_None)
    then show "view ?s bn = disk s bn" by (simp add: view_def)
  qed
qed

lemma io_free_kstate0 [simp]: "io_free (kstate0 e d)"
  by (simp add: io_free_def no_plocks_def kstate0_def)

lemma io_free_binit [simp]: "io_free (binit s) = io_free s"
  using io_frameD(18) [OF binit_frame(5)] .

subsection \<open>Properties\<close>

text \<open>
  C6: \<^verbatim>\<open>bread\<close> returns a locked buffer of the block asked for whose data is the one
  value that the cache and the disk have for the block; no reader sees another value of any
  block, the disk is not written, and the block still has one buffer.
\<close>

theorem bread_returns_block:
  assumes "cache H L s" "io_free s" "\<forall>i\<in>H. b_blockno (bufs s i) \<noteq> bn"
    "slot s bn = None \<longrightarrow> card H + card L < NBUF"
  shows "\<exists>i s'. bread ROOTDEV bn s = Inr (i, s') \<and> i < NBUF \<and> i \<notin> H \<and>
    b_blockno (bufs s' i) = bn \<and> b_data (bufs s' i) = view s bn \<and> b_lock (bufs s' i) = mine s \<and>
    view s' = view s \<and> disk s' = disk s \<and> cache (insert i H) L s'"
proof -
  obtain i where "bread ROOTDEV bn s = Inr (i, got bn i s)" "i < NBUF" "i \<notin> H"
    "cache (insert i H) L (got bn i s)" "view (got bn i s) = view s"
    by (rule bread_cache [OF assms(1,2)]) (use assms(3,4) in auto)
  then show ?thesis by auto
qed

theorem bread_returns_block_witness:
  "\<exists>i s'. bread ROOTDEV 7 (binit (kstate0 0 (\<lambda>b k. ucast b))) = Inr (i, s') \<and> i < NBUF \<and>
     b_data (bufs s' i) 100 = 7"
proof -
  let ?s = "binit (kstate0 0 (\<lambda>b k. ucast b))"
  have "\<exists>i s'. bread ROOTDEV 7 ?s = Inr (i, s') \<and> i < NBUF \<and> i \<notin> {} \<and>
    b_blockno (bufs s' i) = 7 \<and> b_data (bufs s' i) = view ?s 7 \<and> b_lock (bufs s' i) = mine ?s \<and>
    view s' = view ?s \<and> disk s' = disk ?s \<and> cache (insert i {}) {} s'"
    by (rule bread_returns_block [OF binit_cache(1) [OF bss_kstate0]]) simp_all
  moreover have "view ?s 7 100 = 7" using binit_cache(2) [OF bss_kstate0]
    by (simp add: kstate0_def)
  ultimately show ?thesis by fastforce
qed

text \<open>
  C7: with no buffer for the block, \<^verbatim>\<open>bget\<close> recycles the least recently used buffer
  among those without references: every buffer behind it in the list is referenced. If all
  are referenced it panics.
\<close>

theorem bget_recycles_lru:
  assumes "lru s xs" "io_free s" "slot s bn = None"
    "\<forall>i<NBUF. b_refcnt (bufs s i) = 0 \<longrightarrow> \<not> sl_locked (b_lock (bufs s i))"
  shows "(\<forall>i<NBUF. b_refcnt (bufs s i) \<noteq> 0) \<and> bget ROOTDEV bn s = Inl (Panic ''bget: no buffers'') \<or>
    (\<exists>ys i zs s'. xs = ys @ i # zs \<and> b_refcnt (bufs s i) = 0 \<and> (\<forall>j\<in>set zs. b_refcnt (bufs s j) \<noteq> 0) \<and>
       bget ROOTDEV bn s = Inr (i, s') \<and> b_blockno (bufs s' i) = bn \<and> \<not> b_valid (bufs s' i) \<and>
       b_refcnt (bufs s' i) = 1 \<and> (\<forall>j. j \<noteq> i \<longrightarrow> bufs s' j = bufs s j))"
proof (cases "List.find (\<lambda>i. b_refcnt (bufs s i) = 0) (rev xs)")
  case None
  have st: "set xs = {..<NBUF}" using assms(1) by (simp add: lru_def)
  have "List.find (\<lambda>i. b_dev (bufs s i) = ROOTDEV \<and> b_blockno (bufs s i) = bn) xs = None"
    using assms(3) st by (auto simp: find_None_iff slot_None buf_for_def)
  then have "bget ROOTDEV bn s = Inl (Panic ''bget: no buffers'')"
    unfolding bget_def using io_freeD(1) [OF assms(2)]
    by (simp add: lru_find_next [OF assms(1)] lru_find_prev [OF assms(1)] None)
  moreover have "\<forall>i<NBUF. b_refcnt (bufs s i) \<noteq> 0" using None st by (auto simp: find_None_iff)
  ultimately show ?thesis by blast
next
  case (Some i)
  obtain us vs where us: "rev xs = us @ i # vs" "\<forall>j\<in>set us. b_refcnt (bufs s j) \<noteq> 0"
    using find_split [OF Some] by auto
  define ys zs where "ys = rev vs" and "zs = rev us"
  have x: "xs = ys @ i # zs" using us(1) unfolding ys_def zs_def by (simp add: rev_swap)
  have z: "\<forall>j\<in>set zs. b_refcnt (bufs s j) \<noteq> 0" using us(2) by (simp add: zs_def)
  have i: "b_refcnt (bufs s i) = 0" "i < NBUF"
    using find_Some_prop [OF Some] assms(1) by (auto simp: lru_def)
  then have "\<not> sl_locked (b_lock (bufs s i))" using assms(4) by simp
  note g = bget_miss [OF assms(1-3) Some this]
  define s' where "s' = set_buf i (\<lambda>x. x\<lparr>b_dev := ROOTDEV, b_blockno := bn, b_valid := False,
    b_refcnt := 1, b_lock := mine s\<rparr>) s"
  have "b_blockno (bufs s' i) = bn" "\<not> b_valid (bufs s' i)" "b_refcnt (bufs s' i) = 1"
    "\<forall>j. j \<noteq> i \<longrightarrow> bufs s' j = bufs s j" by (simp_all add: s'_def bufs_set_buf)
  with x i z g [folded s'_def] show ?thesis by blast
qed

theorem bget_recycles_lru_witness:
  "\<exists>s'. bget ROOTDEV 7 (binit (kstate0 0 (\<lambda>b k. 0))) = Inr (0, s') \<and> b_blockno (bufs s' 0) = 7"
proof -
  let ?s = "binit (kstate0 0 (\<lambda>b k. 0))"
  have c: "cache {} {} ?s" by (rule binit_cache [OF bss_kstate0])
  have r: "b_refcnt (bufs ?s i) = 0" "\<not> sl_locked (b_lock (bufs ?s i))" if "i < NBUF" for i
    using cacheD(5) [OF c that] by (simp_all add: buf_ok_def pinned_def)
  have "slot ?s 7 = None"
    by (simp add: slot_None buf_for_def binit_def fold_binit_frame bufs_set_buf kstate0_def buf0_def)
  then have "(\<forall>i<NBUF. b_refcnt (bufs ?s i) \<noteq> 0) \<and> bget ROOTDEV 7 ?s = Inl (Panic ''bget: no buffers'') \<or>
    (\<exists>ys i zs s'. rev [0..<NBUF] = ys @ i # zs \<and> b_refcnt (bufs ?s i) = 0 \<and>
       (\<forall>j\<in>set zs. b_refcnt (bufs ?s j) \<noteq> 0) \<and>
       bget ROOTDEV 7 ?s = Inr (i, s') \<and> b_blockno (bufs s' i) = 7 \<and> \<not> b_valid (bufs s' i) \<and>
       b_refcnt (bufs s' i) = 1 \<and> (\<forall>j. j \<noteq> i \<longrightarrow> bufs s' j = bufs ?s j))"
    using r by (intro bget_recycles_lru binit_lru) simp_all
  moreover have "b_refcnt (bufs ?s 0) = 0" using r by simp
  ultimately obtain ys i zs s' where e: "rev [0..<NBUF] = ys @ i # zs"
    and z: "\<forall>j\<in>set zs. b_refcnt (bufs ?s j) \<noteq> 0"
    and g: "bget ROOTDEV 7 ?s = Inr (i, s')" "b_blockno (bufs s' i) = 7" by fastforce
  have "set zs \<subseteq> {..<NBUF}" using arg_cong [OF e, of set] by (auto simp: atLeast0LessThan)
  then have "zs = []" using z r(1) by (cases zs) auto
  then have "i = last (rev [0..<NBUF])" unfolding e by simp
  then have "i = 0" by (simp add: last_rev hd_upt)
  with g show ?thesis by blast
qed

text \<open>
  C8: \<^verbatim>\<open>brelse\<close> of a held buffer makes it the most recently used one when no reference
  is left, keeps the relative order of the others, and changes no block.
\<close>

theorem brelse_moves_to_front:
  assumes "cache H L s" "io_free s" "i \<in> H" "lru s xs" "b_blockno (bufs s i) \<in> L \<or> clean s i"
  shows "\<exists>s'. brelse i s = Inr s' \<and> cache (H - {i}) L s' \<and> view s' = view s \<and> disk s' = disk s \<and>
    \<not> sl_locked (b_lock (bufs s' i)) \<and>
    lru s' (if b_blockno (bufs s i) \<in> L then xs else i # remove1 i xs)"
proof -
  have "b_refcnt (bufs s i) = 1 \<longleftrightarrow> b_blockno (bufs s i) \<notin> L"
    using cache_held [OF assms(1,3)] by (simp add: pinned_def)
  then have "lru (released i s) (if b_blockno (bufs s i) \<in> L then xs else i # remove1 i xs)"
    using lru_released [OF assms(4) cache_held(1) [OF assms(1,3)]] by (auto split: if_splits)
  then show ?thesis using brelse_eq [OF assms(1-3)] brelse_cache [OF assms(1,3,5)] by auto
qed

theorem brelse_moves_to_front_witness:
  "\<exists>i s s'. bread ROOTDEV 7 (binit (kstate0 0 (\<lambda>b k. 0))) = Inr (i, s) \<and> brelse i s = Inr s' \<and>
     view s' 7 = (\<lambda>k. 0) \<and> b_next (bufs s' NBUF) = i"
proof -
  let ?s = "binit (kstate0 0 (\<lambda>b k. 0))"
  note b = binit_cache [OF bss_kstate0, of 0 "\<lambda>b k. 0"]
  obtain i where i: "bread ROOTDEV 7 ?s = Inr (i, got 7 i ?s)" "i < NBUF"
    "cache (insert i {}) {} (got 7 i ?s)" "view (got 7 i ?s) = view ?s"
    by (rule bread_cache [OF b(1), of 7]) auto
  have "lru (got 7 i ?s) (rev [0..<NBUF])" using binit_lru by (rule lru_cong) simp_all
  moreover have "clean (got 7 i ?s) i"
    using b(2) by (simp add: clean_def)
  moreover have "io_free (got 7 i ?s)" by (simp add: io_free_cong [of _ "kstate0 0 (\<lambda>b k. 0)"])
  ultimately have "\<exists>s'. brelse i (got 7 i ?s) = Inr s' \<and> cache (insert i {} - {i}) {} s' \<and>
      view s' = view (got 7 i ?s) \<and> disk s' = disk (got 7 i ?s) \<and> \<not> sl_locked (b_lock (bufs s' i)) \<and>
      lru s' (if b_blockno (bufs (got 7 i ?s) i) \<in> {} then rev [0..<NBUF] else i # remove1 i (rev [0..<NBUF]))"
    by (intro brelse_moves_to_front i(3)) simp_all
  then obtain s' where s': "brelse i (got 7 i ?s) = Inr s'" "view s' = view ?s"
    "lru s' (i # remove1 i (rev [0..<NBUF]))" using i(4) by auto
  have "b_next (bufs s' NBUF) = i" using s'(3) unfolding lru_def linked.simps(2) by blast
  moreover have "view s' 7 = (\<lambda>k. 0)" using s'(2) b(2) by (simp add: kstate0_def)
  ultimately show ?thesis using i(1) s'(1) by blast
qed

end
