(* ===== verification/Log.thy ===== *)
theory Log
  imports Bio
begin

text \<open>
  The write-ahead log, \<^verbatim>\<open>kernel/log.c\<close>. The main results are that \<^verbatim>\<open>commit\<close>
  installs exactly the logged blocks, that a crash between any two disk writes of a commit
  leaves a disk from which recovery restores either the state before or the state after the
  transaction, and that \<^verbatim>\<open>begin_op\<close> admits no more operations than the log has
  space for. The message that \<^verbatim>\<open>install_trans\<close> prints while recovering is console output,
  which this theory leaves out.
\<close>

subsection \<open>Operations\<close>

definition set_log :: "(logstate \<Rightarrow> logstate) \<Rightarrow> kstate \<Rightarrow> kstate" where
  "set_log f s = s\<lparr>klog := f (klog s)\<rparr>"

abbreviation log_n :: "kstate \<Rightarrow> int" where
  "log_n s \<equiv> lh_n (log_lh (klog s))"

abbreviation log_block :: "kstate \<Rightarrow> nat \<Rightarrow> u32" where
  "log_block s \<equiv> lh_block (log_lh (klog s))"

definition set_lh_n :: "int \<Rightarrow> kstate \<Rightarrow> kstate" where
  "set_lh_n n = set_log (\<lambda>l. l\<lparr>log_lh := (log_lh l)\<lparr>lh_n := n\<rparr>\<rparr>)"

text \<open>The block \<^verbatim>\<open>log.start+tail+1\<close>.\<close>

definition log_slot :: "kstate \<Rightarrow> nat \<Rightarrow> u32" where
  "log_slot s tail = log_start (klog s) + of_nat tail + 1"

text \<open>
  The loops over the log take the number of blocks left, initially \<^verbatim>\<open>log.lh.n\<close>, which
  their bodies do not change, and the index \<^verbatim>\<open>tail\<close>.
\<close>

primrec install_loop :: "nat \<Rightarrow> bool \<Rightarrow> nat \<Rightarrow> kstate \<Rightarrow> kstate result" where
  "install_loop 0 recovering tail s = Inr s"
| "install_loop (Suc k) recovering tail s =
     rbind (bread (log_dev (klog s)) (log_slot s tail) s) (\<lambda>(lbuf, s).
     rbind (bread (log_dev (klog s)) (log_block s tail) s) (\<lambda>(dbuf, s).
     rbind (bwrite dbuf (set_data dbuf (b_data (bufs s lbuf)) s)) (\<lambda>s.
     rbind (if \<not> recovering then bunpin dbuf s else Inr s) (\<lambda>s.
     rbind (brelse lbuf s) (\<lambda>s.
     rbind (brelse dbuf s) (\<lambda>s.
     install_loop k recovering (Suc tail) s))))))"

definition install_trans :: "bool \<Rightarrow> kstate \<Rightarrow> kstate result" where
  "install_trans recovering s = install_loop (nat (log_n s)) recovering 0 s"

text \<open>
  The header block holds \<^verbatim>\<open>n\<close> and then the block numbers, four bytes each. The copy
  loop of \<^verbatim>\<open>read_head\<close> trusts the \<^verbatim>\<open>n\<close> on the disk.
\<close>

definition head_n :: "block \<Rightarrow> int" where
  "head_n d = sint (get32 d 0)"

definition head_block :: "block \<Rightarrow> nat \<Rightarrow> u32" where
  "head_block d i = get32 d (4 + 4 * i)"

text \<open>\<^verbatim>\<open>log.lh.n = lh->n; for (i = 0; i < log.lh.n; i++) log.lh.block[i] = lh->block[i];\<close>\<close>

definition loaded :: "block \<Rightarrow> logheader \<Rightarrow> logheader" where
  "loaded d lh = \<lparr>lh_n = head_n d, lh_block = (\<lambda>i. if int i < head_n d then head_block d i else lh_block lh i)\<rparr>"

definition read_head :: "kstate \<Rightarrow> kstate result" where
  "read_head s =
     rbind (bread (log_dev (klog s)) (log_start (klog s)) s) (\<lambda>(b, s).
     let d = b_data (bufs s b);
         s = set_log (\<lambda>l. l\<lparr>log_lh := loaded d (log_lh l)\<rparr>) s
     in brelse b s)"

primrec put_blocks :: "(nat \<Rightarrow> u32) \<Rightarrow> nat \<Rightarrow> block \<Rightarrow> block" where
  "put_blocks bl 0 d = d"
| "put_blocks bl (Suc i) d = put32 (put_blocks bl i d) (4 + 4 * i) (bl i)"

definition put_head :: "logheader \<Rightarrow> block \<Rightarrow> block" where
  "put_head lh d = put_blocks (lh_block lh) (nat (lh_n lh)) (put32 d 0 (word_of_int (lh_n lh)))"

definition write_head :: "kstate \<Rightarrow> kstate result" where
  "write_head s =
     rbind (bread (log_dev (klog s)) (log_start (klog s)) s) (\<lambda>(b, s).
     rbind (bwrite b (set_data b (put_head (log_lh (klog s)) (b_data (bufs s b))) s)) (\<lambda>s.
     brelse b s))"

definition recover_from_log :: "kstate \<Rightarrow> kstate result" where
  "recover_from_log s =
     rbind (read_head s) (\<lambda>s.
     rbind (install_trans True s) (\<lambda>s.
     write_head (set_lh_n 0 s)))"

abbreviation (input) sizeof_logheader :: nat where
  "sizeof_logheader \<equiv> 4 + 4 * LOGBLOCKS"

definition initlog :: "u32 \<Rightarrow> superblock \<Rightarrow> kstate \<Rightarrow> kstate result" where
  "initlog dev sblk s =
     (if sizeof_logheader \<ge> BSIZE then Inl (Panic ''initlog: too big logheader'')
      else recover_from_log (set_log (\<lambda>l. l\<lparr>log_start := sb_logstart sblk, log_dev := dev\<rparr>) s))"

text \<open>
  \<^verbatim>\<open>begin_op\<close> either gets a place in the transaction or goes to sleep; the loop around
  the test runs again when the thread is woken up.
\<close>

definition begin_op :: "kstate \<Rightarrow> kstate result" where
  "begin_op s =
     rbind (acquire Lk_log s) (\<lambda>s.
     if log_committing (klog s) then Inl (Sleeping Chan_log)
     else if log_n s + (log_outstanding (klog s) + 1) * int MAXOPBLOCKS > int LOGBLOCKS
     then Inl (Sleeping Chan_log)
     else release Lk_log (set_log (\<lambda>l. l\<lparr>log_outstanding := log_outstanding l + 1\<rparr>) s))"

primrec write_log_loop :: "nat \<Rightarrow> nat \<Rightarrow> kstate \<Rightarrow> kstate result" where
  "write_log_loop 0 tail s = Inr s"
| "write_log_loop (Suc k) tail s =
     rbind (bread (log_dev (klog s)) (log_slot s tail) s) (\<lambda>(to, s).
     rbind (bread (log_dev (klog s)) (log_block s tail) s) (\<lambda>(from_buf, s).
     rbind (bwrite to (set_data to (b_data (bufs s from_buf)) s)) (\<lambda>s.
     rbind (brelse from_buf s) (\<lambda>s.
     rbind (brelse to s) (\<lambda>s.
     write_log_loop k (Suc tail) s)))))"

definition write_log :: "kstate \<Rightarrow> kstate result" where
  "write_log s = write_log_loop (nat (log_n s)) 0 s"

definition commit :: "kstate \<Rightarrow> kstate result" where
  "commit s =
     (if log_n s > 0 then
        rbind (write_log s) (\<lambda>s.
        rbind (write_head s) (\<lambda>s.
        rbind (install_trans False s) (\<lambda>s.
        write_head (set_lh_n 0 s))))
      else Inr s)"

definition end_op :: "kstate \<Rightarrow> kstate result" where
  "end_op s =
     rbind (acquire Lk_log s) (\<lambda>s.
     let s = set_log (\<lambda>l. l\<lparr>log_outstanding := log_outstanding l - 1\<rparr>) s in
     if log_committing (klog s) then Inl (Panic ''log.committing'')
     else if log_outstanding (klog s) = 0 then
       rbind (release Lk_log (set_log (\<lambda>l. l\<lparr>log_committing := True\<rparr>) s)) (\<lambda>s.
       rbind (commit s) (\<lambda>s.
       rbind (acquire Lk_log s) (\<lambda>s.
       rbind (wakeup Chan_log (set_log (\<lambda>l. l\<lparr>log_committing := False\<rparr>) s)) (\<lambda>s.
       release Lk_log s))))
     else
       rbind (wakeup Chan_log s) (\<lambda>s. release Lk_log s))"

definition log_write :: "nat \<Rightarrow> kstate \<Rightarrow> kstate result" where
  "log_write b s =
     rbind (acquire Lk_log s) (\<lambda>s.
     if log_n s \<ge> int LOGBLOCKS then Inl (Panic ''too big a transaction'')
     else if log_outstanding (klog s) < 1 then Inl (Panic ''log_write outside of trans'')
     else
       let bn = b_blockno (bufs s b);
           i = (case scan (\<lambda>i. log_block s i = bn) 0 (nat (log_n s)) of
                  Some i \<Rightarrow> i | None \<Rightarrow> nat (log_n s));
           s = set_log (\<lambda>l. l\<lparr>log_lh := (log_lh l)\<lparr>lh_block := (lh_block (log_lh l))(i := bn)\<rparr>\<rparr>) s
       in if int i = log_n s then
            rbind (bpin b s) (\<lambda>s. release Lk_log (set_lh_n (log_n s + 1) s))
          else release Lk_log s)"

subsection \<open>The state of the log\<close>

lemma set_log_simps [simp]:
  "bufs (set_log f s) = bufs s" "disk (set_log f s) = disk s" "dwrites (set_log f s) = dwrites s"
  "procs (set_log f s) = procs s" "cur (set_log f s) = cur s" "held (set_log f s) = held s"
  "klog (set_log f s) = f (klog s)" "(set_log f s)\<lparr>held := h\<rparr> = set_log f (s\<lparr>held := h\<rparr>)"
  "set_log f (set_log g s) = set_log (\<lambda>l. f (g l)) s" "sb (set_log f s) = sb s"
  "itable (set_log f s) = itable s"
  by (simp_all add: set_log_def)

lemma cache_cong:
  assumes "bufs s' = bufs s" "disk s' = disk s" "procs s' = procs s" "cur s' = cur s"
  shows "cache H L s' = cache H L s" "view s' = view s"
proof -
  have "lru s' xs = lru s xs" for xs using assms by (simp add: lru_def)
  moreover have b: "buf_for s' bn i = buf_for s bn i" for bn i using assms by (simp add: buf_for_def)
  moreover have "buf_ok H L s' i = buf_ok H L s i" for i
    using assms by (simp add: buf_ok_def pinned_def clean_def)
  ultimately show "cache H L s' = cache H L s" by (simp add: cache_def uniq_def)
  show "view s' = view s" by (rule ext, rule view_cong) (simp_all add: assms b)
qed

lemma cache_set_log [simp]: "cache H L (set_log f s) = cache H L s" "view (set_log f s) = view s"
  by (rule cache_cong; simp)+

lemma io_free_set_log [simp]: "io_free (set_log f s) = io_free s"
  by (rule io_free_cong) simp

lemma set_lh_n_simps [simp]:
  "bufs (set_lh_n n s) = bufs s" "disk (set_lh_n n s) = disk s" "dwrites (set_lh_n n s) = dwrites s"
  "procs (set_lh_n n s) = procs s" "cur (set_lh_n n s) = cur s" "held (set_lh_n n s) = held s"
  "log_n (set_lh_n n s) = n" "log_block (set_lh_n n s) = log_block s"
  "log_start (klog (set_lh_n n s)) = log_start (klog s)" "log_dev (klog (set_lh_n n s)) = log_dev (klog s)"
  "cache H L (set_lh_n n s) = cache H L s" "view (set_lh_n n s) = view s"
  "io_free (set_lh_n n s) = io_free s" "sb (set_lh_n n s) = sb s"
  by (simp_all add: set_lh_n_def)

text \<open>Copying one block to another through the cache, with the destination written to the disk.\<close>

definition copied :: "u32 \<Rightarrow> u32 \<Rightarrow> kstate \<Rightarrow> kstate \<Rightarrow> bool" where
  "copied dst src s s' \<longleftrightarrow> view s' = (view s)(dst := view s src) \<and>
     disk s' = (disk s)(dst := view s src) \<and> dwrites s' = dwrites s @ [(dst, view s src)] \<and> io_frame s s'"

text \<open>
  Two buffers: the first holds \<open>a\<close>, the second \<open>b\<close>. This is the state in which the copy loops
  do their work.
\<close>

lemma bread_two:
  assumes c: "cache {} L s" and io: "io_free s" and ne: "a \<noteq> b"
    and na: "slot s a = None \<Longrightarrow> card L < NBUF" and nb: "b \<notin> L \<Longrightarrow> card L + 1 < NBUF"
  obtains i j s2 where "bread ROOTDEV a s = Inr (i, got a i s)"
    "bread ROOTDEV b (got a i s) = Inr (j, s2)" "i \<noteq> j" "cache {i, j} L s2" "io_frame s s2"
    "view s2 = view s" "disk s2 = disk s" "dwrites s2 = dwrites s"
    "b_blockno (bufs s2 i) = a" "b_blockno (bufs s2 j) = b"
    "b_data (bufs s2 i) = view s a" "b_data (bufs s2 j) = view s b"
proof -
  obtain i where i: "bread ROOTDEV a s = Inr (i, got a i s)" "i < NBUF" "i \<notin> {}"
    "cache {i} L (got a i s)" "view (got a i s) = view s"
    by (rule bread_cache [OF c io, of a]) (use na in auto)
  let ?s = "got a i s"
  have io1: "io_free ?s" using io io_frameD(18) [OF got_simps(13)] by simp
  have sl: "slot ?s b = None \<Longrightarrow> b \<notin> L"
    using cacheD(6) [OF i(4), of b] by (auto simp: slot_None)
  obtain j where j: "bread ROOTDEV b ?s = Inr (j, got b j ?s)" "j < NBUF" "j \<notin> {i}"
    "cache (insert j {i}) L (got b j ?s)" "view (got b j ?s) = view ?s"
    by (rule bread_cache [OF i(4) io1, of b]) (use ne nb sl in auto)
  have "cache {i, j} L (got b j ?s)" using j(4) by (simp add: insert_commute)
  moreover have "io_frame s (got b j ?s)" using got_simps(13) got_simps(13) by (rule io_frame_trans)
  ultimately show thesis using i j ne
    by (intro that [of i j "got b j ?s"]) simp_all
qed

lemma clean_frame:
  "b_data (bufs s' i) = b_data (bufs s i) \<Longrightarrow> b_dev (bufs s' i) = b_dev (bufs s i) \<Longrightarrow>
   b_blockno (bufs s' i) = b_blockno (bufs s i) \<Longrightarrow> b_valid (bufs s' i) = b_valid (bufs s i) \<Longrightarrow>
   disk s' = disk s \<Longrightarrow> clean s' i = clean s i"
  by (simp add: clean_def)

lemma io_free_frame: "io_frame s s' \<Longrightarrow> io_free s \<Longrightarrow> io_free s'"
  by (simp add: io_frameD(18))

text \<open>The body of \<^verbatim>\<open>write_log\<close>: \<open>a\<close> is the log block, \<open>b\<close> the pinned block.\<close>

lemma write_log_step:
  assumes c: "cache {} L s" and io: "io_free s" and ne: "a \<noteq> b" and b: "b \<in> L"
    and na: "slot s a = None \<Longrightarrow> card L < NBUF"
  obtains i j s1 s2 s3 s4 s' where "bread ROOTDEV a s = Inr (i, s1)" "klog s1 = klog s"
    "bread ROOTDEV b s1 = Inr (j, s2)" "bwrite i (set_data i (b_data (bufs s2 j)) s2) = Inr s3"
    "brelse j s3 = Inr s4" "brelse i s4 = Inr s'" "cache {} L s'" "copied a b s s'"
proof -
  obtain i j s2 where r: "bread ROOTDEV a s = Inr (i, got a i s)"
    "bread ROOTDEV b (got a i s) = Inr (j, s2)" "i \<noteq> j" "cache {i, j} L s2" "io_frame s s2"
    "view s2 = view s" "disk s2 = disk s" "dwrites s2 = dwrites s"
    "b_blockno (bufs s2 i) = a" "b_blockno (bufs s2 j) = b"
    "b_data (bufs s2 i) = view s a" "b_data (bufs s2 j) = view s b"
    by (rule bread_two [OF c io ne na]) (use b in auto)
  let ?s3 = "set_data i (b_data (bufs s2 j)) s2"
  let ?s4 = "wrote i ?s3" let ?s5 = "released j ?s4" let ?s6 = "released i ?s5"
  have "io_free s2" using io r(5) by (rule io_free_frame [rotated])
  then have io3: "io_free ?s3" by simp
  have c3: "cache {i, j} L ?s3" "view ?s3 = (view s2)(a := view s b)"
    using set_data_cache [OF r(4), of i] r(9,12) by auto
  note w = bwrite_cache [OF c3(1) io3, of i, simplified]
  have c5: "cache {i} L ?s5" "view ?s5 = view ?s4"
    using brelse_cache [OF w(2), of j] r(3,10) b by (auto simp: insert_Diff_if)
  have b5: "brelse j ?s4 = Inr ?s5" using w(2) io3 by (intro brelse_eq) auto
  have "clean ?s5 i" using w(4) by (subst clean_frame [of _ _ ?s4]) simp_all
  then have c6: "cache {} L ?s6" "view ?s6 = view ?s5" using brelse_cache [OF c5(1), of i] by auto
  have b6: "brelse i ?s5 = Inr ?s6" using c5(1) io3 by (intro brelse_eq) auto
  have "io_frame s2 ?s3" "io_frame ?s3 ?s4" "io_frame ?s4 ?s5" "io_frame ?s5 ?s6" by simp_all
  then have f: "io_frame s ?s6" using r(5) by (meson io_frame_trans)
  have cp: "copied a b s ?s6"
    unfolding copied_def using c6(2) c5(2) w(3) c3(2) f r(6-10,12) by simp
  show thesis
    by (rule that [OF r(1) _ r(2) w(1) b5 b6 c6(1) cp]) simp
qed

text \<open>
  The body of \<^verbatim>\<open>install_trans\<close>: \<open>a\<close> is the log block, \<open>b\<close> its home. While the
  system runs the home block is pinned, and the pin is taken back.
\<close>

lemma install_step:
  assumes c: "cache {} L s" and io: "io_free s" and ne: "a \<noteq> b" and a: "a \<notin> L"
    and na: "slot s a = None \<Longrightarrow> card L < NBUF"
    and b: "if recovering then b \<notin> L \<and> card L + 1 < NBUF else b \<in> L"
  obtains i j s1 s2 s3 s4 s5 s' where "bread ROOTDEV a s = Inr (i, s1)" "klog s1 = klog s"
    "bread ROOTDEV b s1 = Inr (j, s2)" "bwrite j (set_data j (b_data (bufs s2 i)) s2) = Inr s3"
    "(if \<not> recovering then bunpin j s3 else Inr s3) = Inr s4"
    "brelse i s4 = Inr s5" "brelse j s5 = Inr s'" "cache {} (L - {b}) s'" "copied b a s s'"
proof -
  obtain i j s2 where r: "bread ROOTDEV a s = Inr (i, got a i s)"
    "bread ROOTDEV b (got a i s) = Inr (j, s2)" "i \<noteq> j" "cache {i, j} L s2" "io_frame s s2"
    "view s2 = view s" "disk s2 = disk s" "dwrites s2 = dwrites s"
    "b_blockno (bufs s2 i) = a" "b_blockno (bufs s2 j) = b"
    "b_data (bufs s2 i) = view s a" "b_data (bufs s2 j) = view s b"
    by (rule bread_two [OF c io ne na]) (use b in \<open>auto split: if_splits\<close>)
  let ?s3 = "set_data j (b_data (bufs s2 i)) s2"
  let ?s4 = "wrote j ?s3" let ?s5 = "if \<not> recovering then add_ref j (-1) ?s4 else ?s4"
  let ?s6 = "released i ?s5" let ?s7 = "released j ?s6"
  have "io_free s2" using io r(5) by (rule io_free_frame [rotated])
  then have io3: "io_free ?s3" by simp
  have c3: "cache {i, j} L ?s3" "view ?s3 = (view s2)(b := view s a)"
    using set_data_cache [OF r(4), of j] r(10,11) by auto
  note w = bwrite_cache [OF c3(1) io3, of j, simplified]
  have c5: "cache {i, j} (L - {b}) ?s5" "view ?s5 = view ?s4"
    using bunpin_cache [OF w(2), of j] w(2) b r(10) by auto
  have u: "(if \<not> recovering then bunpin j ?s4 else Inr ?s4) = Inr ?s5"
    using io3 by (simp add: bunpin_eq)
  have io5: "io_free ?s5" using io3 by simp
  have "view s a = disk s a" using view_clean [OF c a] by simp
  then have "clean ?s5 i" using r(3,7,9,10,11) ne by (auto simp: clean_def)
  then have c6: "cache {j} (L - {b}) ?s6" "view ?s6 = view ?s5"
    using brelse_cache [OF c5(1), of i] r(3) by (auto simp: insert_Diff_if)
  have b6: "brelse i ?s5 = Inr ?s6" using c5(1) io5 by (intro brelse_eq) auto
  have "clean ?s6 j" using w(4) by (subst clean_frame [of _ _ ?s4]) simp_all
  then have c7: "cache {} (L - {b}) ?s7" "view ?s7 = view ?s6" using brelse_cache [OF c6(1), of j] by auto
  have b7: "brelse j ?s6 = Inr ?s7" using c6(1) io5 by (intro brelse_eq) auto
  have "io_frame s2 ?s3" "io_frame ?s3 ?s4" "io_frame ?s4 ?s5" "io_frame ?s5 ?s6" "io_frame ?s6 ?s7"
    by simp_all
  then have f: "io_frame s ?s7" using r(5) by (meson io_frame_trans)
  have cp: "copied b a s ?s7"
    unfolding copied_def using c7(2) c6(2) c5(2) w(3) c3(2) f r(6-11) by simp
  show thesis
    by (rule that [OF r(1) _ r(2) w(1) u b6 b7 c7(1) cp]) simp
qed

subsection \<open>The copy loops\<close>

text \<open>The disk after a sequence of writes.\<close>

definition apply_writes :: "(u32 \<times> block) list \<Rightarrow> (u32 \<Rightarrow> block) \<Rightarrow> u32 \<Rightarrow> block" where
  "apply_writes ws d = fold (\<lambda>(b, x) d. d(b := x)) ws d"

lemma apply_writes_Nil [simp]: "apply_writes [] d = d"
  by (simp add: apply_writes_def)

lemma apply_writes_Cons [simp]: "apply_writes ((b, x) # ws) d = apply_writes ws (d(b := x))"
  by (simp add: apply_writes_def)

lemma apply_writes_append: "apply_writes (us @ vs) d = apply_writes vs (apply_writes us d)"
  by (simp add: apply_writes_def)

lemma apply_writes_other: "b \<notin> fst ` set ws \<Longrightarrow> apply_writes ws d b = d b"
  by (induction ws arbitrary: d) auto

lemma apply_writes_at:
  assumes "i < length ws" "\<And>j. i < j \<Longrightarrow> j < length ws \<Longrightarrow> fst (ws ! j) \<noteq> fst (ws ! i)"
  shows "apply_writes ws d (fst (ws ! i)) = snd (ws ! i)"
proof -
  have "ws = take i ws @ ws ! i # drop (Suc i) ws" using assms(1) by (rule id_take_nth_drop)
  moreover have "fst (ws ! i) \<notin> fst ` set (drop (Suc i) ws)"
  proof
    assume "fst (ws ! i) \<in> fst ` set (drop (Suc i) ws)"
    then obtain k where "k < length ws - Suc i" "fst (ws ! (Suc i + k)) = fst (ws ! i)"
      by (auto simp: in_set_conv_nth)
    then show False using assms(2) [of "Suc i + k"] by (simp add: less_diff_conv)
  qed
  ultimately show ?thesis
    by (metis apply_writes_append apply_writes_Cons apply_writes_other fun_upd_same prod.collapse)
qed

text \<open>Some writes have been done since \<open>s\<close>, and readers see the blocks written.\<close>

definition did :: "(u32 \<times> block) list \<Rightarrow> kstate \<Rightarrow> kstate \<Rightarrow> bool" where
  "did ws s s' \<longleftrightarrow> view s' = apply_writes ws (view s) \<and> disk s' = apply_writes ws (disk s) \<and>
     dwrites s' = dwrites s @ ws \<and> io_frame s s'"

lemma did_Nil [simp]: "did [] s s"
  by (simp add: did_def)

lemma did_append: "did us s t \<Longrightarrow> did vs t u \<Longrightarrow> did (us @ vs) s u"
  by (auto simp: did_def apply_writes_append intro: io_frame_trans)

lemma copied_did: "copied dst src s s' \<longleftrightarrow> did [(dst, view s src)] s s'"
  by (simp add: copied_def did_def)

lemma didD:
  assumes "did ws s s'"
  shows "klog s' = klog s" "io_free s' = io_free s" "view s' = apply_writes ws (view s)"
    "disk s' = apply_writes ws (disk s)" "dwrites s' = dwrites s @ ws" "io_frame s s'"
  using assms io_frameD(11,18) by (auto simp: did_def)

text \<open>The blocks of the log: the header and \<^verbatim>\<open>LOGBLOCKS\<close> blocks after it.\<close>

definition in_log :: "u32 \<Rightarrow> u32 \<Rightarrow> bool" where
  "in_log st b \<longleftrightarrow> unat st \<le> unat b \<and> unat b \<le> unat st + LOGBLOCKS"

definition slot_of :: "u32 \<Rightarrow> nat \<Rightarrow> u32" where
  "slot_of st i = st + of_nat i + 1"

lemma log_slot_eq: "log_slot s i = slot_of (log_start (klog s)) i"
  by (simp add: log_slot_def slot_of_def)

text \<open>The log is on the root device and does not run over the end of the block numbers.\<close>

definition log_placed :: "kstate \<Rightarrow> bool" where
  "log_placed s \<longleftrightarrow> log_dev (klog s) = ROOTDEV \<and> unat (log_start (klog s)) + LOGBLOCKS < 2 ^ 32"

lemma unat_slot_of:
  assumes "unat st + LOGBLOCKS < 2 ^ 32" "i < LOGBLOCKS"
  shows "unat (slot_of st i) = unat st + i + 1"
proof -
  have "slot_of st i = of_nat (unat st + i + 1)" by (simp add: slot_of_def)
  then have "unat (slot_of st i) = unat (of_nat (unat st + i + 1) :: u32)" by (rule arg_cong)
  also have "\<dots> = unat st + i + 1" by (rule unat_of_nat_small) (use assms in simp)
  finally show ?thesis .
qed

lemma slot_of_in_log:
  assumes "unat st + LOGBLOCKS < 2 ^ 32" "i < LOGBLOCKS"
  shows "in_log st (slot_of st i)" "slot_of st i \<noteq> st"
proof -
  show "in_log st (slot_of st i)" unfolding in_log_def unat_slot_of [OF assms] using assms(2) by simp
  show "slot_of st i \<noteq> st"
  proof
    assume e: "slot_of st i = st"
    show False using unat_slot_of [OF assms] unfolding e by simp
  qed
qed

lemma slot_of_inj:
  assumes "unat st + LOGBLOCKS < 2 ^ 32" "i < LOGBLOCKS" "j < LOGBLOCKS" "slot_of st i = slot_of st j"
  shows "i = j"
proof -
  have "unat st + i + 1 = unat st + j + 1"
    using unat_slot_of [OF assms(1,2)] unfolding assms(4) unat_slot_of [OF assms(1,3)] by (rule sym)
  then show ?thesis by simp
qed

lemma write_log_loop_eq:
  assumes "cache {} L s" "io_free s" "log_placed s" "tail + k \<le> LOGBLOCKS" "card L < NBUF"
    and "\<And>i. tail \<le> i \<Longrightarrow> i < tail + k \<Longrightarrow> log_block s i \<in> L \<and> \<not> in_log (log_start (klog s)) (log_block s i)"
  shows "\<exists>s'. write_log_loop k tail s = Inr s' \<and> cache {} L s' \<and>
    did (map (\<lambda>i. (log_slot s i, view s (log_block s i))) [tail..<tail + k]) s s'"
  using assms
proof (induction k arbitrary: tail s)
  case 0
  then show ?case by simp
next
  case (Suc k)
  let ?st = "log_start (klog s)"
  note pl = Suc.prems(3) [unfolded log_placed_def]
  have b: "log_block s tail \<in> L" "\<not> in_log ?st (log_block s tail)" using Suc.prems(6) [of tail] by auto
  have ne: "log_slot s i \<noteq> log_block s j" if "tail \<le> j" "j < tail + Suc k" "i < LOGBLOCKS" for i j
    using slot_of_in_log(1) [of ?st i] pl that Suc.prems(6) [of j] by (auto simp: log_slot_eq)
  have ne1: "log_slot s tail \<noteq> log_block s tail" using ne [of tail tail] Suc.prems(4) by simp
  obtain i j s1 s2 s3 s4 s' where st: "bread ROOTDEV (log_slot s tail) s = Inr (i, s1)" "klog s1 = klog s"
    "bread ROOTDEV (log_block s tail) s1 = Inr (j, s2)"
    "bwrite i (set_data i (b_data (bufs s2 j)) s2) = Inr s3"
    "brelse j s3 = Inr s4" "brelse i s4 = Inr s'" "cache {} L s'"
    "copied (log_slot s tail) (log_block s tail) s s'"
    by (rule write_log_step [OF Suc.prems(1,2) ne1 b(1)]) (use Suc.prems(5) in auto)
  have d: "did [(log_slot s tail, view s (log_block s tail))] s s'" using st(8) by (simp add: copied_did)
  note k = didD [OF d]
  have "\<exists>s''. write_log_loop k (Suc tail) s' = Inr s'' \<and> cache {} L s'' \<and>
      did (map (\<lambda>i. (log_slot s' i, view s' (log_block s' i))) [Suc tail..<Suc tail + k]) s' s''"
    using Suc.prems st(7) k by (intro Suc.IH) (auto simp: log_placed_def)
  then obtain s'' where s'': "write_log_loop k (Suc tail) s' = Inr s''" "cache {} L s''"
    "did (map (\<lambda>i. (log_slot s' i, view s' (log_block s' i))) [Suc tail..<Suc tail + k]) s' s''" by blast
  have "map (\<lambda>i. (log_slot s' i, view s' (log_block s' i))) [Suc tail..<Suc tail + k] =
      map (\<lambda>i. (log_slot s i, view s (log_block s i))) [Suc tail..<tail + Suc k]"
  proof (intro map_cong)
    fix i assume "i \<in> set [Suc tail..<tail + Suc k]"
    then have "log_slot s tail \<noteq> log_block s i" using Suc.prems(4) by (intro ne) auto
    then show "(log_slot s' i, view s' (log_block s' i)) = (log_slot s i, view s (log_block s i))"
      using k(1,3) by (simp add: log_slot_def)
  qed simp
  then have "did ([(log_slot s tail, view s (log_block s tail))] @
      map (\<lambda>i. (log_slot s i, view s (log_block s i))) [Suc tail..<tail + Suc k]) s s''"
    using did_append [OF d s''(3)] by (simp only:)
  moreover have "write_log_loop (Suc k) tail s = Inr s''"
    using st s''(1) pl by simp
  moreover have "[tail..<tail + Suc k] = tail # [Suc tail..<tail + Suc k]" by (rule upt_conv_Cons) simp
  ultimately show ?case using s''(2) by (simp only: list.map append.simps) blast
qed

lemma install_loop_eq:
  assumes "cache {} (if recovering then {} else log_block s ` {tail..<tail + k}) s" "io_free s"
    "log_placed s" "tail + k \<le> LOGBLOCKS" "\<not> recovering \<Longrightarrow> tail + k < NBUF"
    and "\<And>i. tail \<le> i \<Longrightarrow> i < tail + k \<Longrightarrow> \<not> in_log (log_start (klog s)) (log_block s i)"
    and "\<not> recovering \<Longrightarrow> inj_on (log_block s) {tail..<tail + k}"
  shows "\<exists>s'. install_loop k recovering tail s = Inr s' \<and> cache {} {} s' \<and>
    did (map (\<lambda>i. (log_block s i, view s (log_slot s i))) [tail..<tail + k]) s s'"
  using assms
proof (induction k arbitrary: tail s)
  case 0
  have "(if recovering then {} else log_block s ` {tail..<tail + 0}) = {}" by simp
  then show ?case using 0 by simp
next
  case (Suc k)
  let ?st = "log_start (klog s)" and ?L = "if recovering then {} else log_block s ` {tail..<tail + Suc k}"
  note pl = Suc.prems(3) [unfolded log_placed_def]
  have ne: "log_slot s i \<noteq> log_block s j" if "tail \<le> j" "j < tail + Suc k" "i < LOGBLOCKS" for i j
    using slot_of_in_log(1) [of ?st i] pl that Suc.prems(6) [of j] by (auto simp: log_slot_eq)
  have ne1: "log_slot s tail \<noteq> log_block s tail" using ne [of tail tail] Suc.prems(4) by simp
  have a: "log_slot s tail \<notin> ?L"
  proof
    assume "log_slot s tail \<in> ?L"
    then obtain x where "tail \<le> x" "x < tail + Suc k" "log_slot s tail = log_block s x"
      by (auto split: if_splits)
    then show False using ne [of x tail] Suc.prems(4) by simp
  qed
  have cL: "card ?L < NBUF"
    using card_image_le [of "{tail..<tail + Suc k}" "log_block s"] Suc.prems(5) by auto
  obtain i j s1 s2 s3 s4 s5 s' where st: "bread ROOTDEV (log_slot s tail) s = Inr (i, s1)" "klog s1 = klog s"
    "bread ROOTDEV (log_block s tail) s1 = Inr (j, s2)"
    "bwrite j (set_data j (b_data (bufs s2 i)) s2) = Inr s3"
    "(if \<not> recovering then bunpin j s3 else Inr s3) = Inr s4"
    "brelse i s4 = Inr s5" "brelse j s5 = Inr s'" "cache {} (?L - {log_block s tail}) s'"
    "copied (log_block s tail) (log_slot s tail) s s'"
    by (rule install_step [OF Suc.prems(1,2) ne1 a, of recovering]) (use cL in auto)
  have d: "did [(log_block s tail, view s (log_slot s tail))] s s'" using st(9) by (simp add: copied_did)
  note k = didD [OF d]
  have "?L - {log_block s tail} = (if recovering then {} else log_block s' ` {Suc tail..<Suc tail + k})"
  proof (cases recovering)
    case False
    have "{tail..<tail + Suc k} = insert tail {Suc tail..<Suc tail + k}" by auto
    moreover have "log_block s tail \<notin> log_block s ` {Suc tail..<Suc tail + k}"
    proof
      assume "log_block s tail \<in> log_block s ` {Suc tail..<Suc tail + k}"
      then obtain x where "x \<in> {Suc tail..<Suc tail + k}" "log_block s tail = log_block s x" by auto
      then show False using inj_onD [OF Suc.prems(7) [OF False], of tail x] by simp
    qed
    ultimately show ?thesis using False k(1) by simp
  qed simp
  then have c': "cache {} (if recovering then {} else log_block s' ` {Suc tail..<Suc tail + k}) s'"
    using st(8) by simp
  have "\<exists>s''. install_loop k recovering (Suc tail) s' = Inr s'' \<and> cache {} {} s'' \<and>
      did (map (\<lambda>i. (log_block s' i, view s' (log_slot s' i))) [Suc tail..<Suc tail + k]) s' s''"
  proof (rule Suc.IH [OF c'])
    show "\<not> recovering \<Longrightarrow> inj_on (log_block s') {Suc tail..<Suc tail + k}"
      using Suc.prems(7) k(1) by (auto simp: inj_on_def)
  qed (use Suc.prems k in \<open>auto simp: log_placed_def\<close>)
  then obtain s'' where s'': "install_loop k recovering (Suc tail) s' = Inr s''" "cache {} {} s''"
    "did (map (\<lambda>i. (log_block s' i, view s' (log_slot s' i))) [Suc tail..<Suc tail + k]) s' s''" by blast
  have "map (\<lambda>i. (log_block s' i, view s' (log_slot s' i))) [Suc tail..<Suc tail + k] =
      map (\<lambda>i. (log_block s i, view s (log_slot s i))) [Suc tail..<tail + Suc k]"
  proof (intro map_cong)
    fix i assume "i \<in> set [Suc tail..<tail + Suc k]"
    then have "log_slot s i \<noteq> log_block s tail" using Suc.prems(4) by (intro ne) auto
    then show "(log_block s' i, view s' (log_slot s' i)) = (log_block s i, view s (log_slot s i))"
      using k(1,3) by (simp add: log_slot_def)
  qed simp
  then have "did ([(log_block s tail, view s (log_slot s tail))] @
      map (\<lambda>i. (log_block s i, view s (log_slot s i))) [Suc tail..<tail + Suc k]) s s''"
    using did_append [OF d s''(3)] by (simp only:)
  moreover have "install_loop (Suc k) recovering tail s = Inr s''"
    using st s''(1) pl by simp
  moreover have "[tail..<tail + Suc k] = tail # [Suc tail..<tail + Suc k]" by (rule upt_conv_Cons) simp
  ultimately show ?case using s''(2) by (simp only: list.map append.simps) blast
qed

subsection \<open>The header block\<close>

lemma head_n_put_blocks: "head_n (put_blocks bl n d) = head_n d"
  by (induction n) (simp_all add: head_n_def getw_putw_other)

lemma head_block_put_blocks:
  "i < n \<Longrightarrow> head_block (put_blocks bl n d) i = bl i"
  by (induction n) (auto simp: head_block_def getw_putw_other less_Suc_eq)

lemma sint_small: "0 \<le> n \<Longrightarrow> n < 2 ^ 31 \<Longrightarrow> sint (word_of_int n :: u32) = n"
  by (simp add: sint_uint uint_word_of_int signed_take_bit_int_eq_self)

lemma head_n_put_head:
  assumes "0 \<le> lh_n lh" "lh_n lh \<le> int LOGBLOCKS"
  shows "head_n (put_head lh d) = lh_n lh"
  unfolding put_head_def head_n_put_blocks
  using assms by (simp add: head_n_def sint_small)

lemma head_block_put_head: "int i < lh_n lh \<Longrightarrow> head_block (put_head lh d) i = lh_block lh i"
  unfolding put_head_def by (simp add: head_block_put_blocks)

lemma io_frame_set_log:
  assumes "io_frame s t"
  shows "io_frame (set_log f s) (set_log f t)"
proof -
  have e: "t = s\<lparr>bufs := bufs t, procs := procs t, disk := disk t, dwrites := dwrites t\<rparr>"
    using assms by (simp only: io_frame_def)
  have "klog t = klog s" using assms by (rule io_frameD)
  then have "set_log f t = (set_log f s)\<lparr>bufs := bufs t, procs := procs t, disk := disk t, dwrites := dwrites t\<rparr>"
    by (subst e) (simp add: set_log_def)
  then show ?thesis using assms unfolding io_frame_def by simp
qed

lemma write_head_eq:
  assumes c: "cache {} L s" and io: "io_free s" and pl: "log_placed s"
    and L: "log_start (klog s) \<notin> L" "card L < NBUF"
  shows "\<exists>s'. write_head s = Inr s' \<and> cache {} L s' \<and>
    did [(log_start (klog s), put_head (log_lh (klog s)) (view s (log_start (klog s))))] s s'"
proof -
  let ?a = "log_start (klog s)"
  let ?h = "put_head (log_lh (klog s)) (view s ?a)"
  obtain i where i: "bread ROOTDEV ?a s = Inr (i, got ?a i s)" "i < NBUF" "i \<notin> {}"
    "cache {i} L (got ?a i s)" "view (got ?a i s) = view s"
    by (rule bread_cache [OF c io, of ?a]) (use L in auto)
  let ?s1 = "got ?a i s" let ?s2 = "set_data i ?h ?s1" let ?s3 = "wrote i ?s2" let ?s4 = "released i ?s3"
  have io2: "io_free ?s2" using io by (simp add: io_frameD(18) [OF got_simps(13)])
  have c2: "cache {i} L ?s2" "view ?s2 = (view s)(?a := ?h)" using set_data_cache [OF i(4), of i] i(5) by auto
  note w = bwrite_cache [OF c2(1) io2, of i, simplified]
  have c4: "cache {} L ?s4" "view ?s4 = view ?s3" using brelse_cache [OF w(2), of i] w(4) by auto
  have b: "brelse i ?s3 = Inr ?s4" using w(2) io2 by (intro brelse_eq) auto
  have "io_frame s ?s1" "io_frame ?s1 ?s2" "io_frame ?s2 ?s3" "io_frame ?s3 ?s4" by simp_all
  then have f: "io_frame s ?s4" by (meson io_frame_trans)
  have "did [(?a, ?h)] s ?s4" unfolding did_def using c4(2) w(3) c2(2) f by simp
  moreover have "write_head s = Inr ?s4"
    using i(1) w(1) b pl by (simp add: write_head_def log_placed_def)
  ultimately show ?thesis using c4(1) by blast
qed

lemma read_head_eq:
  assumes c: "cache {} L s" and io: "io_free s" and pl: "log_placed s"
    and L: "log_start (klog s) \<notin> L" "card L < NBUF"
  shows "\<exists>s'. read_head s = Inr s' \<and> cache {} L s' \<and>
    did [] (set_log (\<lambda>l. l\<lparr>log_lh := loaded (view s (log_start (klog s))) (log_lh l)\<rparr>) s) s'"
proof -
  let ?a = "log_start (klog s)"
  let ?f = "\<lambda>l. l\<lparr>log_lh := loaded (view s ?a) (log_lh l)\<rparr>"
  obtain i where i: "bread ROOTDEV ?a s = Inr (i, got ?a i s)" "i < NBUF" "i \<notin> {}"
    "cache {i} L (got ?a i s)" "view (got ?a i s) = view s"
    by (rule bread_cache [OF c io, of ?a]) (use L in auto)
  let ?s1 = "got ?a i s" let ?s2 = "set_log ?f ?s1" let ?s3 = "released i ?s2"
  have io2: "io_free ?s2" using io by (simp add: io_frameD(18) [OF got_simps(13)])
  have c2: "cache {i} L ?s2" using i(4) by simp
  have "view s ?a = disk s ?a" using view_clean [OF c L(1)] by simp
  then have "clean ?s2 i" by (simp add: clean_def)
  then have c3: "cache {} L ?s3" "view ?s3 = view s" using brelse_cache [OF c2, of i] i(5) by auto
  have b: "brelse i ?s2 = Inr ?s3" using c2 io2 by (intro brelse_eq) auto
  have "io_frame (set_log ?f s) ?s2" by (rule io_frame_set_log) simp
  then have f: "io_frame (set_log ?f s) ?s3" by (rule io_frame_trans) simp
  have "did [] (set_log ?f s) ?s3" unfolding did_def using c3(2) f by simp
  moreover have "read_head s = Inr ?s3"
    using i(1) b pl by (simp add: read_head_def log_placed_def Let_def)
  ultimately show ?thesis using c3(1) by blast
qed

subsection \<open>Commit and recovery as sequences of disk writes\<close>

lemma apply_map_at:
  assumes "inj_on f {..<n}" "j < n"
  shows "apply_writes (map (\<lambda>i. (f i, g i)) [0..<n]) d (f j) = g j"
proof -
  let ?ws = "map (\<lambda>i. (f i, g i)) [0..<n]"
  have "apply_writes ?ws d (fst (?ws ! j)) = snd (?ws ! j)"
  proof (rule apply_writes_at)
    fix k assume "j < k" "k < length ?ws"
    then show "fst (?ws ! k) \<noteq> fst (?ws ! j)" using assms inj_onD [OF assms(1), of k j] by auto
  qed (use assms in simp)
  then show ?thesis using assms(2) by simp
qed

lemma apply_map_other: "b \<notin> f ` {..<n} \<Longrightarrow> apply_writes (map (\<lambda>i. (f i, g i)) [0..<n]) d b = d b"
  by (rule apply_writes_other) (auto simp: image_iff)

lemma did_set_log: "did ws s t \<Longrightarrow> did ws (set_log f s) (set_log f t)"
  by (simp add: did_def io_frame_set_log)

definition logged :: "kstate \<Rightarrow> u32 set" where
  "logged s = log_block s ` {..<nat (log_n s)}"

text \<open>
  A transaction that can be committed: its blocks are different, none is a block of the log,
  and they are exactly the pinned ones. The thread holds the buffers \<open>H\<close>.
\<close>

definition trans_ok :: "nat set \<Rightarrow> kstate \<Rightarrow> bool" where
  "trans_ok H s \<longleftrightarrow> log_placed s \<and> 0 \<le> log_n s \<and> log_n s \<le> int LOGBLOCKS \<and>
     inj_on (log_block s) {..<nat (log_n s)} \<and>
     (\<forall>b\<in>logged s. \<not> in_log (log_start (klog s)) b) \<and> cache H (logged s) s"

abbreviation header :: "kstate \<Rightarrow> block \<Rightarrow> block" where
  "header s \<equiv> put_head (log_lh (klog s))"

definition commit_writes :: "kstate \<Rightarrow> (u32 \<times> block) list" where
  "commit_writes s =
     (let n = nat (log_n s); st = log_start (klog s); h = header s (view s st) in
      map (\<lambda>i. (log_slot s i, view s (log_block s i))) [0..<n] @ [(st, h)] @
      map (\<lambda>i. (log_block s i, view s (log_block s i))) [0..<n] @ [(st, header (set_lh_n 0 s) h)])"

lemma trans_okD:
  assumes "trans_ok H s"
  shows "log_placed s" "0 \<le> log_n s" "log_n s \<le> int LOGBLOCKS" "inj_on (log_block s) {..<nat (log_n s)}"
    "b \<in> logged s \<Longrightarrow> \<not> in_log (log_start (klog s)) b" "cache H (logged s) s"
    "log_start (klog s) \<notin> logged s" "i < nat (log_n s) \<Longrightarrow> log_block s i \<in> logged s"
    "card (logged s) = nat (log_n s)"
proof -
  show 1: "b \<in> logged s \<Longrightarrow> \<not> in_log (log_start (klog s)) b" for b
    using assms unfolding trans_ok_def by blast
  show i: "inj_on (log_block s) {..<nat (log_n s)}" using assms unfolding trans_ok_def by blast
  show "log_start (klog s) \<notin> logged s" using 1 [of "log_start (klog s)"] by (auto simp: in_log_def)
  show "i < nat (log_n s) \<Longrightarrow> log_block s i \<in> logged s" by (simp add: logged_def)
  show "card (logged s) = nat (log_n s)" unfolding logged_def using card_image [OF i] by simp
qed (use assms in \<open>simp_all add: trans_ok_def\<close>)

lemma slot_facts:
  assumes "trans_ok H s"
  shows "i < LOGBLOCKS \<Longrightarrow> log_slot s i \<notin> logged s" "i < LOGBLOCKS \<Longrightarrow> log_slot s i \<noteq> log_start (klog s)"
    "i < LOGBLOCKS \<Longrightarrow> in_log (log_start (klog s)) (log_slot s i)"
    "n \<le> LOGBLOCKS \<Longrightarrow> inj_on (log_slot s) {..<n}"
proof -
  have pl: "unat (log_start (klog s)) + LOGBLOCKS < 2 ^ 32"
    using trans_okD(1) [OF assms] by (simp add: log_placed_def)
  show il: "i < LOGBLOCKS \<Longrightarrow> in_log (log_start (klog s)) (log_slot s i)" for i
    unfolding log_slot_eq using slot_of_in_log(1) [OF pl] .
  show "i < LOGBLOCKS \<Longrightarrow> log_slot s i \<noteq> log_start (klog s)"
    unfolding log_slot_eq using slot_of_in_log(2) [OF pl] .
  show "i < LOGBLOCKS \<Longrightarrow> log_slot s i \<notin> logged s" using il trans_okD(5) [OF assms] by blast
  show "n \<le> LOGBLOCKS \<Longrightarrow> inj_on (log_slot s) {..<n}"
    unfolding log_slot_eq inj_on_def using slot_of_inj [OF pl] by auto
qed

lemma slot_image:
  assumes "trans_ok H s" "n \<le> LOGBLOCKS"
  shows "log_start (klog s) \<notin> log_slot s ` {..<n}"
    "\<not> in_log (log_start (klog s)) b \<Longrightarrow> b \<notin> log_slot s ` {..<n}"
proof -
  have l: "i < LOGBLOCKS" if "i < n" for i using that assms(2) by simp
  show "log_start (klog s) \<notin> log_slot s ` {..<n}"
  proof
    assume "log_start (klog s) \<in> log_slot s ` {..<n}"
    then obtain i where "i < n" "log_slot s i = log_start (klog s)" by auto
    then show False using slot_facts(2) [OF assms(1) l] by blast
  qed
  show "b \<notin> log_slot s ` {..<n}" if "\<not> in_log (log_start (klog s)) b"
  proof
    assume "b \<in> log_slot s ` {..<n}"
    then obtain i where "i < n" "log_slot s i = b" by auto
    then show False using slot_facts(3) [OF assms(1) l] that by blast
  qed
qed

text \<open>The first half of a commit writes the log and, with the header, commits.\<close>

lemma commit_log_phase:
  assumes ok: "trans_ok {} s" and io: "io_free s" and n: "log_n s < int NBUF"
  defines "n \<equiv> nat (log_n s)" and "st \<equiv> log_start (klog s)"
  obtains s1 s2 where "write_log s = Inr s1" "write_head s1 = Inr s2" "cache {} (logged s) s2"
    "did (map (\<lambda>i. (log_slot s i, view s (log_block s i))) [0..<n] @ [(st, header s (view s st))]) s s2"
    "\<And>i. i < n \<Longrightarrow> view s2 (log_slot s i) = view s (log_block s i)"
    "view s2 st = header s (view s st)"
proof -
  let ?A = "map (\<lambda>i. (log_slot s i, view s (log_block s i))) [0..<n]"
  let ?h = "header s (view s st)"
  note tr = trans_okD [OF ok]
  have nn: "n < NBUF" "n \<le> LOGBLOCKS" using assms(3) unfolding n_def by auto
  obtain s1 where s1: "write_log s = Inr s1" "cache {} (logged s) s1" "did ?A s s1"
    using write_log_loop_eq [OF tr(6) io tr(1), of 0 n] tr nn
    by (auto simp: write_log_def n_def)
  note k1 = didD [OF s1(3)]
  have sl: "log_slot s i \<noteq> st" if "i < n" for i using slot_facts(2) [OF ok] that nn by (auto simp: st_def)
  have v1: "view s1 st = view s st" unfolding k1(3)
    by (rule apply_map_other) (use sl in force)
  obtain s2 where s2: "write_head s1 = Inr s2" "cache {} (logged s) s2" "did [(st, ?h)] s1 s2"
    using write_head_eq [OF s1(2), unfolded k1(1,2), folded st_def, unfolded v1] io tr(1,7,9) nn k1(1)
    by (auto simp: log_placed_def st_def n_def)
  note k2 = didD [OF s2(3)]
  have v2: "view s2 (log_slot s i) = view s (log_block s i)" if i: "i < n" for i
  proof -
    have "view s2 (log_slot s i) = view s1 (log_slot s i)" using k2(3) sl [OF i] by simp
    also have "\<dots> = view s (log_block s i)" unfolding k1(3)
      using slot_facts(4) [OF ok nn(2)] i by (rule apply_map_at)
    finally show ?thesis .
  qed
  show thesis
    by (rule that [OF s1(1) s2(1,2) did_append [OF s1(3) s2(3)] v2]) (simp_all add: k2(3))
qed

text \<open>The second half installs the blocks, reading them back from the log.\<close>

lemma commit_install_phase:
  assumes ok: "trans_ok {} s" and io: "io_free s2" and n: "log_n s < int NBUF"
    and c: "cache {} (logged s) s2" and kl: "klog s2 = klog s"
    and v: "\<And>i. i < nat (log_n s) \<Longrightarrow> view s2 (log_slot s i) = view s (log_block s i)"
  obtains s3 where "install_trans False s2 = Inr s3" "cache {} {} s3"
    "did (map (\<lambda>i. (log_block s i, view s (log_block s i))) [0..<nat (log_n s)]) s2 s3"
proof -
  let ?n = "nat (log_n s)"
  note tr = trans_okD [OF ok]
  have nn: "?n < NBUF" "?n \<le> LOGBLOCKS" using n by auto
  have L2: "log_block s2 ` {0..<0 + ?n} = logged s" by (simp add: kl logged_def atLeast0LessThan)
  have "\<exists>s3. install_loop ?n False 0 s2 = Inr s3 \<and> cache {} {} s3 \<and>
      did (map (\<lambda>i. (log_block s2 i, view s2 (log_slot s2 i))) [0..<0 + ?n]) s2 s3"
  proof (rule install_loop_eq)
    show "cache {} (if False then {} else log_block s2 ` {0..<0 + ?n}) s2" unfolding L2 using c by simp
    show "inj_on (log_block s2) {0..<0 + ?n}" using tr(4) by (simp add: kl atLeast0LessThan)
    show "\<not> in_log (log_start (klog s2)) (log_block s2 i)" if "i < 0 + ?n" for i
      unfolding kl using that tr(5,8) by simp
  qed (use nn io tr(1) kl in \<open>auto simp: log_placed_def\<close>)
  moreover have "map (\<lambda>i. (log_block s2 i, view s2 (log_slot s2 i))) [0..<0 + ?n] =
      map (\<lambda>i. (log_block s i, view s (log_block s i))) [0..<?n]"
    using v by (simp add: kl log_slot_def)
  ultimately show thesis using that by (simp only: install_trans_def kl) blast
qed

lemma commit_eq:
  assumes ok: "trans_ok {} s" and io: "io_free s" and n: "0 < log_n s" "log_n s < int NBUF"
  shows "\<exists>s'. commit s = Inr s' \<and> cache {} {} s' \<and> did (commit_writes s) (set_lh_n 0 s) s'"
proof -
  let ?n = "nat (log_n s)" and ?st = "log_start (klog s)" and ?h = "header s (view s (log_start (klog s)))"
  let ?A = "map (\<lambda>i. (log_slot s i, view s (log_block s i))) [0..<?n]"
  let ?B = "map (\<lambda>i. (log_block s i, view s (log_block s i))) [0..<?n]"
  note tr = trans_okD [OF ok]
  obtain s1 s2 where s2: "write_log s = Inr s1" "write_head s1 = Inr s2" "cache {} (logged s) s2"
    "did (?A @ [(?st, ?h)]) s s2" "\<And>i. i < ?n \<Longrightarrow> view s2 (log_slot s i) = view s (log_block s i)"
    "view s2 ?st = ?h" by (rule commit_log_phase [OF ok io n(2)]) blast
  note k2 = didD [OF s2(4)]
  obtain s3 where s3: "install_trans False s2 = Inr s3" "cache {} {} s3" "did ?B s2 s3"
    by (rule commit_install_phase [OF ok _ n(2) s2(3) k2(1) s2(5)]) (use io k2(2) in auto)
  note k3 = didD [OF s3(3)]
  have v3: "view s3 ?st = ?h" unfolding k3(3)
    using apply_map_other [of ?st "log_block s" ?n] tr(7) s2(6) by (simp add: logged_def)
  let ?t = "set_lh_n 0 s3"
  have kt: "klog ?t = klog (set_lh_n 0 s)" using k3(1) k2(1) by (simp add: set_lh_n_def)
  have "\<exists>s4. write_head ?t = Inr s4 \<and> cache {} {} s4 \<and>
      did [(log_start (klog ?t), put_head (log_lh (klog ?t)) (view ?t (log_start (klog ?t))))] ?t s4"
    by (rule write_head_eq) (use s3(2) io k2(2) k3(1,2) tr(1) k2(1) in \<open>auto simp: log_placed_def\<close>)
  then obtain s4 where s4: "write_head ?t = Inr s4" "cache {} {} s4"
    "did [(?st, header (set_lh_n 0 s) ?h)] ?t s4" using v3 k3(1) k2(1) kt by auto
  have "did ((?A @ [(?st, ?h)]) @ ?B) (set_lh_n 0 s) ?t"
    unfolding set_lh_n_def by (intro did_set_log did_append [OF s2(4) s3(3)])
  then have "did (((?A @ [(?st, ?h)]) @ ?B) @ [(?st, header (set_lh_n 0 s) ?h)]) (set_lh_n 0 s) s4"
    using s4(3) by (rule did_append)
  then have "did (commit_writes s) (set_lh_n 0 s) s4" by (simp add: commit_writes_def Let_def)
  moreover have "commit s = Inr s4" using s2(1,2) s3(1) s4(1) n(1) by (simp add: commit_def)
  ultimately show ?thesis using s4(2) by blast
qed

text \<open>
  Recovery as a function of the disk: the blocks that the header names are copied to their
  homes and the header is cleared.
\<close>

definition head_ok :: "u32 \<Rightarrow> (u32 \<Rightarrow> block) \<Rightarrow> bool" where
  "head_ok st d \<longleftrightarrow> 0 \<le> head_n (d st) \<and> head_n (d st) \<le> int LOGBLOCKS \<and>
     (\<forall>i < nat (head_n (d st)). \<not> in_log st (head_block (d st) i))"

definition recover_writes :: "u32 \<Rightarrow> (u32 \<Rightarrow> block) \<Rightarrow> (u32 \<times> block) list" where
  "recover_writes st d =
     map (\<lambda>i. (head_block (d st) i, d (slot_of st i))) [0..<nat (head_n (d st))] @
     [(st, put32 (d st) 0 (0 :: u32))]"

definition recovered :: "u32 \<Rightarrow> (u32 \<Rightarrow> block) \<Rightarrow> u32 \<Rightarrow> block" where
  "recovered st d = apply_writes (recover_writes st d) d"

lemma put_head_0: "lh_n lh = 0 \<Longrightarrow> put_head lh d = put32 d 0 0"
  by (simp add: put_head_def)

lemma recover_eq:
  assumes c: "cache {} {} s" and io: "io_free s" and pl: "log_placed s"
    and ok: "head_ok (log_start (klog s)) (disk s)"
  shows "\<exists>s'. recover_from_log s = Inr s' \<and> cache {} {} s' \<and> io_free s' \<and> log_n s' = 0 \<and>
    log_start (klog s') = log_start (klog s) \<and> log_dev (klog s') = ROOTDEV \<and>
    log_outstanding (klog s') = log_outstanding (klog s) \<and>
    log_committing (klog s') = log_committing (klog s) \<and>
    disk s' = recovered (log_start (klog s)) (disk s) \<and> view s' = disk s' \<and>
    dwrites s' = dwrites s @ recover_writes (log_start (klog s)) (disk s)"
proof -
  let ?st = "log_start (klog s)" and ?d = "disk s"
  let ?n = "nat (head_n (?d ?st))" and ?f = "\<lambda>l. l\<lparr>log_lh := loaded (view s ?st) (log_lh l)\<rparr>"
  have v: "view t = disk t" if "cache {} {} t" for t by (rule ext, rule view_clean [OF that]) auto
  obtain s1 where s1: "read_head s = Inr s1" "cache {} {} s1" "did [] (set_log ?f s) s1"
    using read_head_eq [OF c io pl] by auto
  note k1 = didD [OF s1(3), simplified]
  have n1: "nat (log_n s1) = ?n" and b1: "\<And>i. i < ?n \<Longrightarrow> log_block s1 i = head_block (?d ?st) i"
    by (auto simp: k1(1) loaded_def v [OF c] zless_nat_eq_int_zless)
  have st1: "log_start (klog s1) = ?st" by (simp add: k1(1))
  have "\<exists>s2. install_loop ?n True 0 s1 = Inr s2 \<and> cache {} {} s2 \<and>
      did (map (\<lambda>i. (log_block s1 i, view s1 (log_slot s1 i))) [0..<0 + ?n]) s1 s2"
    using ok b1 by (intro install_loop_eq) (use s1(2) k1 io pl in \<open>auto simp: log_placed_def head_ok_def\<close>)
  moreover have "map (\<lambda>i. (log_block s1 i, view s1 (log_slot s1 i))) [0..<0 + ?n] =
      map (\<lambda>i. (head_block (?d ?st) i, ?d (slot_of ?st i))) [0..<?n]"
    using b1 by (simp add: k1(3) v [OF c] log_slot_eq st1)
  ultimately obtain s2 where s2: "install_trans True s1 = Inr s2" "cache {} {} s2"
    "did (map (\<lambda>i. (head_block (?d ?st) i, ?d (slot_of ?st i))) [0..<?n]) s1 s2"
    by (simp only: install_trans_def n1) blast
  note k2 = didD [OF s2(3)]
  have "?st \<notin> head_block (?d ?st) ` {..<?n}" using ok by (auto simp: head_ok_def in_log_def)
  then have v2: "view s2 ?st = ?d ?st"
    unfolding k2(3) using apply_map_other [of ?st] by (simp add: k1(3) v [OF c])
  let ?t = "set_lh_n 0 s2"
  have "\<exists>s3. write_head ?t = Inr s3 \<and> cache {} {} s3 \<and>
      did [(log_start (klog ?t), put_head (log_lh (klog ?t)) (view ?t (log_start (klog ?t))))] ?t s3"
    by (rule write_head_eq) (use s2(2) io k2(1,2) k1(1,2) pl in \<open>auto simp: log_placed_def\<close>)
  then obtain s3 where s3: "write_head ?t = Inr s3" "cache {} {} s3"
    "did [(?st, put32 (?d ?st) 0 0)] ?t s3" using v2 k2(1) k1(1) by (auto simp: put_head_0)
  note k3 = didD [OF s3(3)]
  have "disk s3 = recovered ?st ?d" "dwrites s3 = dwrites s @ recover_writes ?st ?d"
    unfolding recovered_def recover_writes_def apply_writes_append
    using k3(4,5) k2(4,5) k1(4,5) by simp_all
  moreover have "recover_from_log s = Inr s3" using s1(1) s2(1) s3(1) by (simp add: recover_from_log_def)
  moreover have "klog s3 = klog (set_lh_n 0 s2)" "klog s2 = ?f (klog s)" using k3(1) k2(1) k1(1) by simp_all
  ultimately show ?thesis
    using s3(2) v [OF s3(2)] k3(2) k2(2) k1(2) io pl
    by (simp add: log_placed_def) (simp add: set_lh_n_def)
qed

lemma recovered_idle:
  assumes "head_n (d st) = 0" "b \<noteq> st"
  shows "recovered st d b = d b"
  using assms by (simp add: recovered_def recover_writes_def)

lemma recovered_header:
  "head_n (recovered st d st) = 0"
  by (simp add: recovered_def recover_writes_def apply_writes_append head_n_def)

lemma recovered_at:
  assumes "inj_on (head_block (d st)) {..<nat (head_n (d st))}" "i < nat (head_n (d st))"
    "head_block (d st) i \<noteq> st"
  shows "recovered st d (head_block (d st) i) = d (slot_of st i)"
  using apply_map_at [OF assms(1,2)] assms(3)
  by (simp add: recovered_def recover_writes_def apply_writes_append)

lemma recovered_other:
  assumes "b \<notin> head_block (d st) ` {..<nat (head_n (d st))}" "b \<noteq> st"
  shows "recovered st d b = d b"
  using apply_map_other [OF assms(1)] assms(2)
  by (simp add: recovered_def recover_writes_def apply_writes_append)

subsection \<open>Crashes\<close>

text \<open>The disk when the machine stops after \<open>k\<close> of the writes of a commit.\<close>

definition crash_disk :: "kstate \<Rightarrow> nat \<Rightarrow> u32 \<Rightarrow> block" where
  "crash_disk s k = apply_writes (take k (commit_writes s)) (disk s)"

lemma crash_before:
  assumes ok: "trans_ok {} s" and k: "k \<le> nat (log_n s)"
  shows "crash_disk s k (log_start (klog s)) = disk s (log_start (klog s))"
    "\<not> in_log (log_start (klog s)) b \<Longrightarrow> crash_disk s k b = disk s b"
proof -
  let ?n = "nat (log_n s)"
  have n: "?n \<le> LOGBLOCKS" using trans_okD(3) [OF ok] by simp
  have "take k (commit_writes s) = map (\<lambda>i. (log_slot s i, view s (log_block s i))) [0..<k]"
    using k by (simp add: commit_writes_def Let_def take_map)
  then have e: "crash_disk s k b = disk s b" if "b \<notin> log_slot s ` {..<k}" for b
    unfolding crash_disk_def using apply_map_other [OF that] by simp
  show "crash_disk s k (log_start (klog s)) = disk s (log_start (klog s))"
    by (rule e) (use slot_image(1) [OF ok] k n in simp)
  show "crash_disk s k b = disk s b" if "\<not> in_log (log_start (klog s)) b"
    by (rule e) (use slot_image(2) [OF ok] k n that in simp)
qed

lemma crash_between:
  assumes ok: "trans_ok {} s" and k: "nat (log_n s) < k" "k \<le> 2 * nat (log_n s) + 1"
  defines "st \<equiv> log_start (klog s)"
  shows "crash_disk s k st = header s (view s st)"
    "i < nat (log_n s) \<Longrightarrow> crash_disk s k (log_slot s i) = view s (log_block s i)"
    "b \<notin> logged s \<Longrightarrow> \<not> in_log st b \<Longrightarrow> crash_disk s k b = disk s b"
proof -
  let ?n = "nat (log_n s)" let ?m = "k - ?n - 1"
  let ?A = "map (\<lambda>i. (log_slot s i, view s (log_block s i))) [0..<?n]"
  let ?B = "map (\<lambda>i. (log_block s i, view s (log_block s i))) [0..<?m]"
  let ?h = "header s (view s st)"
  have n: "?n \<le> LOGBLOCKS" using trans_okD(3) [OF ok] by simp
  have m: "?m \<le> ?n" "k = ?n + Suc ?m" using k by auto
  have "take k (commit_writes s) = ?A @ [(st, ?h)] @ ?B"
    using m(1) by (subst m(2)) (simp add: commit_writes_def Let_def take_map st_def)
  then have d: "crash_disk s k = apply_writes ?B ((apply_writes ?A (disk s))(st := ?h))"
    by (simp add: crash_disk_def apply_writes_append)
  have img: "log_block s ` {..<?m} \<subseteq> logged s" using m by (auto simp: logged_def)
  have stn: "st \<notin> logged s" using trans_okD(7) [OF ok] by (simp add: st_def)
  have B: "apply_writes ?B x b = x b" if "b \<notin> logged s" for x b
    by (rule apply_map_other) (use that img in auto)
  show "crash_disk s k st = ?h" unfolding d B [OF stn] by simp
  show "crash_disk s k (log_slot s i) = view s (log_block s i)" if i: "i < ?n"
  proof -
    have "log_slot s i \<notin> logged s" "log_slot s i \<noteq> st"
      using slot_facts(1,2) [OF ok] i n by (auto simp: st_def)
    then have "crash_disk s k (log_slot s i) = apply_writes ?A (disk s) (log_slot s i)"
      unfolding d by (subst B) simp_all
    then show ?thesis using apply_map_at [OF slot_facts(4) [OF ok n] i] by simp
  qed
  show "crash_disk s k b = disk s b" if b: "b \<notin> logged s" "\<not> in_log st b"
  proof -
    have "b \<noteq> st" using b(2) by (auto simp: in_log_def)
    moreover have "b \<notin> log_slot s ` {..<?n}"
      using slot_image(2) [OF ok n] b(2) by (simp add: st_def)
    ultimately show ?thesis unfolding d B [OF b(1)] by (simp add: apply_map_other)
  qed
qed

lemma crash_after:
  assumes ok: "trans_ok {} s" and k: "2 * nat (log_n s) + 1 < k"
  shows "head_n (crash_disk s k (log_start (klog s))) = 0"
    "b \<noteq> log_start (klog s) \<Longrightarrow> crash_disk s k b = crash_disk s (2 * nat (log_n s) + 1) b"
    "i < nat (log_n s) \<Longrightarrow> crash_disk s k (log_block s i) = view s (log_block s i)"
proof -
  let ?n = "nat (log_n s)" and ?st = "log_start (klog s)"
  let ?h = "header (set_lh_n 0 s) (header s (view s ?st))"
  have "take k (commit_writes s) = take (2 * ?n + 1) (commit_writes s) @ [(?st, ?h)]"
    using k by (simp add: commit_writes_def Let_def take_Cons')
  then have d: "crash_disk s k = (crash_disk s (2 * ?n + 1))(?st := ?h)"
    by (simp add: crash_disk_def apply_writes_append)
  show "head_n (crash_disk s k ?st) = 0" unfolding d by (simp add: head_n_put_head)
  show other: "crash_disk s k b = crash_disk s (2 * ?n + 1) b" if "b \<noteq> ?st" for b
    using that unfolding d by simp
  show "crash_disk s k (log_block s i) = view s (log_block s i)" if i: "i < ?n"
  proof -
    have "log_block s i \<noteq> ?st" using trans_okD(7,8) [OF ok] i by metis
    then have "crash_disk s k (log_block s i) = crash_disk s (2 * ?n + 1) (log_block s i)" by (rule other)
    also have "\<dots> = view s (log_block s i)"
      unfolding crash_disk_def commit_writes_def Let_def
      using apply_map_at [OF trans_okD(4) [OF ok] i] by (simp add: apply_writes_append)
    finally show ?thesis .
  qed
qed

subsection \<open>Writing a block within a transaction\<close>

text \<open>What the operations on a transaction may change besides buffers and sleeping processes.\<close>

definition fs_frame :: "kstate \<Rightarrow> kstate \<Rightarrow> bool" where
  "fs_frame s s' \<longleftrightarrow> io_frame (s\<lparr>klog := klog s'\<rparr>) s' \<and> klog s' = (klog s)\<lparr>log_lh := log_lh (klog s')\<rparr>"

lemma io_fs_frame: "io_frame s s' \<Longrightarrow> fs_frame s s'"
  using io_frameD(11) [of s s'] by (simp add: fs_frame_def)

lemma fs_frame_refl [simp]: "fs_frame s s"
  by (simp add: fs_frame_def)

lemma io_frame_klog: "io_frame s t \<Longrightarrow> io_frame (s\<lparr>klog := l\<rparr>) (t\<lparr>klog := l\<rparr>)"
  using io_frame_set_log [of s t "\<lambda>_. l"] by (simp add: set_log_def)

lemma fs_frame_trans [trans]:
  assumes "fs_frame s t" "fs_frame t u"
  shows "fs_frame s u"
proof -
  have "io_frame (s\<lparr>klog := klog u\<rparr>) (t\<lparr>klog := klog u\<rparr>)"
    using io_frame_klog [of "s\<lparr>klog := klog t\<rparr>" t "klog u"] assms(1) by (simp add: fs_frame_def)
  moreover have "io_frame (t\<lparr>klog := klog u\<rparr>) u" using assms(2) by (simp add: fs_frame_def)
  ultimately have "io_frame (s\<lparr>klog := klog u\<rparr>) u" by (rule io_frame_trans)
  moreover have "klog u = (klog s)\<lparr>log_lh := log_lh (klog u)\<rparr>"
  proof -
    have t: "klog t = (klog s)\<lparr>log_lh := log_lh (klog t)\<rparr>" and u: "klog u = (klog t)\<lparr>log_lh := log_lh (klog u)\<rparr>"
      using assms by (simp_all only: fs_frame_def)
    show ?thesis by (subst u, subst t) simp
  qed
  ultimately show ?thesis by (simp add: fs_frame_def)
qed

lemma fs_frameD:
  assumes "fs_frame s s'"
  shows "mem s' = mem s" "kend s' = kend s" "freelist s' = freelist s" "held s' = held s"
    "cur s' = cur s" "initproc s' = initproc s" "nextpid s' = nextpid s" "ticks s' = ticks s"
    "tframes s' = tframes s" "pipes s' = pipes s" "sb s' = sb s"
    "itable s' = itable s" "ftable s' = ftable s" "devsw_read s' = devsw_read s"
    "devsw_write s' = devsw_write s" "myproc s' = myproc s" "io_free s' = io_free s"
    "log_start (klog s') = log_start (klog s)" "log_dev (klog s') = log_dev (klog s)"
    "log_outstanding (klog s') = log_outstanding (klog s)"
    "log_committing (klog s') = log_committing (klog s)" "log_placed s' = log_placed s"
proof -
  have f: "io_frame (s\<lparr>klog := klog s'\<rparr>) s'" and k: "klog s' = (klog s)\<lparr>log_lh := log_lh (klog s')\<rparr>"
    using assms by (simp_all only: fs_frame_def)
  show "mem s' = mem s" "kend s' = kend s" "freelist s' = freelist s" "held s' = held s"
    "cur s' = cur s" "initproc s' = initproc s" "nextpid s' = nextpid s" "ticks s' = ticks s"
    "tframes s' = tframes s" "pipes s' = pipes s" "sb s' = sb s"
    "itable s' = itable s" "ftable s' = ftable s" "devsw_read s' = devsw_read s"
    "devsw_write s' = devsw_write s" "myproc s' = myproc s"
    using io_frameD [OF f] by simp_all
  then show "io_free s' = io_free s" by (intro io_free_cong)
  show l: "log_start (klog s') = log_start (klog s)" "log_dev (klog s') = log_dev (klog s)"
    "log_outstanding (klog s') = log_outstanding (klog s)"
    "log_committing (klog s') = log_committing (klog s)" by (subst k, simp)+
  then show "log_placed s' = log_placed s" by (simp add: log_placed_def)
qed

lemma logged_cong: "klog s' = klog s \<Longrightarrow> logged s' = logged s"
  by (simp add: logged_def)

lemma log_write_absorbed:
  assumes ok: "trans_ok H s" and i: "i \<in> H" and lk: "Lk_log \<notin> set (held s)"
    and n: "log_n s < int LOGBLOCKS" "0 < log_outstanding (klog s)"
    and b: "b_blockno (bufs s i) \<in> logged s"
  shows "log_write i s = Inr s"
proof -
  let ?bn = "b_blockno (bufs s i)"
  obtain x where "x < nat (log_n s)" "log_block s x = ?bn" using b by (auto simp: logged_def)
  then obtain j where j: "scan (\<lambda>i. log_block s i = ?bn) 0 (nat (log_n s)) = Some j"
    using scan_found [of "\<lambda>i. log_block s i = ?bn" x 0 "nat (log_n s)"] by blast
  then have jb: "j < nat (log_n s)" "log_block s j = ?bn" by (auto dest: scan_hit)
  have "int j \<noteq> log_n s" using jb(1) by auto
  then show ?thesis using lk n jb j
    by (simp add: log_write_def Let_def) (simp add: set_log_def fun_upd_idem)
qed

definition log_append :: "u32 \<Rightarrow> kstate \<Rightarrow> kstate" where
  "log_append bn s = set_log (\<lambda>l. l\<lparr>log_lh := \<lparr>lh_n = lh_n (log_lh l) + 1,
     lh_block = (lh_block (log_lh l))(nat (lh_n (log_lh l)) := bn)\<rparr>\<rparr>) s"

lemma log_write_new:
  assumes ok: "trans_ok H s" and i: "i \<in> H" and io: "io_free s" and lk: "Lk_log \<notin> set (held s)"
    and n: "log_n s < int LOGBLOCKS" "0 < log_outstanding (klog s)"
    and b: "b_blockno (bufs s i) \<notin> logged s"
  shows "log_write i s = Inr (add_ref i 1 (log_append (b_blockno (bufs s i)) s))"
proof -
  let ?bn = "b_blockno (bufs s i)" and ?n = "nat (log_n s)"
  have j: "scan (\<lambda>i. log_block s i = ?bn) 0 ?n = None"
    using b unfolding logged_def scan_None_iff by (metis imageI lessThan_iff)
  let ?s1 = "set_log (\<lambda>l. l\<lparr>log_lh := (log_lh l)\<lparr>lh_block := (lh_block (log_lh l))(?n := ?bn)\<rparr>\<rparr>) (s\<lparr>held := Lk_log # held s\<rparr>)"
  have "io_free ?s1" using io by (auto simp: io_free_def no_plocks_def)
  then have p: "bpin i ?s1 = Inr (add_ref i 1 ?s1)" by (rule bpin_eq)
  have "int ?n = log_n s" using trans_okD(2) [OF ok] by simp
  then show ?thesis using lk n j p
    by (simp add: log_write_def Let_def log_append_def add_ref_def set_buf_def set_log_def set_lh_n_def)
qed

lemma log_write_eq:
  assumes ok: "trans_ok H s" and i: "i \<in> H" and io: "io_free s" and lk: "Lk_log \<notin> set (held s)"
    and n: "log_n s < int LOGBLOCKS" "0 < log_outstanding (klog s)"
    and b: "\<not> in_log (log_start (klog s)) (b_blockno (bufs s i))"
  shows "\<exists>s'. log_write i s = Inr s' \<and> trans_ok H s' \<and> logged s' = insert (b_blockno (bufs s i)) (logged s) \<and>
    view s' = view s \<and> disk s' = disk s \<and> dwrites s' = dwrites s \<and> fs_frame s s' \<and>
    (\<forall>j. b_data (bufs s' j) = b_data (bufs s j) \<and> b_blockno (bufs s' j) = b_blockno (bufs s j))"
proof (cases "b_blockno (bufs s i) \<in> logged s")
  case True
  then show ?thesis using log_write_absorbed [OF ok i lk n True] ok by (auto simp: insert_absorb)
next
  case False
  let ?bn = "b_blockno (bufs s i)" and ?n = "nat (log_n s)"
  let ?t = "log_append ?bn s" let ?s = "add_ref i 1 ?t"
  note tr = trans_okD [OF ok]
  have kl: "log_n ?s = log_n s + 1" "log_block ?s = (log_block s)(?n := ?bn)"
    "log_start (klog ?s) = log_start (klog s)" "log_dev (klog ?s) = log_dev (klog s)"
    by (simp_all add: log_append_def)
  have n1: "{..<nat (log_n s + 1)} = insert ?n {..<?n}" using tr(2) by (auto simp: nat_add_distrib)
  have nb: "log_block s x \<noteq> ?bn" if "x < ?n" for x using tr(8) [OF that] False by metis
  have lg: "logged ?s = insert ?bn (logged s)" unfolding logged_def kl n1 by auto
  have "inj_on (log_block ?s) {..<nat (log_n ?s)}"
    unfolding kl n1 using tr(4) nb by (simp add: inj_on_def) (metis lessThan_iff)
  moreover have "cache H (insert ?bn (logged s)) ?s"
    using bpin_cache [of H "logged s" ?t i] tr(6) i False by (simp add: log_append_def)
  ultimately have "trans_ok H ?s"
    unfolding trans_ok_def lg kl log_placed_def using tr b n by (auto simp: log_placed_def)
  moreover have "fs_frame s ?s"
    by (simp add: fs_frame_def log_append_def add_ref_def set_buf_def set_log_def io_frame_def)
  moreover have "view ?s = view s" by (simp add: log_append_def)
  ultimately show ?thesis using log_write_new [OF ok i io lk n False] lg
    by (auto simp: log_append_def)
qed

text \<open>
  The state in which file-system code runs: inside a transaction, holding the buffers \<open>H\<close> and
  none of the locks that the operations below take.
\<close>

definition txn :: "nat set \<Rightarrow> kstate \<Rightarrow> bool" where
  "txn H s \<longleftrightarrow> trans_ok H s \<and> io_free s \<and> Lk_log \<notin> set (held s) \<and> 0 < log_outstanding (klog s)"

text \<open>
  From \<open>s\<close> to \<open>s'\<close> within the transaction: the blocks are now \<open>v\<close>, the blocks \<open>D\<close> have been
  logged, nothing has been written to the disk, and the held buffers are as they were.
\<close>

definition fs_step :: "nat set \<Rightarrow> (u32 \<Rightarrow> block) \<Rightarrow> u32 set \<Rightarrow> kstate \<Rightarrow> kstate \<Rightarrow> bool" where
  "fs_step H v D s s' \<longleftrightarrow> txn H s' \<and> view s' = v \<and> disk s' = disk s \<and> dwrites s' = dwrites s \<and>
     fs_frame s s' \<and> logged s' = logged s \<union> D \<and>
     (\<forall>j\<in>H. b_data (bufs s' j) = b_data (bufs s j) \<and> b_blockno (bufs s' j) = b_blockno (bufs s j))"

lemma fs_step_refl: "txn H s \<Longrightarrow> fs_step H (view s) {} s s"
  by (simp add: fs_step_def)

lemma fs_step_trans: "fs_step H v D s t \<Longrightarrow> fs_step H w E t u \<Longrightarrow> fs_step H w (D \<union> E) s u"
  by (auto simp: fs_step_def intro: fs_frame_trans)

lemma fs_stepD:
  assumes "fs_step H v D s s'"
  shows "txn H s'" "view s' = v" "disk s' = disk s" "dwrites s' = dwrites s" "fs_frame s s'"
    "logged s' = logged s \<union> D" "j \<in> H \<Longrightarrow> b_data (bufs s' j) = b_data (bufs s j)"
    "j \<in> H \<Longrightarrow> b_blockno (bufs s' j) = b_blockno (bufs s j)"
  using assms by (auto simp: fs_step_def)

lemma txnD:
  assumes "txn H s"
  shows "trans_ok H s" "io_free s" "Lk_log \<notin> set (held s)" "0 < log_outstanding (klog s)"
    "cache H (logged s) s" "finite H" "finite (logged s)"
proof -
  show "trans_ok H s" "io_free s" "Lk_log \<notin> set (held s)" "0 < log_outstanding (klog s)"
    using assms by (auto simp: txn_def)
  then show c: "cache H (logged s) s" by (auto dest: trans_okD)
  show "finite H" using finite_subset [OF cacheD(3) [OF c]] by simp
  show "finite (logged s)" using cacheD(4) [OF c] .
qed

lemma txn_io:
  assumes "txn H s" "io_frame s s'" "cache H' (logged s) s'"
  shows "txn H' s'"
  using assms io_frameD [OF assms(2)] logged_cong [of s' s]
  by (simp add: txn_def trans_ok_def log_placed_def)

lemma txn_bread:
  assumes t: "txn H s" and nh: "\<And>i. i \<in> H \<Longrightarrow> b_blockno (bufs s i) \<noteq> bn"
    and n: "card H + card (logged s) < NBUF"
  obtains i where "bread ROOTDEV bn s = Inr (i, got bn i s)" "i \<notin> H" "i < NBUF" "txn (insert i H) (got bn i s)"
    "view (got bn i s) = view s"
proof -
  obtain i where i: "bread ROOTDEV bn s = Inr (i, got bn i s)" "i < NBUF" "i \<notin> H"
    "cache (insert i H) (logged s) (got bn i s)" "view (got bn i s) = view s"
    by (rule bread_cache [OF txnD(5,2) [OF t] nh]) (use n in auto)
  show thesis by (rule that [OF i(1,3,2) txn_io [OF t got_simps(13) i(4)] i(5)])
qed

lemma txn_brelse:
  assumes t: "txn H s" and i: "i \<in> H" and c: "b_blockno (bufs s i) \<in> logged s \<or> clean s i"
  shows "brelse i s = Inr (released i s)" "txn (H - {i}) (released i s)" "view (released i s) = view s"
    "fs_step (H - {i}) (view s) {} s (released i s)"
proof -
  show "brelse i s = Inr (released i s)" by (rule brelse_eq [OF txnD(5,2) [OF t] i])
  show v: "view (released i s) = view s" by (rule brelse_cache(2) [OF txnD(5) [OF t] i c])
  show t': "txn (H - {i}) (released i s)"
    by (rule txn_io [OF t released_frame(1) brelse_cache(1) [OF txnD(5) [OF t] i c]])
  show "fs_step (H - {i}) (view s) {} s (released i s)"
    using t' v logged_cong [of "released i s" s] by (simp add: fs_step_def io_fs_frame)
qed

lemma txn_update:
  assumes t: "txn H s" and i: "i \<in> H" and b: "\<not> in_log (log_start (klog s)) (b_blockno (bufs s i))"
    and n: "log_n s < int LOGBLOCKS"
  shows "\<exists>s'. log_write i (set_data i d s) = Inr s' \<and> txn H s' \<and>
    view s' = (view s)(b_blockno (bufs s i) := d) \<and> disk s' = disk s \<and> dwrites s' = dwrites s \<and>
    fs_frame s s' \<and> logged s' = insert (b_blockno (bufs s i)) (logged s) \<and>
    (\<forall>j. b_data (bufs s' j) = (if j = i then d else b_data (bufs s j)) \<and>
         b_blockno (bufs s' j) = b_blockno (bufs s j))"
proof -
  let ?s = "set_data i d s"
  note c = set_data_cache [OF txnD(5) [OF t] i, of d]
  have t1: "txn H ?s" by (rule txn_io [OF t _ c(1)]) simp
  obtain s' where s': "log_write i ?s = Inr s'" "trans_ok H s'"
    "logged s' = insert (b_blockno (bufs ?s i)) (logged ?s)" "view s' = view ?s" "disk s' = disk ?s"
    "dwrites s' = dwrites ?s" "fs_frame ?s s'"
    "\<forall>j. b_data (bufs s' j) = b_data (bufs ?s j) \<and> b_blockno (bufs s' j) = b_blockno (bufs ?s j)"
    using log_write_eq [OF txnD(1) [OF t1] i txnD(2,3) [OF t1]] n txnD(4) [OF t] b by auto
  have "fs_frame s ?s" by (rule io_fs_frame) simp
  then have f: "fs_frame s s'" using s'(7) by (rule fs_frame_trans)
  then have "txn H s'" using s'(2) t fs_frameD [OF f] by (simp add: txn_def)
  moreover have "logged ?s = logged s" by (rule logged_cong) simp
  ultimately show ?thesis using s' f c(2) by auto
qed

text \<open>Reading a block, and \<^verbatim>\<open>bread\<close>, changing the data, \<^verbatim>\<open>log_write\<close>, \<^verbatim>\<open>brelse\<close>.\<close>

lemma txn_read:
  assumes t: "txn H s" and nh: "\<And>i. i \<in> H \<Longrightarrow> b_blockno (bufs s i) \<noteq> bn"
    and n: "card H + card (logged s) < NBUF"
  obtains i s1 s2 where "bread ROOTDEV bn s = Inr (i, s1)" "b_data (bufs s1 i) = view s bn"
    "brelse i s1 = Inr s2" "fs_step H (view s) {} s s2" "fs_frame s s1"
proof -
  obtain i where i: "bread ROOTDEV bn s = Inr (i, got bn i s)" "i \<notin> H" "i < NBUF"
    "txn (insert i H) (got bn i s)" "view (got bn i s) = view s"
    by (rule txn_bread [OF assms])
  have gh: "bufs (got bn i s) j = bufs s j" if "j \<in> H" for j using i(2) that by (metis got_simps(8))
  have lg: "logged (got bn i s) = logged s" by (rule logged_cong) simp
  have "bn \<in> logged s \<or> view s bn = disk s bn" using view_clean [OF txnD(5) [OF t], of bn] nh by auto
  then have cl: "b_blockno (bufs (got bn i s) i) \<in> logged (got bn i s) \<or> clean (got bn i s) i"
    by (auto simp: lg intro: clean_got)
  note r = txn_brelse [OF i(4) _ cl, simplified]
  have "insert i H - {i} = H" using i(2) by auto
  then have "fs_step H (view s) {} (got bn i s) (released i (got bn i s))" using r(4) i(5) by simp
  then have fin: "fs_step H (view s) {} s (released i (got bn i s))"
    using gh lg fs_frame_trans [OF io_fs_frame [OF got_simps(13) [of s bn i]]]
    by (simp add: fs_step_def)
  show thesis by (rule that [OF i(1) _ r(1) fin]) (simp_all add: io_fs_frame)
qed

lemma txn_write:
  assumes t: "txn H s" and nh: "\<And>i. i \<in> H \<Longrightarrow> b_blockno (bufs s i) \<noteq> bn"
    and n: "card H + card (logged s) < NBUF" and b: "\<not> in_log (log_start (klog s)) bn"
  obtains i s1 where "bread ROOTDEV bn s = Inr (i, s1)" "b_data (bufs s1 i) = view s bn" "fs_frame s s1"
    "\<And>d. \<exists>s2 s3. log_write i (set_data i d s1) = Inr s2 \<and> brelse i s2 = Inr s3 \<and>
       fs_step H ((view s)(bn := d)) {bn} s s3"
proof -
  obtain i where i: "bread ROOTDEV bn s = Inr (i, got bn i s)" "i \<notin> H" "i < NBUF"
    "txn (insert i H) (got bn i s)" "view (got bn i s) = view s"
    by (rule txn_bread [OF t nh n])
  have gh: "bufs (got bn i s) j = bufs s j" if "j \<in> H" for j using i(2) that by (metis got_simps(8))
  have lg: "logged (got bn i s) = logged s" by (rule logged_cong) simp
  have "card (logged s) < LOGBLOCKS" using n by simp
  then have ln: "log_n (got bn i s) < int LOGBLOCKS"
    using trans_okD(9) [OF txnD(1) [OF t]] trans_okD(2) [OF txnD(1) [OF t]] by simp
  have "\<exists>s2 s3. log_write i (set_data i d (got bn i s)) = Inr s2 \<and> brelse i s2 = Inr s3 \<and>
      fs_step H ((view s)(bn := d)) {bn} s s3" for d
  proof -
    obtain s2 where s2: "log_write i (set_data i d (got bn i s)) = Inr s2" "txn (insert i H) s2"
      "view s2 = (view s)(bn := d)" "disk s2 = disk s" "dwrites s2 = dwrites s" "fs_frame (got bn i s) s2"
      "logged s2 = insert bn (logged s)"
      "\<forall>j. b_data (bufs s2 j) = (if j = i then d else b_data (bufs (got bn i s) j)) \<and>
         b_blockno (bufs s2 j) = b_blockno (bufs (got bn i s) j)"
      using txn_update [OF i(4), of i d] b ln i(5) lg by auto
    have "b_blockno (bufs s2 i) \<in> logged s2 \<or> clean s2 i" using s2(7,8) by simp
    note r = txn_brelse [OF s2(2) _ this, simplified]
    have "insert i H - {i} = H" using i(2) by auto
    then have "fs_step H (view s2) {} s2 (released i s2)" using r(4) by simp
    moreover have "fs_frame s s2"
      using io_fs_frame [OF got_simps(13)] s2(6) by (rule fs_frame_trans)
    ultimately have "fs_step H ((view s)(bn := d)) {bn} s (released i s2)"
      using i(2) gh s2(3-5,7,8) by (auto simp: fs_step_def intro: fs_frame_trans)
    then show ?thesis using s2(1) r(1) by blast
  qed
  note w = this
  show thesis by (rule that [OF i(1) _ _ w]) (simp_all add: io_fs_frame)
qed

subsection \<open>Crash atomicity\<close>

lemma crash_recovered:
  assumes ok: "trans_ok {} s" and n: "0 < log_n s" and idle: "head_n (disk s (log_start (klog s))) = 0"
  shows "head_ok (log_start (klog s)) (crash_disk s k)"
    "\<not> in_log (log_start (klog s)) b \<Longrightarrow>
       recovered (log_start (klog s)) (crash_disk s k) b = (if k \<le> nat (log_n s) then disk s b else view s b)"
proof -
  let ?st = "log_start (klog s)" and ?d = "crash_disk s k" and ?n = "nat (log_n s)"
  note tr = trans_okD [OF ok]
  have hn: "head_n (header s (view s ?st)) = log_n s" using tr(2,3) by (rule head_n_put_head)
  have hb: "head_block (header s (view s ?st)) i = log_block s i" if "i < ?n" for i
    using that by (intro head_block_put_head) simp
  have nst: "b \<noteq> ?st" if "\<not> in_log ?st b" for b using that by (auto simp: in_log_def)
  have clean: "view s b = disk s b" if "b \<notin> logged s" for b using view_clean [OF tr(6) that] by simp
  consider (before) "k \<le> ?n" | (between) "?n < k" "k \<le> 2 * ?n + 1" | (after) "2 * ?n + 1 < k" by linarith
  then have "head_ok ?st ?d \<and> (\<forall>b. \<not> in_log ?st b \<longrightarrow>
      recovered ?st ?d b = (if k \<le> ?n then disk s b else view s b))"
  proof cases
    case before
    note e = crash_before [OF ok before]
    show ?thesis using e idle before nst by (auto simp: head_ok_def recovered_idle)
  next
    case between
    note e = crash_between [OF ok between]
    have blk: "head_block (?d ?st) i = log_block s i" if "i < ?n" for i using that by (simp add: e(1) hb)
    have inj: "inj_on (head_block (?d ?st)) {..<?n}" using tr(4) blk by (simp add: inj_on_def)
    have img: "head_block (?d ?st) ` {..<?n} = logged s" using blk by (simp add: logged_def)
    have "recovered ?st ?d b = view s b" if b: "\<not> in_log ?st b" for b
    proof (cases "b \<in> logged s")
      case True
      then obtain i where i: "i < ?n" "b = head_block (?d ?st) i" using img by auto
      have "recovered ?st ?d b = ?d (slot_of ?st i)"
        unfolding i(2) by (rule recovered_at) (use inj i nst [OF b] hn e(1) in simp_all)
      then show ?thesis using e(2) [OF i(1)] i blk by (simp add: log_slot_eq)
    next
      case False
      then have "recovered ?st ?d b = ?d b"
        using nst [OF b] img hn e(1) by (intro recovered_other) simp_all
      then show ?thesis using e(3) [OF False b] clean [OF False] by simp
    qed
    moreover have "head_ok ?st ?d" using tr(2,3,5,8) blk hn by (simp add: head_ok_def e(1))
    ultimately show ?thesis using between by simp
  next
    case after
    note e = crash_after [OF ok after]
    have "recovered ?st ?d b = view s b" if b: "\<not> in_log ?st b" for b
    proof (cases "b \<in> logged s")
      case True
      then obtain i where "i < ?n" "b = log_block s i" by (auto simp: logged_def)
      then show ?thesis using e(1) e(3) nst [OF b] by (simp add: recovered_idle)
    next
      case False
      have "?d b = disk s b"
        using e(2) [OF nst [OF b]] crash_between(3) [OF ok _ _ False b, of "2 * ?n + 1"] n by simp
      then show ?thesis using e(1) nst [OF b] clean [OF False] by (simp add: recovered_idle)
    qed
    then show ?thesis using after e(1) by (simp add: head_ok_def)
  qed
  then show "head_ok ?st ?d" "\<not> in_log ?st b \<Longrightarrow> recovered ?st ?d b = (if k \<le> ?n then disk s b else view s b)"
    by blast+
qed

subsection \<open>Properties\<close>

text \<open>A state with one logged block, for the witnesses below.\<close>

definition log_boot :: "(u32 \<Rightarrow> block) \<Rightarrow> kstate" where
  "log_boot d = set_log (\<lambda>l. l\<lparr>log_start := 2, log_dev := ROOTDEV, log_outstanding := 1\<rparr>) (binit (kstate0 0 d))"

lemma log_boot_txn: "txn {} (log_boot d)" "view (log_boot d) = d" "disk (log_boot d) = d"
  "logged (log_boot d) = {}" "log_start (klog (log_boot d)) = 2"
proof -
  have l: "klog (log_boot d) = logstate0\<lparr>log_start := 2, log_dev := ROOTDEV, log_outstanding := 1\<rparr>"
    by (simp add: log_boot_def)
  show lg: "logged (log_boot d) = {}" by (simp add: logged_def l logstate0_def)
  show "log_start (klog (log_boot d)) = 2" by (simp add: l)
  have c: "cache {} {} (log_boot d)" using binit_cache(1) [OF bss_kstate0] by (simp add: log_boot_def)
  then have "trans_ok {} (log_boot d)"
    unfolding trans_ok_def lg by (simp add: l log_placed_def logstate0_def)
  then show "txn {} (log_boot d)" by (simp add: txn_def log_boot_def)
  show "view (log_boot d) = d" using binit_cache(2) [OF bss_kstate0]
    by (simp add: log_boot_def)
  show "disk (log_boot d) = d" by (simp add: log_boot_def)
qed

lemma one_logged:
  obtains s where "trans_ok {} s" "io_free s" "log_n s = 1" "log_start (klog s) = 2"
    "view s = (\<lambda>_ _. 0)(100 := \<lambda>_. 7)" "disk s = (\<lambda>_ _. 0)" "logged s = {100}"
proof -
  let ?s = "log_boot (\<lambda>_ _. 0)"
  note b = log_boot_txn [of "\<lambda>_ _. 0"]
  obtain i s1 where w: "\<And>d. \<exists>s2 s3. log_write i (set_data i d s1) = Inr s2 \<and> brelse i s2 = Inr s3 \<and>
       fs_step {} ((view ?s)(100 := d)) {100} ?s s3"
    by (rule txn_write [OF b(1), of 100]) (auto simp: b(4,5) in_log_def)
  obtain s3 where s3: "fs_step {} ((view ?s)(100 := \<lambda>_. 7)) {100} ?s s3" using w [of "\<lambda>_. 7"] by blast
  note f = fs_stepD [OF s3]
  have "log_n s3 = 1"
    using trans_okD(2,9) [OF txnD(1) [OF f(1)]] f(6) b(4) by simp
  then show thesis
    using that [of s3] f b txnD [OF f(1)] fs_frameD(18) [OF f(5)] by simp
qed

text \<open>
  C1: crash atomicity. \<^verbatim>\<open>commit\<close> returns, and if the machine stops after any number
  \<open>k\<close> of its disk writes, the next boot's \<^verbatim>\<open>initlog\<close> succeeds and leaves every block
  outside the log as it was before the transaction, when the header had not been written, and
  as the transaction left it otherwise: never a mixture.
\<close>

theorem commit_crash_atomic:
  assumes "trans_ok {} s" "io_free s" "0 < log_n s" "log_n s < int NBUF"
    "head_n (disk s (log_start (klog s))) = 0" "sb_logstart sblk = log_start (klog s)"
  shows "\<exists>s' ws. commit s = Inr s' \<and> dwrites s' = dwrites s @ ws \<and>
    (\<forall>k. \<exists>t. initlog ROOTDEV sblk (binit (kstate0 e (apply_writes (take k ws) (disk s)))) = Inr t \<and>
      log_n t = 0 \<and> head_n (disk t (log_start (klog s))) = 0 \<and>
      (\<forall>b. \<not> in_log (log_start (klog s)) b \<longrightarrow>
         disk t b = (if k \<le> nat (log_n s) then disk s b else view s b)))"
proof -
  let ?st = "log_start (klog s)"
  obtain s' where s': "commit s = Inr s'" "did (commit_writes s) (set_lh_n 0 s) s'"
    using commit_eq [OF assms(1-4)] by blast
  have "\<exists>t. initlog ROOTDEV sblk (binit (kstate0 e (crash_disk s k))) = Inr t \<and> log_n t = 0 \<and>
      head_n (disk t ?st) = 0 \<and> (\<forall>b. \<not> in_log ?st b \<longrightarrow>
        disk t b = (if k \<le> nat (log_n s) then disk s b else view s b))" for k
  proof -
    note cr = crash_recovered [OF assms(1,3,5), where k = k]
    let ?b = "set_log (\<lambda>l. l\<lparr>log_start := ?st, log_dev := ROOTDEV\<rparr>) (binit (kstate0 e (crash_disk s k)))"
    have "cache {} {} ?b" using binit_cache(1) [OF bss_kstate0] by simp
    moreover have "log_placed ?b" using trans_okD(1) [OF assms(1)] by (simp add: log_placed_def)
    moreover have d: "disk ?b = crash_disk s k" by simp
    ultimately obtain t where "recover_from_log ?b = Inr t" "log_n t = 0" "disk t = recovered ?st (crash_disk s k)"
      using recover_eq [of ?b] cr(1) by auto
    then show ?thesis using cr(2) recovered_header assms(6) by (auto simp: initlog_def)
  qed
  then show ?thesis using s'(1) didD(5) [OF s'(2)] by (auto simp: crash_disk_def)
qed

theorem commit_crash_atomic_witness:
  "\<exists>s s' ws. commit s = Inr s' \<and> dwrites s' = dwrites s @ ws \<and> view s 100 0 = 7 \<and> disk s 100 0 = 0 \<and>
     (\<forall>k. \<exists>t. initlog ROOTDEV (superblock0\<lparr>sb_logstart := 2\<rparr>)
        (binit (kstate0 0 (apply_writes (take k ws) (disk s)))) = Inr t \<and>
        disk t 100 0 = (if k \<le> 1 then 0 else 7))"
proof -
  obtain s where s: "trans_ok {} s" "io_free s" "log_n s = 1" "log_start (klog s) = 2"
    "view s = (\<lambda>_ _. 0)(100 := \<lambda>_. 7)" "disk s = (\<lambda>_ _. 0)" "logged s = {100}" by (rule one_logged)
  have h: "head_n (\<lambda>_. 0) = 0" by (simp add: head_n_def getw_def le_word_zeros)
  have "\<exists>s' ws. commit s = Inr s' \<and> dwrites s' = dwrites s @ ws \<and>
    (\<forall>k. \<exists>t. initlog ROOTDEV (superblock0\<lparr>sb_logstart := 2\<rparr>)
        (binit (kstate0 0 (apply_writes (take k ws) (disk s)))) = Inr t \<and>
      log_n t = 0 \<and> head_n (disk t (log_start (klog s))) = 0 \<and>
      (\<forall>b. \<not> in_log (log_start (klog s)) b \<longrightarrow>
         disk t b = (if k \<le> nat (log_n s) then disk s b else view s b)))"
    by (rule commit_crash_atomic [OF s(1,2)]) (simp_all add: s h)
  then obtain s' ws where w: "commit s = Inr s'" "dwrites s' = dwrites s @ ws"
    and all: "\<And>k. \<exists>t. initlog ROOTDEV (superblock0\<lparr>sb_logstart := 2\<rparr>)
        (binit (kstate0 0 (apply_writes (take k ws) (disk s)))) = Inr t \<and>
      (\<forall>b. \<not> in_log (log_start (klog s)) b \<longrightarrow>
         disk t b = (if k \<le> nat (log_n s) then disk s b else view s b))" by meson
  have nl: "\<not> in_log (log_start (klog s)) 100" by (simp add: in_log_def s)
  have "\<exists>t. initlog ROOTDEV (superblock0\<lparr>sb_logstart := 2\<rparr>)
      (binit (kstate0 0 (apply_writes (take k ws) (disk s)))) = Inr t \<and>
      disk t 100 0 = (if k \<le> 1 then 0 else 7)" for k
  proof -
    obtain t where "initlog ROOTDEV (superblock0\<lparr>sb_logstart := 2\<rparr>)
        (binit (kstate0 0 (apply_writes (take k ws) (disk s)))) = Inr t"
      "disk t 100 = (if k \<le> nat (log_n s) then disk s 100 else view s 100)" using all [of k] nl by blast
    then show ?thesis by (intro exI [of _ t]) (simp add: s)
  qed
  moreover have "view s 100 0 = 7" "disk s 100 0 = 0" by (simp_all add: s)
  ultimately show ?thesis using w by blast
qed

text \<open>
  C2: with a transaction of \<open>n\<close> blocks, \<^verbatim>\<open>commit\<close> does \<open>2 * n + 2\<close> disk writes, and
  afterwards the disk has what the cache shows for every block outside the log, the log is
  empty on the disk and in memory, and no buffer is pinned.
\<close>

theorem commit_installs:
  assumes "trans_ok {} s" "io_free s" "0 < log_n s" "log_n s < int NBUF"
  shows "\<exists>s'. commit s = Inr s' \<and> cache {} {} s' \<and> log_n s' = 0 \<and>
    length (dwrites s') = length (dwrites s) + 2 * nat (log_n s) + 2 \<and>
    head_n (disk s' (log_start (klog s))) = 0 \<and>
    (\<forall>b. \<not> in_log (log_start (klog s)) b \<longrightarrow> disk s' b = view s b \<and> view s' b = view s b)"
proof -
  let ?st = "log_start (klog s)" and ?n = "nat (log_n s)"
  obtain s' where s': "commit s = Inr s'" "cache {} {} s'" "did (commit_writes s) (set_lh_n 0 s) s'"
    using commit_eq [OF assms] by blast
  note k = didD [OF s'(3)]
  have len: "length (commit_writes s) = 2 * ?n + 2" by (simp add: commit_writes_def Let_def)
  have d: "disk s' = crash_disk s (2 * ?n + 2)" using k(4) len by (simp add: crash_disk_def)
  note e = crash_after [OF assms(1), of "2 * ?n + 2", simplified, folded d [simplified]]
  have home: "disk s' b = view s b" if b: "\<not> in_log ?st b" for b
  proof (cases "b \<in> logged s")
    case True
    then show ?thesis using e(3) by (auto simp: logged_def)
  next
    case False
    have "b \<noteq> ?st" using b by (auto simp: in_log_def)
    then have "disk s' b = disk s b"
      using e(2) crash_between(3) [OF assms(1) _ _ False b, of "2 * ?n + 1"] assms(3) by simp
    then show ?thesis using view_clean [OF trans_okD(6) [OF assms(1)] False] by simp
  qed
  moreover have "view s' = disk s'" by (rule ext, rule view_clean [OF s'(2)]) auto
  ultimately show ?thesis using s'(1,2) k(1,5) len e(1) by auto
qed

theorem commit_installs_witness:
  "\<exists>s s'. disk s 100 0 = 0 \<and> view s 100 0 = 7 \<and> commit s = Inr s' \<and> disk s' 100 0 = 7 \<and>
     length (dwrites s') = length (dwrites s) + 4"
proof -
  obtain s where s: "trans_ok {} s" "io_free s" "log_n s = 1" "log_start (klog s) = 2"
    "view s = (\<lambda>_ _. 0)(100 := \<lambda>_. 7)" "disk s = (\<lambda>_ _. 0)" "logged s = {100}" by (rule one_logged)
  have "\<exists>s'. commit s = Inr s' \<and> cache {} {} s' \<and> log_n s' = 0 \<and>
    length (dwrites s') = length (dwrites s) + 2 * nat (log_n s) + 2 \<and>
    head_n (disk s' (log_start (klog s))) = 0 \<and>
    (\<forall>b. \<not> in_log (log_start (klog s)) b \<longrightarrow> disk s' b = view s b \<and> view s' b = view s b)"
    by (rule commit_installs [OF s(1,2)]) (simp_all add: s)
  then obtain s' where s': "commit s = Inr s'" "length (dwrites s') = length (dwrites s) + 2 * nat (log_n s) + 2"
    and h: "\<And>b. \<not> in_log (log_start (klog s)) b \<Longrightarrow> disk s' b = view s b" by blast
  have "disk s' 100 = view s 100" by (rule h) (simp add: in_log_def s)
  then show ?thesis using s' by (intro exI [of _ s] exI [of _ s']) (simp add: s)
qed

lemma apply_writes_base: "b \<in> fst ` set ws \<Longrightarrow> apply_writes ws d b = apply_writes ws d' b"
  by (induction ws rule: rev_induct) (auto simp: apply_writes_append, force)

text \<open>Recovery started over after some of its writes.\<close>

lemma recovered_prefix:
  fixes k :: nat
  assumes ok: "head_ok st d" and pl: "unat st + LOGBLOCKS < 2 ^ 32"
  defines "d' \<equiv> apply_writes (take k (recover_writes st d)) d"
  shows "head_ok st d'" "\<not> in_log st b \<Longrightarrow> recovered st d' b = recovered st d b"
proof -
  let ?n = "nat (head_n (d st))" and ?ws = "recover_writes st d"
  let ?A = "map (\<lambda>i. (head_block (d st) i, d (slot_of st i))) [0..<?n]"
  have n: "?n \<le> LOGBLOCKS" using ok by (auto simp: head_ok_def)
  have A: "\<not> in_log st b" if "b \<in> fst ` set ?A" for b using that ok by (auto simp: head_ok_def)
  have "head_ok st d' \<and> (\<forall>b. \<not> in_log st b \<longrightarrow> recovered st d' b = recovered st d b)"
  proof (cases "k \<le> ?n")
    case True
    then have tk: "take k ?ws = take k ?A" by (simp add: recover_writes_def)
    have keep: "d' b = d b" if "in_log st b" for b
      unfolding d'_def tk using A that set_take_subset [of k ?A] by (intro apply_writes_other) blast
    have st: "d' st = d st" by (rule keep) (simp add: in_log_def)
    have sl: "d' (slot_of st i) = d (slot_of st i)" if "i < ?n" for i
      by (rule keep, rule slot_of_in_log [OF pl]) (use n that in simp)
    have w: "recover_writes st d' = ?ws" unfolding recover_writes_def st using sl by simp
    have "recovered st d' b = recovered st d b" for b
    proof (cases "b \<in> fst ` set ?ws")
      case True
      then show ?thesis unfolding recovered_def w by (rule apply_writes_base)
    next
      case False
      then have "b \<notin> fst ` set (take k ?ws)" using set_take_subset [of k ?ws] by blast
      then have "d' b = d b" unfolding d'_def by (rule apply_writes_other)
      then show ?thesis unfolding recovered_def w using False by (simp add: apply_writes_other)
    qed
    then show ?thesis using ok unfolding head_ok_def st by blast
  next
    case False
    then have "d' = recovered st d" by (simp add: d'_def recovered_def recover_writes_def)
    moreover have "b \<noteq> st" if "\<not> in_log st b" for b using that by (auto simp: in_log_def)
    ultimately show ?thesis using recovered_header [of st d] by (auto simp: head_ok_def recovered_idle)
  qed
  then show "head_ok st d'" "\<not> in_log st b \<Longrightarrow> recovered st d' b = recovered st d b" by blast+
qed

text \<open>
  C3: recovery can itself be interrupted. After any number \<open>k\<close> of the writes that
  \<^verbatim>\<open>recover_from_log\<close> does, the disk is again one that recovery accepts, and a second
  recovery restores the same blocks as an undisturbed one.
\<close>

theorem recovery_restartable:
  assumes "cache {} {} s" "io_free s" "log_placed s" "head_ok (log_start (klog s)) (disk s)"
    "sb_logstart sblk = log_start (klog s)"
  shows "\<exists>s' ws. recover_from_log s = Inr s' \<and> dwrites s' = dwrites s @ ws \<and>
    (\<forall>k. \<exists>t. initlog ROOTDEV sblk (binit (kstate0 e (apply_writes (take k ws) (disk s)))) = Inr t \<and>
      (\<forall>b. \<not> in_log (log_start (klog s)) b \<longrightarrow> disk t b = disk s' b))"
proof -
  let ?st = "log_start (klog s)" and ?d = "disk s"
  let ?ws = "recover_writes ?st ?d"
  obtain s' where s': "recover_from_log s = Inr s'" "dwrites s' = dwrites s @ ?ws" "disk s' = recovered ?st ?d"
    using recover_eq [OF assms(1-4)] by blast
  have pl: "unat ?st + LOGBLOCKS < 2 ^ 32" using assms(3) by (simp add: log_placed_def)
  have "\<exists>t. initlog ROOTDEV sblk (binit (kstate0 e (apply_writes (take k ?ws) ?d))) = Inr t \<and>
      (\<forall>b. \<not> in_log ?st b \<longrightarrow> disk t b = disk s' b)" for k
  proof -
    let ?d' = "apply_writes (take k ?ws) ?d"
    note ok = recovered_prefix [OF assms(4) pl, where k = k]
    let ?b = "set_log (\<lambda>l. l\<lparr>log_start := ?st, log_dev := ROOTDEV\<rparr>) (binit (kstate0 e ?d'))"
    have "cache {} {} ?b" "log_placed ?b" using binit_cache(1) [OF bss_kstate0] pl by (simp_all add: log_placed_def)
    then obtain t where "recover_from_log ?b = Inr t" "disk t = recovered ?st ?d'"
      using recover_eq [of ?b] ok(1) by auto
    then show ?thesis using ok(2) s'(3) assms(5) by (auto simp: initlog_def)
  qed
  then show ?thesis using s'(1,2) by blast
qed

theorem recovery_restartable_witness:
  "\<exists>s' ws. recover_from_log (log_boot (\<lambda>_ _. 0)) = Inr s' \<and> dwrites s' = ws \<and>
     (\<forall>k. \<exists>t. initlog ROOTDEV (superblock0\<lparr>sb_logstart := 2\<rparr>)
        (binit (kstate0 0 (apply_writes (take k ws) (\<lambda>_ _. 0)))) = Inr t \<and> disk t 100 = disk s' 100)"
proof -
  let ?s = "log_boot (\<lambda>_ _. 0)"
  note b = log_boot_txn [of "\<lambda>_ _. 0"]
  have h: "head_n (\<lambda>_. 0) = 0" by (simp add: head_n_def getw_def le_word_zeros)
  have e: "dwrites ?s = []" by (simp add: log_boot_def)
  have "\<exists>s' ws. recover_from_log ?s = Inr s' \<and> dwrites s' = dwrites ?s @ ws \<and>
    (\<forall>k. \<exists>t. initlog ROOTDEV (superblock0\<lparr>sb_logstart := 2\<rparr>)
        (binit (kstate0 0 (apply_writes (take k ws) (disk ?s)))) = Inr t \<and>
      (\<forall>b. \<not> in_log (log_start (klog ?s)) b \<longrightarrow> disk t b = disk s' b))"
    using txnD(5,2) [OF b(1)] trans_okD(1) [OF txnD(1) [OF b(1)]]
    by (intro recovery_restartable) (simp_all add: b h head_ok_def)
  moreover have "\<not> in_log (log_start (klog ?s)) 100" by (simp add: b in_log_def)
  ultimately show ?thesis unfolding e b(3) by (simp only: append_Nil) meson
qed

end
