(* ===== verification/Log_Ops.thy ===== *)
theory Log_Ops
  imports Log
begin

text \<open>
  The log as the file-system calls of several processes use it: \<^verbatim>\<open>begin_op\<close>,
  \<^verbatim>\<open>log_write\<close> and \<^verbatim>\<open>end_op\<close> as the steps of a system, in any order in which the
  code lets them succeed, and the bound on the size of a transaction that the admission test
  of \<^verbatim>\<open>begin_op\<close> gives.
\<close>

subsection \<open>Operations of the cache do not touch the log\<close>

lemma rbindE:
  assumes "rbind m f = Inr y"
  obtains x where "m = Inr x" "f x = Inr y"
  using assms by (auto simp: rbind_Inr_iff)

lemma klog_acquire: "acquire lk s = Inr s' \<Longrightarrow> klog s' = klog s"
  by (auto simp: acquire_Inr_iff)

lemma klog_release: "release lk s = Inr s' \<Longrightarrow> klog s' = klog s"
  by (auto simp: release_Inr_iff)

lemma klog_wakeup_loop: "wakeup_loop ch p s = Inr s' \<Longrightarrow> klog s' = klog s"
proof (induction "NPROC - p" arbitrary: p s)
  case 0
  then show ?case by (subst (asm) wakeup_loop.simps) simp
next
  case (Suc n)
  then have p: "p < NPROC" and n: "n = NPROC - Suc p" by simp_all
  note IH = Suc.hyps(1) [OF n]
  show ?case
  proof (cases "p = cur s")
    case True
    then have "wakeup_loop ch (Suc p) s = Inr s'"
      using Suc.prems p by (subst (asm) wakeup_loop.simps) simp
    then show ?thesis by (rule IH)
  next
    case False
    let ?upd = "\<lambda>s. if p_state (procs s p) = SLEEPING \<and> p_chan (procs s p) = Some ch
                    then set_proc p (\<lambda>x. x\<lparr>p_state := RUNNABLE\<rparr>) s else s"
    obtain s1 s2 where s: "acquire (Lk_proc p) s = Inr s1"
      "release (Lk_proc p) (?upd s1) = Inr s2" "wakeup_loop ch (Suc p) s2 = Inr s'"
      using Suc.prems p False by (subst (asm) wakeup_loop.simps) (simp add: rbind_Inr_iff Let_def, blast)
    have "klog (?upd s1) = klog s1" by (simp add: set_proc_def)
    then show ?thesis using IH [OF s(3)] klog_acquire [OF s(1)] klog_release [OF s(2)] by simp
  qed
qed

lemma klog_wakeup: "wakeup ch s = Inr s' \<Longrightarrow> klog s' = klog s"
  unfolding wakeup_def by (rule klog_wakeup_loop)

lemmas klog_basic = klog_acquire klog_release klog_wakeup

lemma klog_acquiresleep: "acquiresleep_buf b s = Inr s' \<Longrightarrow> klog s' = klog s"
  unfolding acquiresleep_buf_def acquiresleep_def
  by (erule rbindE) (auto split: if_split_asm simp: acquire_Inr_iff release_Inr_iff)

lemma klog_holdingsleep: "holdingsleep_buf b s = Inr (h, s') \<Longrightarrow> klog s' = klog s"
  unfolding holdingsleep_buf_def holdingsleep_def Let_def
  by (elim rbindE) (auto simp: acquire_Inr_iff release_Inr_iff)

lemma klog_releasesleep:
  assumes "releasesleep_buf b s = Inr s'"
  shows "klog s' = klog s"
proof -
  obtain s1 s2 where "acquire (Lk_buf b) s = Inr s1"
    "wakeup (Chan_buf b) (set_buf b (\<lambda>x. x\<lparr>b_lock := \<lparr>sl_locked = False, sl_pid = 0\<rparr>\<rparr>) s1) = Inr s2"
    "release (Lk_buf b) s2 = Inr s'"
    using assms unfolding releasesleep_buf_def releasesleep_def by (elim rbindE) simp
  from klog_acquire [OF this(1)] klog_wakeup [OF this(2)] klog_release [OF this(3)] show ?thesis by simp
qed

lemmas klog_sleeplocks = klog_acquiresleep klog_holdingsleep klog_releasesleep

lemma klog_virtio: "virtio_disk_rw b w s = Inr s' \<Longrightarrow> klog s' = klog s"
  unfolding virtio_disk_rw_def Let_def
  by (erule rbindE, drule klog_acquire, drule klog_release, cases w) simp_all

lemma klog_bget: "bget d bn s = Inr (b, s') \<Longrightarrow> klog s' = klog s"
  unfolding bget_def
  by (elim rbindE)
    (drule klog_acquire, auto split: option.split_asm elim!: rbindE dest!: klog_release klog_acquiresleep)

lemma klog_bread: "bread d bn s = Inr (b, s') \<Longrightarrow> klog s' = klog s"
  unfolding bread_def
  by (elim rbindE) (auto split: if_split_asm elim!: rbindE dest!: klog_bget klog_virtio)

lemma klog_bwrite: "bwrite b s = Inr s' \<Longrightarrow> klog s' = klog s"
  unfolding bwrite_def by (erule rbindE) (auto split: if_split_asm dest!: klog_holdingsleep klog_virtio)

lemma klog_links [simp]: "klog (link_front b s) = klog s" "klog (unlink_buf b s) = klog s"
  by (simp_all add: link_front_def unlink_buf_def Let_def)

lemma klog_brelse: "brelse b s = Inr s' \<Longrightarrow> klog s' = klog s"
  by (auto simp: brelse_def rbind_Inr_iff Let_def split: if_splits dest!: klog_basic klog_sleeplocks)

lemma klog_pins: "bpin b s = Inr s' \<Longrightarrow> klog s' = klog s" "bunpin b s = Inr s' \<Longrightarrow> klog s' = klog s"
  by (auto simp: bpin_def bunpin_def rbind_Inr_iff dest!: klog_basic)

lemmas klog_cache = klog_bread klog_bwrite klog_brelse klog_pins

lemma klog_write_head: "write_head s = Inr s' \<Longrightarrow> klog s' = klog s"
  by (auto simp: write_head_def rbind_Inr_iff dest!: klog_cache)

lemma klog_install_loop: "install_loop k r tail s = Inr s' \<Longrightarrow> klog s' = klog s"
proof (induction k arbitrary: tail s)
  case (Suc k)
  from Suc.prems show ?case unfolding install_loop.simps
    by (elim rbindE) (auto split: prod.split_asm if_split_asm elim!: rbindE dest!: klog_cache Suc.IH)
qed simp

lemma klog_write_log_loop: "write_log_loop k tail s = Inr s' \<Longrightarrow> klog s' = klog s"
proof (induction k arbitrary: tail s)
  case (Suc k)
  from Suc.prems show ?case unfolding write_log_loop.simps
    by (elim rbindE) (auto split: prod.split_asm elim!: rbindE dest!: klog_cache Suc.IH)
qed simp

lemma set_lh_n_id: "klog s = klog (set_lh_n (log_n s) s)"
  by (simp add: set_lh_n_def)

lemma klog_commit:
  assumes "commit s = Inr s'" "0 \<le> log_n s"
  shows "klog s' = klog (set_lh_n 0 s)"
proof (cases "0 < log_n s")
  case True
  obtain s1 s2 s3 where s: "write_log_loop (nat (log_n s)) 0 s = Inr s1" "write_head s1 = Inr s2"
    "install_loop (nat (log_n s2)) False 0 s2 = Inr s3" "write_head (set_lh_n 0 s3) = Inr s'"
    using assms(1) True unfolding commit_def write_log_def install_trans_def by (auto elim!: rbindE)
  show ?thesis
    using klog_write_log_loop [OF s(1)] klog_write_head [OF s(2)] klog_install_loop [OF s(3)]
      klog_write_head [OF s(4)] by (simp add: set_lh_n_def)
next
  case False
  then show ?thesis using assms set_lh_n_id [of s] by (simp add: commit_def)
qed

subsection \<open>Transactions of several operations\<close>

text \<open>
  The state of the system: the kernel's, and for every operation between its \<^verbatim>\<open>begin_op\<close>
  and its \<^verbatim>\<open>end_op\<close> the number of blocks it has added to the log. An operation may add
  at most \<^verbatim>\<open>MAXOPBLOCKS\<close> blocks, the contract of \<^verbatim>\<open>begin_op\<close>.
\<close>

inductive log_run :: "kstate \<Rightarrow> nat list \<Rightarrow> bool" where
  start: "log_n s = 0 \<Longrightarrow> log_outstanding (klog s) = 0 \<Longrightarrow> \<not> log_committing (klog s) \<Longrightarrow> log_run s []"
| begin_op: "log_run s us \<Longrightarrow> begin_op s = Inr s' \<Longrightarrow> log_run s' (0 # us)"
| log_write: "log_run s us \<Longrightarrow> i < length us \<Longrightarrow> us ! i < MAXOPBLOCKS \<Longrightarrow> log_write b s = Inr s' \<Longrightarrow>
    log_run s' (us[i := us ! i + nat (log_n s' - log_n s)])"
| end_op: "log_run s us \<Longrightarrow> i < length us \<Longrightarrow> end_op s = Inr s' \<Longrightarrow>
    log_run s' (take i us @ drop (Suc i) us)"
| other: "log_run s us \<Longrightarrow> klog s' = klog s \<Longrightarrow> log_run s' us"

inductive_cases log_run_NilE: "log_run s []"

text \<open>What the three operations do to the log's counters when they return.\<close>

lemma begin_op_klog:
  assumes "begin_op s = Inr s'"
  shows "log_n s' = log_n s" "log_outstanding (klog s') = log_outstanding (klog s) + 1"
    "\<not> log_committing (klog s)" "log_committing (klog s') = log_committing (klog s)"
    "log_n s + (log_outstanding (klog s) + 1) * int MAXOPBLOCKS \<le> int LOGBLOCKS"
  using assms unfolding begin_op_def
  by (auto elim!: rbindE simp: acquire_Inr_iff release_Inr_iff split: if_split_asm)

lemma log_write_klog:
  assumes "log_write b s = Inr s'" "0 \<le> log_n s"
  shows "log_n s' = log_n s \<or> log_n s' = log_n s + 1" "log_n s < int LOGBLOCKS"
    "log_outstanding (klog s') = log_outstanding (klog s)"
    "log_committing (klog s') = log_committing (klog s)"
  using assms unfolding log_write_def Let_def
  by (auto elim!: rbindE simp: acquire_Inr_iff set_lh_n_def split: if_split_asm dest!: klog_release klog_pins)

lemma end_op_klog:
  assumes "end_op s = Inr s'" "0 \<le> log_n s"
  shows "log_n s' = (if log_outstanding (klog s) = 1 then 0 else log_n s)"
    "log_outstanding (klog s') = log_outstanding (klog s) - 1"
    "\<not> log_committing (klog s)" "\<not> log_committing (klog s')"
  using assms unfolding end_op_def Let_def
  by (auto elim!: rbindE simp: acquire_Inr_iff set_lh_n_def split: if_split_asm
      dest!: klog_release klog_wakeup klog_commit)

text \<open>The log has room for what every operation in progress may still add.\<close>

definition reserved :: "nat list \<Rightarrow> int" where
  "reserved us = (\<Sum>u\<leftarrow>us. int MAXOPBLOCKS - int u)"

lemma reserved_simps [simp]:
  "reserved [] = 0" "reserved (u # us) = int MAXOPBLOCKS - int u + reserved us"
  "reserved (us @ vs) = reserved us + reserved vs"
  by (simp_all add: reserved_def)

lemma reserved_nonneg: "\<forall>u\<in>set us. u \<le> MAXOPBLOCKS \<Longrightarrow> 0 \<le> reserved us"
  by (induction us) auto

lemma reserved_le: "reserved us \<le> int (length us) * int MAXOPBLOCKS"
  by (induction us) auto

lemma reserved_split: "i < length us \<Longrightarrow> reserved us = reserved (take i us) + (int MAXOPBLOCKS - int (us ! i)) + reserved (drop (Suc i) us)"
  by (subst id_take_nth_drop [of i us]) simp_all

lemma reserved_update:
  assumes "i < length us"
  shows "reserved (us[i := u]) = reserved us + int (us ! i) - int u"
  using reserved_split [OF assms] assms by (simp add: upd_conv_take_nth_drop)

definition log_inv :: "kstate \<Rightarrow> nat list \<Rightarrow> bool" where
  "log_inv s us \<longleftrightarrow> log_outstanding (klog s) = int (length us) \<and> \<not> log_committing (klog s) \<and>
     0 \<le> log_n s \<and> (\<forall>u\<in>set us. u \<le> MAXOPBLOCKS) \<and> log_n s + reserved us \<le> int LOGBLOCKS"

lemma log_run_inv: "log_run s us \<Longrightarrow> log_inv s us"
proof (induction rule: log_run.induct)
  case (begin_op s us s')
  then show ?case using begin_op_klog [OF begin_op(2)] reserved_le [of us]
    by (simp add: log_inv_def algebra_simps)
next
  case (log_write s us i b s')
  have "0 \<le> log_n s" using log_write.IH by (simp add: log_inv_def)
  note k = log_write_klog [OF log_write(4) this]
  have "us ! i + nat (log_n s' - log_n s) \<le> MAXOPBLOCKS" using k(1) log_write(3) by auto
  then have "\<forall>u\<in>set (us[i := us ! i + nat (log_n s' - log_n s)]). u \<le> MAXOPBLOCKS"
    using log_write.IH set_update_subset_insert [of us i] by (fastforce simp: log_inv_def)
  then show ?case using log_write.IH k log_write(2) by (auto simp: log_inv_def reserved_update)
next
  case (end_op s us i s')
  let ?us = "take i us @ drop (Suc i) us"
  have u: "\<forall>u\<in>set ?us. u \<le> MAXOPBLOCKS"
    using end_op.IH by (auto simp: log_inv_def dest: in_set_takeD in_set_dropD)
  have r: "reserved ?us \<le> reserved us"
    using reserved_split [OF end_op(2)] end_op.IH end_op(2) by (simp add: log_inv_def)
  have l: "int (length ?us) = int (length us) - 1" using end_op(2) by simp
  have "log_outstanding (klog s) = 1 \<Longrightarrow> reserved ?us \<le> int LOGBLOCKS"
    using end_op.IH l reserved_le [of ?us] by (simp add: log_inv_def)
  then show ?case
    using end_op.IH end_op_klog [OF end_op(3)] u r l by (auto simp: log_inv_def)
next
  case (other s us s')
  then show ?case by (simp add: log_inv_def)
qed (simp add: log_inv_def)

text \<open>
  C4: however file-system calls interleave, an operation that \<^verbatim>\<open>begin_op\<close> admitted and that
  has added fewer than \<^verbatim>\<open>MAXOPBLOCKS\<close> blocks finds room in the log: \<^verbatim>\<open>log_write\<close> does
  not panic with a transaction that is too big, and never more than \<^verbatim>\<open>LOGBLOCKS\<close> blocks
  are logged.
\<close>

theorem admission_bounds_log:
  assumes "log_run s us" "i < length us" "us ! i < MAXOPBLOCKS"
  shows "log_n s < int LOGBLOCKS \<and> log_write b s \<noteq> Inl (Panic ''too big a transaction'') \<and>
    log_write b s \<noteq> Inl (Panic ''log_write outside of trans'')"
proof -
  have inv: "log_inv s us" using assms(1) by (rule log_run_inv)
  have "0 \<le> reserved (take i us)" "0 \<le> reserved (drop (Suc i) us)"
    using inv by (auto simp: log_inv_def intro!: reserved_nonneg dest: in_set_takeD in_set_dropD)
  then have n: "log_n s < int LOGBLOCKS"
    using reserved_split [OF assms(2)] assms(3) inv by (simp add: log_inv_def)
  have o: "1 \<le> log_outstanding (klog s)" using inv assms(2) by (simp add: log_inv_def)
  have "log_write b s \<noteq> Inl (Panic m)" if "m \<noteq> ''acquire''" "m \<noteq> ''release''" for m
    using that n o unfolding log_write_def Let_def bpin_def
    by (auto simp: rbind_Inl_iff acquire_def release_def split: if_splits)
  then show ?thesis using n by simp
qed

theorem admission_bounds_log_witness:
  "\<exists>s. begin_op (kstate0 0 (\<lambda>_ _. 0)) = Inr s \<and> log_n s < int LOGBLOCKS \<and>
     log_write 0 s \<noteq> Inl (Panic ''too big a transaction'') \<and>
     log_write 0 s \<noteq> Inl (Panic ''log_write outside of trans'')"
proof -
  let ?s = "kstate0 0 (\<lambda>_ _. 0)"
  obtain s where s: "begin_op ?s = Inr s" by (simp add: begin_op_def logstate0_def)
  have "log_run ?s []" by (rule log_run.start) (simp_all add: logstate0_def)
  then have "log_run s [0]" using s by (rule log_run.begin_op)
  then have "log_n s < int LOGBLOCKS \<and> log_write 0 s \<noteq> Inl (Panic ''too big a transaction'') \<and>
      log_write 0 s \<noteq> Inl (Panic ''log_write outside of trans'')"
    by (rule admission_bounds_log [of _ _ 0]) simp_all
  then show ?thesis using s by blast
qed

subsection \<open>A full log\<close>

lemma full_log_pins_all:
  assumes ok: "trans_ok {} s" and n: "log_n s = int LOGBLOCKS" and i: "i < NBUF"
  shows "pinned s (logged s) i"
proof -
  note c = trans_okD(6) [OF ok]
  let ?P = "{i. i < NBUF \<and> pinned s (logged s) i}"
  have "logged s \<subseteq> (\<lambda>i. b_blockno (bufs s i)) ` ?P"
  proof
    fix b assume "b \<in> logged s"
    then obtain j where "j < NBUF" "buf_for s b j" "b \<in> logged s" using cacheD(6) [OF c] by blast
    then show "b \<in> (\<lambda>i. b_blockno (bufs s i)) ` ?P"
      by (intro image_eqI [of _ _ j]) (simp_all add: buf_for_def pinned_def)
  qed
  then have "card (logged s) \<le> card ((\<lambda>i. b_blockno (bufs s i)) ` ?P)" by (rule card_mono [rotated]) simp
  also have "\<dots> \<le> card ?P" by (rule card_image_le) simp
  finally have "card {..<NBUF} \<le> card ?P" using trans_okD(9) [OF ok] n by simp
  then have "?P = {..<NBUF}" by (intro card_seteq) auto
  then show ?thesis using i by blast
qed

text \<open>
  C5: the cache has as many buffers as the log has blocks, so a transaction of
  \<^verbatim>\<open>LOGBLOCKS\<close> blocks, which \<^verbatim>\<open>begin_op\<close> and \<^verbatim>\<open>log_write\<close> allow, pins
  every buffer, and \<^verbatim>\<open>commit\<close> panics because it finds no buffer for the first log block.
\<close>

theorem full_log_cannot_commit:
  assumes "trans_ok {} s" "io_free s" "log_n s = int LOGBLOCKS"
  shows "commit s = Inl (Panic ''bget: no buffers'')"
proof -
  note c = trans_okD(6) [OF assms(1)] and p = full_log_pins_all [OF assms(1,3)]
  obtain xs where xs: "lru s xs" using cacheD(1) [OF c] by blast
  have st: "set xs = {..<NBUF}" using xs by (simp add: lru_def)
  have r: "b_refcnt (bufs s i) \<noteq> 0" if "i < NBUF" for i
    using cacheD(5) [OF c that] p [OF that] by (simp add: buf_ok_def)
  have a: "b_blockno (bufs s i) \<noteq> log_slot s 0" if "i < NBUF" for i
    using p [OF that] slot_facts(1) [OF assms(1), of 0] by (auto simp: pinned_def)
  have "List.find (\<lambda>i. b_dev (bufs s i) = ROOTDEV \<and> b_blockno (bufs s i) = log_slot s 0) xs = None"
    "List.find (\<lambda>i. b_refcnt (bufs s i) = 0) (rev xs) = None"
    using a r st by (auto simp: find_None_iff)
  then have "bread ROOTDEV (log_slot s 0) s = Inl (Panic ''bget: no buffers'')"
    unfolding bread_def bget_def using io_freeD(1) [OF assms(2)]
    by (simp add: lru_find_next [OF xs] lru_find_prev [OF xs])
  moreover have "log_dev (klog s) = ROOTDEV" using trans_okD(1) [OF assms(1)] by (simp add: log_placed_def)
  ultimately have "write_log_loop (Suc k) 0 s = Inl (Panic ''bget: no buffers'')" for k by simp
  moreover have "nat (log_n s) = Suc 29" using assms(3) by simp
  ultimately have "write_log s = Inl (Panic ''bget: no buffers'')" by (simp only: write_log_def)
  then show ?thesis using assms(3) by (simp add: commit_def)
qed

lemma logged_many:
  "k \<le> LOGBLOCKS \<Longrightarrow> \<exists>s. txn {} s \<and> logged s = (\<lambda>i. of_nat (100 + i)) ` {..<k} \<and> log_start (klog s) = 2"
proof (induction k)
  case 0
  then show ?case using log_boot_txn [of "\<lambda>_ _. 0"] by auto
next
  case (Suc k)
  then obtain s where s: "txn {} s" "logged s = (\<lambda>i. of_nat (100 + i)) ` {..<k}" "log_start (klog s) = 2" by auto
  let ?b = "of_nat (100 + k) :: u32"
  have ub: "unat ?b = 100 + k" by (rule unat_of_nat_small) (use Suc.prems in simp)
  have "card (logged s) \<le> k" unfolding s(2) using card_image_le [of "{..<k}"] by simp
  then have n: "card {} + card (logged s) < NBUF" using Suc.prems by simp
  have nl: "\<not> in_log (log_start (klog s)) ?b" unfolding s(3) in_log_def ub by simp
  obtain i s1 where w: "\<And>d. \<exists>s2 s3. log_write i (set_data i d s1) = Inr s2 \<and> brelse i s2 = Inr s3 \<and>
      fs_step {} ((view s)(?b := d)) {?b} s s3"
    by (rule txn_write [OF s(1) _ n nl]) auto
  obtain s3 where s3: "fs_step {} ((view s)(?b := \<lambda>_. 0)) {?b} s s3" using w by blast
  note f = fs_stepD [OF s3]
  have "logged s3 = (\<lambda>i. of_nat (100 + i)) ` {..<Suc k}" unfolding f(6) s(2) lessThan_Suc by auto
  then show ?case using f(1) fs_frameD(18) [OF f(5)] s(3) by auto
qed

theorem full_log_cannot_commit_witness:
  "\<exists>s. log_n s = int LOGBLOCKS \<and> commit s = Inl (Panic ''bget: no buffers'')"
proof -
  obtain s where s: "txn {} s" "logged s = (\<lambda>i. of_nat (100 + i) :: u32) ` {..<LOGBLOCKS}"
    using logged_many [of LOGBLOCKS] by auto
  have "inj_on (\<lambda>i. of_nat (100 + i) :: u32) {..<LOGBLOCKS}"
  proof (rule inj_onI)
    fix x y :: nat assume a: "x \<in> {..<LOGBLOCKS}" "y \<in> {..<LOGBLOCKS}"
      and e: "of_nat (100 + x) = (of_nat (100 + y) :: u32)"
    have "unat (of_nat (100 + x) :: u32) = 100 + x" by (rule unat_of_nat_small) (use a in simp)
    moreover have "unat (of_nat (100 + y) :: u32) = 100 + y" by (rule unat_of_nat_small) (use a in simp)
    ultimately show "x = y" unfolding e by linarith
  qed
  then have "card (logged s) = LOGBLOCKS" unfolding s(2) by (simp add: card_image)
  then have n: "log_n s = int LOGBLOCKS"
    using trans_okD(2,9) [OF txnD(1) [OF s(1)]] by simp
  have "commit s = Inl (Panic ''bget: no buffers'')"
    by (rule full_log_cannot_commit [OF txnD(1,2) [OF s(1)] n])
  then show ?thesis using n by blast
qed

end
