(* ===== verification/Vm.thy ===== *)
theory Vm
  imports Kalloc
begin

text \<open>
  Virtual memory, \<^verbatim>\<open>kernel/vm.c\<close>: three-level page tables in the memory's bytes, user memory,
  and the copies between the kernel and a user address space. A pointer to a page-table entry is
  its address, 0 for none. An array of the kernel that is not in the page allocator's memory (a
  buffer's data, a local variable) is passed by value and returned. \<^verbatim>\<open>proc_mapstacks\<close> of
  \<^verbatim>\<open>kernel/proc.c\<close> is here because \<^verbatim>\<open>kvmmake\<close> calls it.
\<close>

subsection \<open>Page tables\<close>

definition load64 :: "u64 \<Rightarrow> kstate \<Rightarrow> u64" where
  "load64 a s = get64 (mem s) (unat a)"

definition store64 :: "u64 \<Rightarrow> u64 \<Rightarrow> kstate \<Rightarrow> kstate" where
  "store64 a v s = s\<lparr>mem := put64 (mem s) (unat a) v\<rparr>"

definition zero_page :: "u64 \<Rightarrow> kstate \<Rightarrow> kstate" where
  "zero_page pa s = s\<lparr>mem := memset (mem s) (unat pa) 0 PGSIZE\<rparr>"

text \<open>\<^verbatim>\<open>&pagetable[PX(level, va)]\<close>\<close>

definition pte_addr :: "u64 \<Rightarrow> nat \<Rightarrow> u64 \<Rightarrow> u64" where
  "pte_addr pagetable level va = pagetable + 8 * PX level va"

primrec walk_loop :: "nat \<Rightarrow> u64 \<Rightarrow> u64 \<Rightarrow> bool \<Rightarrow> kstate \<Rightarrow> (u64 \<times> kstate) result" where
  "walk_loop 0 pagetable va alloc s = Inr (pte_addr pagetable 0 va, s)"
| "walk_loop (Suc l) pagetable va alloc s =
     (let pte = pte_addr pagetable (Suc l) va in
      if load64 pte s AND PTE_V \<noteq> 0 then walk_loop l (PTE2PA (load64 pte s)) va alloc s
      else if \<not> alloc then Inr (0, s)
      else
        rbind (kalloc s) (\<lambda>(pg, s).
        if pg = 0 then Inr (0, s)
        else walk_loop l pg va alloc (store64 pte (PA2PTE pg OR PTE_V) (zero_page pg s))))"

definition walk :: "u64 \<Rightarrow> u64 \<Rightarrow> bool \<Rightarrow> kstate \<Rightarrow> (u64 \<times> kstate) result" where
  "walk pagetable va alloc s =
     (if va \<ge> MAXVA then Inl (Panic ''walk'') else walk_loop 2 pagetable va alloc s)"

definition walkaddr :: "u64 \<Rightarrow> u64 \<Rightarrow> kstate \<Rightarrow> (u64 \<times> kstate) result" where
  "walkaddr pagetable va s =
     (if va \<ge> MAXVA then Inr (0, s)
      else
        rbind (walk pagetable va False s) (\<lambda>(pte, s).
        if pte = 0 then Inr (0, s)
        else if load64 pte s AND PTE_V = 0 then Inr (0, s)
        else if load64 pte s AND PTE_U = 0 then Inr (0, s)
        else Inr (PTE2PA (load64 pte s), s)))"

text \<open>
  The loop of \<^verbatim>\<open>mappages\<close> ends when \<^verbatim>\<open>a == last\<close>; the first argument, initially the number
  of pages, bounds its rounds.
\<close>

primrec mappages_loop :: "nat \<Rightarrow> u64 \<Rightarrow> u64 \<Rightarrow> u64 \<Rightarrow> u64 \<Rightarrow> u64 \<Rightarrow> kstate \<Rightarrow> (int \<times> kstate) result" where
  "mappages_loop 0 pagetable a final pa perm s = Inl Spinning"
| "mappages_loop (Suc k) pagetable a final pa perm s =
     rbind (walk pagetable a True s) (\<lambda>(pte, s).
     if pte = 0 then Inr (-1, s)
     else if load64 pte s AND PTE_V \<noteq> 0 then Inl (Panic ''mappages: remap'')
     else
       let s = store64 pte (PA2PTE pa OR perm OR PTE_V) s in
       if a = final then Inr (0, s)
       else mappages_loop k pagetable (a + 4096) final (pa + 4096) perm s)"

definition mappages :: "u64 \<Rightarrow> u64 \<Rightarrow> u64 \<Rightarrow> u64 \<Rightarrow> u64 \<Rightarrow> kstate \<Rightarrow> (int \<times> kstate) result" where
  "mappages pagetable va sz pa perm s =
     (if unat va mod PGSIZE \<noteq> 0 then Inl (Panic ''mappages: va not aligned'')
      else if unat sz mod PGSIZE \<noteq> 0 then Inl (Panic ''mappages: size not aligned'')
      else if sz = 0 then Inl (Panic ''mappages: size'')
      else mappages_loop (unat sz div PGSIZE) pagetable va (va + sz - 4096) pa perm s)"

subsection \<open>The kernel's page table\<close>

abbreviation (input) UART0 :: u64 where "UART0 \<equiv> 0x10000000"
abbreviation (input) VIRTIO0 :: u64 where "VIRTIO0 \<equiv> 0x10001000"
abbreviation (input) PLIC :: u64 where "PLIC \<equiv> 0x0c000000"

definition kvmmap :: "u64 \<Rightarrow> u64 \<Rightarrow> u64 \<Rightarrow> u64 \<Rightarrow> u64 \<Rightarrow> kstate \<Rightarrow> kstate result" where
  "kvmmap kpgtbl va pa sz perm s =
     rbind (mappages kpgtbl va sz pa perm s) (\<lambda>(r, s).
     if r \<noteq> 0 then Inl (Panic ''kvmmap'') else Inr s)"

definition proc_mapstacks :: "u64 \<Rightarrow> kstate \<Rightarrow> kstate result" where
  "proc_mapstacks kpgtbl s =
     rfold (\<lambda>p s.
       rbind (kalloc s) (\<lambda>(pa, s).
       if pa = 0 then Inl (Panic ''kalloc'')
       else kvmmap kpgtbl (KSTACK p) pa 4096 (PTE_R OR PTE_W) s)) [0..<NPROC] s"

definition kvmmake :: "kstate \<Rightarrow> (u64 \<times> kstate) result" where
  "kvmmake s =
     rbind (kalloc s) (\<lambda>(kpgtbl, s).
     rbind (kvmmap kpgtbl UART0 UART0 4096 (PTE_R OR PTE_W) (zero_page kpgtbl s)) (\<lambda>s.
     rbind (kvmmap kpgtbl VIRTIO0 VIRTIO0 4096 (PTE_R OR PTE_W) s) (\<lambda>s.
     rbind (kvmmap kpgtbl PLIC PLIC 0x4000000 (PTE_R OR PTE_W) s) (\<lambda>s.
     rbind (kvmmap kpgtbl KERNBASE KERNBASE (ketext s - KERNBASE) (PTE_R OR PTE_X) s) (\<lambda>s.
     rbind (kvmmap kpgtbl (ketext s) (ketext s) (PHYSTOP - ketext s) (PTE_R OR PTE_W) s) (\<lambda>s.
     rbind (kvmmap kpgtbl TRAMPOLINE (ktrampoline s) 4096 (PTE_R OR PTE_X) s) (\<lambda>s.
     rbind (proc_mapstacks kpgtbl s) (\<lambda>s.
     Inr (kpgtbl, s)))))))))"

definition kvminit :: "kstate \<Rightarrow> kstate result" where
  "kvminit s = rbind (kvmmake s) (\<lambda>(kpgtbl, s). Inr (s\<lparr>kernel_pagetable := kpgtbl\<rparr>))"

subsection \<open>User memory\<close>

definition uvmcreate :: "kstate \<Rightarrow> (u64 \<times> kstate) result" where
  "uvmcreate s =
     rbind (kalloc s) (\<lambda>(pagetable, s).
     if pagetable = 0 then Inr (0, s) else Inr (pagetable, zero_page pagetable s))"

text \<open>The loop over the pages ends because \<^verbatim>\<open>walk\<close> panics on an address at or above \<^verbatim>\<open>MAXVA\<close>.\<close>

lemma walk_below_MAXVA: "walk pagetable va alloc s = Inr x \<Longrightarrow> unat va < unat MAXVA"
  by (auto simp: walk_def word_le_nat_alt not_le split: if_splits)

lemma next_page_less:
  "unat (a :: u64) < 274877906944 \<Longrightarrow> 274877906944 - unat (a + 4096) < 274877906944 - unat a"
  by (simp add: unat_plus_if')

function uvmunmap_loop :: "u64 \<Rightarrow> u64 \<Rightarrow> u64 \<Rightarrow> bool \<Rightarrow> kstate \<Rightarrow> kstate result" where
  "uvmunmap_loop pagetable a bound do_free s =
     (if a < bound then
        rbind (walk pagetable a False s) (\<lambda>(pte, s).
        if pte = 0 \<or> load64 pte s AND PTE_V = 0 then uvmunmap_loop pagetable (a + 4096) bound do_free s
        else
          rbind (if do_free then kfree (PTE2PA (load64 pte s)) s else Inr s) (\<lambda>s.
          uvmunmap_loop pagetable (a + 4096) bound do_free (store64 pte 0 s)))
      else Inr s)"
  by pat_completeness auto
termination
  by (relation "measure (\<lambda>(pt, a, b, f, s). unat MAXVA - unat a)")
    (auto simp: split_beta dest!: walk_below_MAXVA intro: next_page_less)

declare uvmunmap_loop.simps [simp del]

definition uvmunmap :: "u64 \<Rightarrow> u64 \<Rightarrow> u64 \<Rightarrow> bool \<Rightarrow> kstate \<Rightarrow> kstate result" where
  "uvmunmap pagetable va npages do_free s =
     (if unat va mod PGSIZE \<noteq> 0 then Inl (Panic ''uvmunmap: not aligned'')
      else uvmunmap_loop pagetable va (va + npages * 4096) do_free s)"

text \<open>The page count is an \<^verbatim>\<open>int\<close>, converted back to 64 bits for the call.\<close>

definition uvmdealloc :: "u64 \<Rightarrow> u64 \<Rightarrow> u64 \<Rightarrow> kstate \<Rightarrow> (u64 \<times> kstate) result" where
  "uvmdealloc pagetable oldsz newsz s =
     (if newsz \<ge> oldsz then Inr (oldsz, s)
      else
        rbind (if PGROUNDUP newsz < PGROUNDUP oldsz then
                 let npages = ucast ((PGROUNDUP oldsz - PGROUNDUP newsz) div 4096) :: u32
                 in uvmunmap pagetable (PGROUNDUP newsz) (word_of_int (sint npages)) True s
               else Inr s) (\<lambda>s.
        Inr (newsz, s)))"

lemma mappages_below_MAXVA: "mappages pagetable va 4096 pa perm s = Inr x \<Longrightarrow> unat va < unat MAXVA"
  by (auto simp: mappages_def rbind_Inr_iff dest: walk_below_MAXVA split: if_splits)

function uvmalloc_loop ::
  "u64 \<Rightarrow> u64 \<Rightarrow> u64 \<Rightarrow> u64 \<Rightarrow> u64 \<Rightarrow> kstate \<Rightarrow> (u64 \<times> kstate) result" where
  "uvmalloc_loop pagetable a oldsz newsz xperm s =
     (if a < newsz then
        rbind (kalloc s) (\<lambda>(pg, s).
        if pg = 0 then rbind (uvmdealloc pagetable a oldsz s) (\<lambda>(_, s). Inr (0, s))
        else
          rbind (mappages pagetable a 4096 pg (PTE_R OR PTE_U OR xperm) (zero_page pg s)) (\<lambda>(r, s).
          if r \<noteq> 0 then
            rbind (kfree pg s) (\<lambda>s.
            rbind (uvmdealloc pagetable a oldsz s) (\<lambda>(_, s). Inr (0, s)))
          else uvmalloc_loop pagetable (a + 4096) oldsz newsz xperm s))
      else Inr (newsz, s))"
  by pat_completeness auto
termination
  by (relation "measure (\<lambda>(pt, a, b, n, x, s). unat MAXVA - unat a)")
    (auto dest!: mappages_below_MAXVA intro: next_page_less)

declare uvmalloc_loop.simps [simp del]

definition uvmalloc :: "u64 \<Rightarrow> u64 \<Rightarrow> u64 \<Rightarrow> u64 \<Rightarrow> kstate \<Rightarrow> (u64 \<times> kstate) result" where
  "uvmalloc pagetable oldsz newsz xperm s =
     (if newsz < oldsz then Inr (oldsz, s)
      else uvmalloc_loop pagetable (PGROUNDUP oldsz) (PGROUNDUP oldsz) newsz xperm s)"

text \<open>
  \<^verbatim>\<open>freewalk\<close> recurses into the page tables below; the first argument bounds the depth, which is
  three for a table that \<^verbatim>\<open>walk\<close> built.
\<close>

primrec freewalk :: "nat \<Rightarrow> u64 \<Rightarrow> kstate \<Rightarrow> kstate result" where
  "freewalk 0 pagetable s = Inl Spinning"
| "freewalk (Suc d) pagetable s =
     rbind (rfold (\<lambda>i s.
              let at = pagetable + 8 * of_nat i; pte = load64 at s in
              if pte AND PTE_V \<noteq> 0 \<and> pte AND (PTE_R OR PTE_W OR PTE_X) = 0 then
                rbind (freewalk d (PTE2PA pte) s) (\<lambda>s. Inr (store64 at 0 s))
              else if pte AND PTE_V \<noteq> 0 then Inl (Panic ''freewalk: leaf'')
              else Inr s) [0..<512] s) (\<lambda>s.
     kfree pagetable s)"

definition uvmfree :: "u64 \<Rightarrow> u64 \<Rightarrow> kstate \<Rightarrow> kstate result" where
  "uvmfree pagetable sz s =
     rbind (if sz > 0 then uvmunmap pagetable 0 (PGROUNDUP sz div 4096) True s else Inr s) (\<lambda>s.
     freewalk 3 pagetable s)"

definition copy_page :: "u64 \<Rightarrow> u64 \<Rightarrow> kstate \<Rightarrow> kstate" where
  "copy_page dst src s = s\<lparr>mem := memmove (mem s) (unat dst) (unat src) PGSIZE\<rparr>"

definition uvmcopy_err :: "u64 \<Rightarrow> u64 \<Rightarrow> kstate \<Rightarrow> (int \<times> kstate) result" where
  "uvmcopy_err new i s = rbind (uvmunmap new 0 (i div 4096) True s) (\<lambda>s. Inr (-1, s))"

function uvmcopy_loop :: "u64 \<Rightarrow> u64 \<Rightarrow> u64 \<Rightarrow> u64 \<Rightarrow> kstate \<Rightarrow> (int \<times> kstate) result" where
  "uvmcopy_loop old new i sz s =
     (if i < sz then
        rbind (walk old i False s) (\<lambda>(pte, s).
        if pte = 0 \<or> load64 pte s AND PTE_V = 0 then uvmcopy_loop old new (i + 4096) sz s
        else
          let pa = PTE2PA (load64 pte s); flags = PTE_FLAGS (load64 pte s) in
          rbind (kalloc s) (\<lambda>(pg, s).
          if pg = 0 then uvmcopy_err new i s
          else
            rbind (mappages new i 4096 pg flags (copy_page pg pa s)) (\<lambda>(r, s).
            if r \<noteq> 0 then rbind (kfree pg s) (\<lambda>s. uvmcopy_err new i s)
            else uvmcopy_loop old new (i + 4096) sz s)))
      else Inr (0, s))"
  by pat_completeness auto
termination
  by (relation "measure (\<lambda>(o', n, i, sz, s). unat MAXVA - unat i)")
    (auto dest!: walk_below_MAXVA intro: next_page_less)

declare uvmcopy_loop.simps [simp del]

definition uvmcopy :: "u64 \<Rightarrow> u64 \<Rightarrow> u64 \<Rightarrow> kstate \<Rightarrow> (int \<times> kstate) result" where
  "uvmcopy old new sz s = uvmcopy_loop old new 0 sz s"

definition uvmclear :: "u64 \<Rightarrow> u64 \<Rightarrow> kstate \<Rightarrow> kstate result" where
  "uvmclear pagetable va s =
     rbind (walk pagetable va False s) (\<lambda>(pte, s).
     if pte = 0 then Inl (Panic ''uvmclear'')
     else Inr (store64 pte (load64 pte s AND NOT PTE_U) s))"

subsection \<open>Copies between kernel and user space\<close>

text \<open>
  A pointer to kernel data: into a page of the allocator, or into a variable of the kernel, which
  the pointer carries with the offset it points to.
\<close>

datatype kptr = Phys u64 | Local bytes nat

fun kptr_add :: "kptr \<Rightarrow> nat \<Rightarrow> kptr" where
  "kptr_add (Phys a) n = Phys (a + of_nat n)"
| "kptr_add (Local b i) n = Local b (i + n)"

fun kptr_data :: "kptr \<Rightarrow> bytes" where
  "kptr_data (Phys a) = (\<lambda>_. 0)"
| "kptr_data (Local b i) = b"

fun kptr_byte :: "kptr \<Rightarrow> kstate \<Rightarrow> byte" where
  "kptr_byte (Phys a) s = mem s (unat a)"
| "kptr_byte (Local b i) s = b i"

fun kptr_set :: "kptr \<Rightarrow> byte \<Rightarrow> kstate \<Rightarrow> kptr \<times> kstate" where
  "kptr_set (Phys a) c s = (Phys a, s\<lparr>mem := (mem s)(unat a := c)\<rparr>)"
| "kptr_set (Local b i) c s = (Local (b(i := c)) i, s)"

text \<open>\<^verbatim>\<open>memmove(dst, src, n)\<close>; the result is the destination with its new content.\<close>

fun kmemmove :: "kptr \<Rightarrow> kptr \<Rightarrow> nat \<Rightarrow> kstate \<Rightarrow> kptr \<times> kstate" where
  "kmemmove (Phys d) (Phys a) n s = (Phys d, s\<lparr>mem := memmove (mem s) (unat d) (unat a) n\<rparr>)"
| "kmemmove (Phys d) (Local b i) n s = (Phys d, s\<lparr>mem := copy_bytes (mem s) (unat d) b i n\<rparr>)"
| "kmemmove (Local c j) (Phys a) n s = (Local (copy_bytes c j (mem s) (unat a) n) j, s)"
| "kmemmove (Local c j) (Local b i) n s = (Local (copy_bytes c j b i n) j, s)"

definition ismapped :: "u64 \<Rightarrow> u64 \<Rightarrow> kstate \<Rightarrow> (bool \<times> kstate) result" where
  "ismapped pagetable va s =
     rbind (walk pagetable va False s) (\<lambda>(pte, s).
     if pte = 0 then Inr (False, s) else Inr (load64 pte s AND PTE_V \<noteq> 0, s))"

definition vmfault :: "u64 \<Rightarrow> u64 \<Rightarrow> kstate \<Rightarrow> (u64 \<times> kstate) result" where
  "vmfault pagetable va s =
     (if va \<ge> p_sz (myproc s) then Inr (0, s)
      else
        let va = PGROUNDDOWN va in
        rbind (ismapped pagetable va s) (\<lambda>(m, s).
        if m then Inr (0, s)
        else
          rbind (kalloc s) (\<lambda>(pg, s).
          if pg = 0 then Inr (0, s)
          else
            rbind (mappages (p_pagetable (myproc s)) va 4096 pg (PTE_W OR PTE_U OR PTE_R)
                     (zero_page pg s)) (\<lambda>(r, s).
            if r \<noteq> 0 then rbind (kfree pg s) (\<lambda>s. Inr (0, s))
            else Inr (pg, s)))))"

text \<open>The length of the next piece of a copy, which does not cross a page boundary.\<close>

definition piece :: "u64 \<Rightarrow> u64 \<Rightarrow> u64" where
  "piece va len = (let n = 4096 - (va - PGROUNDDOWN va) in if n > len then len else n)"

lemma unat_page_offset: "unat (va - PGROUNDDOWN va) = unat va mod 4096"
proof -
  have "unat (va - PGROUNDDOWN va) = unat va - unat va div 4096 * 4096"
    using PGROUNDDOWN_le [of va] by (simp add: unat_sub word_le_nat_alt unat_PGROUNDDOWN)
  then show ?thesis by (simp add: minus_div_mult_eq_mod)
qed

lemma unat_piece: "unat (piece va len) = min (unat len) (4096 - unat va mod 4096)"
proof -
  have "unat va mod 4096 < 4096" by simp
  then have "unat (4096 - (va - PGROUNDDOWN va)) = 4096 - unat va mod 4096"
    by (simp add: unat_sub word_le_nat_alt unat_page_offset)
  then show ?thesis by (simp add: piece_def Let_def word_less_nat_alt min_def)
qed

lemma piece_less: "0 < len \<Longrightarrow> unat (len - piece va len) < unat len"
proof -
  assume "0 < len"
  then have "0 < unat len" by (simp add: word_less_nat_alt)
  moreover have "unat va mod 4096 < 4096" by simp
  ultimately show ?thesis
    by (simp add: unat_sub word_le_nat_alt unat_piece min_def)
qed

function copyout :: "u64 \<Rightarrow> u64 \<Rightarrow> kptr \<Rightarrow> u64 \<Rightarrow> kstate \<Rightarrow> (int \<times> kstate) result" where
  "copyout pagetable dstva src len s =
     (if len > 0 then
        let va0 = PGROUNDDOWN dstva in
        if va0 \<ge> MAXVA then Inr (-1, s)
        else
          rbind (walkaddr pagetable va0 s) (\<lambda>(pa0, s).
          rbind (if pa0 = 0 then vmfault pagetable va0 s else Inr (pa0, s)) (\<lambda>(pa0, s).
          if pa0 = 0 then Inr (-1, s)
          else
            rbind (walk pagetable va0 False s) (\<lambda>(pte, s).
            if pte = 0 then Inl (Panic ''kerneltrap'')
            else if load64 pte s AND PTE_W = 0 then Inr (-1, s)
            else
              let n = piece dstva len in
              copyout pagetable (va0 + 4096) (kptr_add src (unat n)) (len - n)
                (snd (kmemmove (Phys (pa0 + (dstva - va0))) src (unat n) s)))))
      else Inr (0, s))"
  by pat_completeness auto
termination
  by (relation "measure (\<lambda>(pt, va, src, len, s). unat len)") (auto intro: piece_less)

declare copyout.simps [simp del]

function copyin :: "u64 \<Rightarrow> kptr \<Rightarrow> u64 \<Rightarrow> u64 \<Rightarrow> kstate \<Rightarrow> (int \<times> kptr \<times> kstate) result" where
  "copyin pagetable dst srcva len s =
     (if len > 0 then
        let va0 = PGROUNDDOWN srcva in
        rbind (walkaddr pagetable va0 s) (\<lambda>(pa0, s).
        rbind (if pa0 = 0 then vmfault pagetable va0 s else Inr (pa0, s)) (\<lambda>(pa0, s).
        if pa0 = 0 then Inr (-1, dst, s)
        else
          let n = piece srcva len; (dst, s) = kmemmove dst (Phys (pa0 + (srcva - va0))) (unat n) s in
          copyin pagetable (kptr_add dst (unat n)) (va0 + 4096) (len - n) s))
      else Inr (0, dst, s))"
  by pat_completeness auto
termination
  by (relation "measure (\<lambda>(pt, dst, va, len, s). unat len)") (auto intro: piece_less)

declare copyin.simps [simp del]

text \<open>
  The inner loop of \<^verbatim>\<open>copyinstr\<close>: \<open>n\<close> bytes of the page at \<open>p\<close>; it returns \<^verbatim>\<open>got_null\<close>.
\<close>

primrec copystr :: "nat \<Rightarrow> kptr \<Rightarrow> u64 \<Rightarrow> kstate \<Rightarrow> bool \<times> kptr \<times> kstate" where
  "copystr 0 dst p s = (False, dst, s)"
| "copystr (Suc n) dst p s =
     (let c = mem s (unat p); (dst, s) = kptr_set dst c s in
      if c = 0 then (True, dst, s) else copystr n (kptr_add dst 1) (p + 1) s)"

function copyinstr :: "u64 \<Rightarrow> kptr \<Rightarrow> u64 \<Rightarrow> u64 \<Rightarrow> kstate \<Rightarrow> (int \<times> kptr \<times> kstate) result" where
  "copyinstr pagetable dst srcva maxlen s =
     (if maxlen > 0 then
        let va0 = PGROUNDDOWN srcva in
        rbind (walkaddr pagetable va0 s) (\<lambda>(pa0, s).
        if pa0 = 0 then Inr (-1, dst, s)
        else
          let n = piece srcva maxlen;
              (got_null, dst, s) = copystr (unat n) dst (pa0 + (srcva - va0)) s in
          if got_null then Inr (0, dst, s)
          else copyinstr pagetable dst (va0 + 4096) (maxlen - n) s)
      else Inr (-1, dst, s))"
  by pat_completeness auto
termination
  by (relation "measure (\<lambda>(pt, dst, va, m, s). unat m)") (auto intro: piece_less)

declare copyinstr.simps [simp del]

end
