(* ===== verification/Printf.thy ===== *)
theory Printf
  imports Kstate
begin

text \<open>
  Console output of the kernel: \<^verbatim>\<open>uartputc_sync\<close> of \<^verbatim>\<open>kernel/uart.c\<close>, \<^verbatim>\<open>consputc\<close> of
  \<^verbatim>\<open>kernel/console.c\<close> and \<^verbatim>\<open>kernel/printf.c\<close>. A character that is printed is a byte
  appended to \<open>uart_out\<close>. A panic is a failure of the result type, so the code that runs after
  \<^verbatim>\<open>panicking\<close> is set is not part of the state transformers. The variable arguments are a
  list of 64-bit slots and strings.
\<close>

subsection \<open>Output\<close>

text \<open>
  The wait for \<^verbatim>\<open>LSR_TX_IDLE\<close> ends because the device drains its register; interrupts stay
  off meanwhile, which the thread's own state does not show. The register takes the low byte.
\<close>

definition uartputc_sync :: "int \<Rightarrow> kstate \<Rightarrow> kstate" where
  "uartputc_sync c s = s\<lparr>uart_out := uart_out s @ [word_of_int c]\<rparr>"

abbreviation (input) BACKSPACE :: int where "BACKSPACE \<equiv> 0x100"

definition consputc :: "int \<Rightarrow> kstate \<Rightarrow> kstate" where
  "consputc c s =
     (if c = BACKSPACE then uartputc_sync 8 (uartputc_sync 32 (uartputc_sync 8 s))
      else uartputc_sync c s)"

definition consputs :: "byte list \<Rightarrow> kstate \<Rightarrow> kstate" where
  "consputs bs s = fold (\<lambda>b. consputc (uint b)) bs s"

subsection \<open>Numbers\<close>

text \<open>The digits of \<^verbatim>\<open>0123456789abcdef\<close>.\<close>

definition digit_char :: "nat \<Rightarrow> byte" where
  "digit_char d = (if d < 10 then of_nat (48 + d) else of_nat (87 + d))"

text \<open>
  \<^verbatim>\<open>do { buf[i++] = digits[x % base]; } while((x /= base) != 0);\<close> for the bases 10 and 16 of
  the callers, for which the quotient of a positive number is smaller. The list is the array
  \<^verbatim>\<open>buf\<close> up to \<^verbatim>\<open>i\<close>.
\<close>

function digit_loop :: "nat \<Rightarrow> nat \<Rightarrow> byte list \<Rightarrow> byte list" where
  "digit_loop base x buf =
     (let buf = buf @ [digit_char (x mod base)]; x' = x div base in
      if x' \<noteq> 0 \<and> x' < x then digit_loop base x' buf else buf)"
  by pat_completeness auto
termination
  by (relation "measure (\<lambda>(base, x, buf). x)") auto

declare digit_loop.simps [simp del]

definition printint_buf :: "u64 \<Rightarrow> nat \<Rightarrow> bool \<Rightarrow> byte list" where
  "printint_buf xx base sign =
     (let sign = (sign \<and> sint xx < 0);
          x = (if sign then - xx else xx);
          buf = digit_loop base (unat x) []
      in if sign then buf @ [45] else buf)"

text \<open>\<^verbatim>\<open>while(--i >= 0) consputc(buf[i]);\<close>\<close>

definition printint :: "u64 \<Rightarrow> nat \<Rightarrow> bool \<Rightarrow> kstate \<Rightarrow> kstate" where
  "printint xx base sign s = consputs (rev (printint_buf xx base sign)) s"

primrec printptr_loop :: "nat \<Rightarrow> u64 \<Rightarrow> kstate \<Rightarrow> kstate" where
  "printptr_loop 0 x s = s"
| "printptr_loop (Suc k) x s =
     printptr_loop k (push_bit 4 x) (consputc (uint (digit_char (unat (drop_bit 60 x)))) s)"

definition printptr :: "u64 \<Rightarrow> kstate \<Rightarrow> kstate" where
  "printptr x s = printptr_loop 16 x (consputc 0x78 (consputc 0x30 s))"

subsection \<open>Formats\<close>

datatype parg = Num u64 | Str "byte list option"

definition arg_num :: "parg list \<Rightarrow> (u64 \<times> parg list) result" where
  "arg_num ap = (case ap of Num x # ap \<Rightarrow> Inr (x, ap) | _ \<Rightarrow> Inl (Panic ''va_arg''))"

definition arg_str :: "parg list \<Rightarrow> (byte list option \<times> parg list) result" where
  "arg_str ap = (case ap of Str x # ap \<Rightarrow> Inr (x, ap) | _ \<Rightarrow> Inl (Panic ''va_arg''))"

text \<open>\<^verbatim>\<open>va_arg(ap, int)\<close> and \<^verbatim>\<open>va_arg(ap, uint32)\<close> of a slot, widened to the parameter's type.\<close>

definition as_int :: "u64 \<Rightarrow> u64" where
  "as_int x = word_of_int (sint (ucast x :: u32))"

definition as_uint :: "u64 \<Rightarrow> u64" where
  "as_uint x = ucast (ucast x :: u32)"

text \<open>
  One directive: the characters \<^verbatim>\<open>c0\<close>, \<^verbatim>\<open>c1\<close> and \<^verbatim>\<open>c2\<close> after the percent sign (0 past the end),
  to the number of characters after \<^verbatim>\<open>c0\<close> that it also takes. None is the \<^verbatim>\<open>break\<close> at the end
  of the format.
\<close>

definition directive :: "byte \<Rightarrow> byte \<Rightarrow> byte \<Rightarrow> parg list \<Rightarrow> kstate \<Rightarrow>
    ((nat \<times> parg list \<times> kstate) option) result" where
  "directive c0 c1 c2 ap s =
     (let d = of_char CHR ''d''; l = of_char CHR ''l''; u = of_char CHR ''u''; x = of_char CHR ''x'';
          num = (\<lambda>conv base sign k. rbind (arg_num ap) (\<lambda>(v, ap).
                  Inr (Some (k, ap, printint (conv v) base sign s)))) in
      if c0 = d then num as_int 10 True 0
      else if c0 = l \<and> c1 = d then num id 10 True 1
      else if c0 = l \<and> c1 = l \<and> c2 = d then num id 10 True 2
      else if c0 = u then num as_uint 10 False 0
      else if c0 = l \<and> c1 = u then num id 10 False 1
      else if c0 = l \<and> c1 = l \<and> c2 = u then num id 10 False 2
      else if c0 = x then num as_uint 16 False 0
      else if c0 = l \<and> c1 = x then num id 16 False 1
      else if c0 = l \<and> c1 = l \<and> c2 = x then num id 16 False 2
      else if c0 = of_char CHR ''p'' then
        rbind (arg_num ap) (\<lambda>(v, ap). Inr (Some (0, ap, printptr v s)))
      else if c0 = of_char CHR ''c'' then
        rbind (arg_num ap) (\<lambda>(v, ap). Inr (Some (0, ap, consputc (sint (ucast v :: u32)) s)))
      else if c0 = of_char CHR ''s'' then
        rbind (arg_str ap) (\<lambda>(v, ap).
        Inr (Some (0, ap, consputs (case v of None \<Rightarrow> str ''(null)'' | Some bs \<Rightarrow> bs) s)))
      else if c0 = of_char CHR ''%'' then Inr (Some (0, ap, consputc 0x25 s))
      else if c0 = 0 then Inr None
      else Inr (Some (0, ap, consputc (uint c0) (consputc 0x25 s))))"

definition char_at :: "byte list \<Rightarrow> nat \<Rightarrow> byte" where
  "char_at bs i = (if i < length bs then bs ! i else 0)"

function printf_loop :: "byte list \<Rightarrow> nat \<Rightarrow> parg list \<Rightarrow> kstate \<Rightarrow> kstate result" where
  "printf_loop fmt i ap s =
     (if i < length fmt then
        (if fmt ! i \<noteq> of_char CHR ''%'' then
           printf_loop fmt (Suc i) ap (consputc (uint (fmt ! i)) s)
         else
           let c0 = char_at fmt (i + 1);
               c1 = (if c0 \<noteq> 0 then char_at fmt (i + 2) else 0);
               c2 = (if c1 \<noteq> 0 then char_at fmt (i + 3) else 0) in
           rbind (directive c0 c1 c2 ap s) (\<lambda>r.
           case r of None \<Rightarrow> Inr s
           | Some (k, ap, s) \<Rightarrow> printf_loop fmt (i + 2 + k) ap s))
      else Inr s)"
  by pat_completeness auto
termination
  by (relation "measure (\<lambda>(fmt, i, ap, s). length fmt - i)") auto

declare printf_loop.simps [simp del]

text \<open>\<open>fmt\<close> is the format without its final null character.\<close>

definition printf :: "byte list \<Rightarrow> parg list \<Rightarrow> kstate \<Rightarrow> kstate result" where
  "printf fmt ap s =
     rbind (acquire Lk_pr s) (\<lambda>s.
     rbind (printf_loop fmt 0 ap s) (\<lambda>s.
     release Lk_pr s))"

subsection \<open>Lemmas\<close>

lemma consputs_eq: "consputs bs s = s\<lparr>uart_out := uart_out s @ bs\<rparr>"
proof (induction bs arbitrary: s)
  case Nil
  then show ?case by (simp add: consputs_def)
next
  case (Cons b bs)
  have "uint b < 256" using unsigned_less [of b] by simp
  then have "consputc (uint b) s = s\<lparr>uart_out := uart_out s @ [b]\<rparr>"
    by (simp add: consputc_def uartputc_sync_def)
  then have "consputs (b # bs) s = consputs bs (s\<lparr>uart_out := uart_out s @ [b]\<rparr>)"
    by (simp add: consputs_def)
  then show ?case by (simp add: Cons)
qed

text \<open>The number that a sequence of digits denotes, most significant digit first.\<close>

definition digit_val :: "byte \<Rightarrow> nat" where
  "digit_val c = (if unat c \<ge> 87 then unat c - 87 else unat c - 48)"

definition numeral_val :: "nat \<Rightarrow> byte list \<Rightarrow> nat" where
  "numeral_val base ds = foldl (\<lambda>a c. a * base + digit_val c) 0 ds"

lemma numeral_val_snoc: "numeral_val base (ds @ [c]) = numeral_val base ds * base + digit_val c"
  by (simp add: numeral_val_def)

lemma digit_val_char: "d < 16 \<Longrightarrow> digit_val (digit_char d) = d"
proof -
  assume d: "d < 16"
  have "unat (of_nat (48 + d) :: byte) = 48 + d" "unat (of_nat (87 + d) :: byte) = 87 + d"
    by (rule unat_of_nat_small, use d in simp)+
  then show ?thesis unfolding digit_val_def digit_char_def by simp
qed

lemma digit_char_0: "d < 16 \<Longrightarrow> digit_char d = digit_char 0 \<longleftrightarrow> d = 0"
  using digit_val_char [of d] digit_val_char [of 0] by auto

text \<open>
  The digits that the loop appends, least significant first: they denote the number, there is at
  least one, there is no leading zero, and there are at most \<open>k\<close> of them for a number below
  \<open>base ^ k\<close>.
\<close>

definition digits_of :: "nat \<Rightarrow> nat \<Rightarrow> byte list \<Rightarrow> bool" where
  "digits_of base x ds \<longleftrightarrow> ds \<noteq> [] \<and> numeral_val base (rev ds) = x \<and>
    set ds \<subseteq> digit_char ` {..<base} \<and> (last ds = digit_char 0 \<longleftrightarrow> x = 0) \<and>
    (\<forall>k. 0 < k \<longrightarrow> x < base ^ k \<longrightarrow> length ds \<le> k)"

lemma digits_of_one:
  assumes "x < base" "base \<le> 16"
  shows "digits_of base x [digit_char x]"
proof -
  have "x < 16" using assms by simp
  then show ?thesis using assms digit_char_0 [of x] digit_val_char [of x]
    by (simp add: digits_of_def numeral_val_def)
qed

lemma digits_of_step:
  assumes "2 \<le> base" "base \<le> 16" "x div base \<noteq> 0" "digits_of base (x div base) ds"
  shows "digits_of base x (digit_char (x mod base) # ds)"
proof -
  have m: "x mod base < base" using assms by simp
  have v: "digit_val (digit_char (x mod base)) = x mod base" using m assms(2) by (intro digit_val_char) simp
  have len: "length (digit_char (x mod base) # ds) \<le> k" if k: "0 < k" "x < base ^ k" for k
  proof -
    obtain j where j: "k = Suc j" using k(1) by (cases k) auto
    have "x div base < base ^ j" using k(2) unfolding j by (simp add: less_mult_imp_div_less mult.commute)
    moreover from this have "0 < j" using assms(3) by (cases j) auto
    ultimately show ?thesis using assms(4) j by (simp add: digits_of_def)
  qed
  have "numeral_val base (rev (digit_char (x mod base) # ds)) = x div base * base + x mod base"
    using assms(4) v by (simp add: digits_of_def numeral_val_snoc)
  moreover have "x \<noteq> 0" using assms(3) by (metis div_0)
  ultimately show ?thesis using assms(3,4) m len by (simp add: digits_of_def)
qed

lemma digit_loop_digits:
  assumes "2 \<le> base" "base \<le> 16"
  shows "\<exists>ds. digit_loop base x buf = buf @ ds \<and> digits_of base x ds"
proof (induction x arbitrary: buf rule: less_induct)
  case (less x)
  let ?c = "digit_char (x mod base)"
  show ?case
  proof (cases "x div base = 0")
    case True
    then have "x < base" using assms by (simp add: div_eq_0_iff)
    moreover have "digit_loop base x buf = buf @ [?c]" using True by (subst digit_loop.simps) simp
    ultimately show ?thesis using digits_of_one assms(2) by auto
  next
    case False
    have "0 < x" using False by (metis div_0 gr0I)
    then have lt: "x div base < x" using assms(1) by (intro div_less_dividend) simp_all
    obtain ds where ds: "digit_loop base (x div base) (buf @ [?c]) = (buf @ [?c]) @ ds"
      "digits_of base (x div base) ds" using less.IH [OF lt] by blast
    have "digit_loop base x buf = buf @ ?c # ds"
      using False lt ds(1) by (subst digit_loop.simps) simp
    then show ?thesis using digits_of_step [OF assms False ds(2)] by blast
  qed
qed

lemma sint_bounds: "- (2 ^ 63) \<le> sint xx" "sint xx < 2 ^ 63" for xx :: u64
  using sint_greater_eq [of xx] sint_less [of xx] by simp_all

lemma unat_abs_sint: "int (unat (if sint xx < 0 then - xx else xx)) = \<bar>sint xx\<bar>" for xx :: u64
proof -
  have e: "word_of_int (sint xx) = xx" by simp
  have "uint (word_of_int \<bar>sint xx\<bar> :: u64) = \<bar>sint xx\<bar>"
    using sint_bounds [of xx] by (simp add: uint_word_of_int)
  moreover have "word_of_int \<bar>sint xx\<bar> = (if sint xx < 0 then - xx else xx)"
    using e by (simp add: abs_if)
  ultimately show ?thesis by simp
qed

text \<open>
  C12: \<^verbatim>\<open>printint(xx, 10, 1)\<close> of the kernel prints the decimal numeral of the signed 64-bit number,
  without leading zeros and with a minus sign exactly for negative numbers, and writes at most
  the 20 characters that its buffer has.
\<close>

theorem printint_decimal:
  "\<exists>ds. uart_out (printint xx 10 True s) = uart_out s @ (if sint xx < 0 then [45] else []) @ ds \<and>
     int (numeral_val 10 ds) = \<bar>sint xx\<bar> \<and> set ds \<subseteq> digit_char ` {..<10} \<and> ds \<noteq> [] \<and>
     (hd ds = digit_char 0 \<longleftrightarrow> sint xx = 0) \<and> length (printint_buf xx 10 True) \<le> 20"
proof -
  let ?x = "if sint xx < 0 then - xx else xx"
  have ux: "int (unat ?x) = \<bar>sint xx\<bar>" by (rule unat_abs_sint)
  have "int (unat ?x) < 10 ^ 19" unfolding ux using sint_bounds [of xx] by simp
  then have b: "unat ?x < 10 ^ 19" by (simp only: of_nat_less_iff [symmetric, where 'a = int]) simp
  obtain ds where ds: "digit_loop 10 (unat ?x) [] = ds" "digits_of 10 (unat ?x) ds"
    using digit_loop_digits [of 10 "unat ?x" "[]"] by auto
  then have l: "length ds \<le> 19" using b by (simp add: digits_of_def)
  have "rev (printint_buf xx 10 True) = (if sint xx < 0 then [45] else []) @ rev ds"
    using ds(1) by (auto simp: printint_buf_def Let_def)
  moreover have "length (printint_buf xx 10 True) \<le> 20"
    using ds(1) l by (auto simp: printint_buf_def Let_def)
  moreover have "unat ?x = 0 \<longleftrightarrow> sint xx = 0" using ux by linarith
  ultimately show ?thesis
    using ds(2) ux by (intro exI [of _ "rev ds"]) (simp add: printint_def consputs_eq hd_rev digits_of_def)
qed

end
