(* ===== verification/Proc.thy ===== *)
theory Proc
  imports Vm Sched Printf
begin

text \<open>
  Processes, the part of \<^verbatim>\<open>kernel/proc.c\<close> that does not use the file system: the process table,
  process identifiers, page tables of processes, sleeping and scheduling, killing. The operations
  that do (\<^verbatim>\<open>kfork\<close>, \<^verbatim>\<open>kexit\<close>, \<^verbatim>\<open>kwait\<close>, \<^verbatim>\<open>userinit\<close>, \<^verbatim>\<open>forkret\<close>) are in theory \<open>Fork\<close>.

  A call of \<^verbatim>\<open>swtch\<close> ends the run of a thread of control. A function that calls it is given by
  its part before the switch and its part after the switch back; while the scheduler runs, \<open>cur\<close>
  is \<open>NPROC\<close>, for no process.
\<close>

subsection \<open>The process table\<close>

definition procinit :: "kstate \<Rightarrow> kstate" where
  "procinit s = fold (\<lambda>p. set_proc p (\<lambda>x. x\<lparr>p_state := UNUSED, p_kstack := KSTACK p\<rparr>)) [0..<NPROC] s"

text \<open>The next identifier is a C \<^verbatim>\<open>int\<close>: the increment wraps around at 31 bits.\<close>

definition allocpid :: "kstate \<Rightarrow> (int \<times> kstate) result" where
  "allocpid s =
     rbind (acquire Lk_pid s) (\<lambda>s.
     let pid = nextpid s; s = s\<lparr>nextpid := signed_take_bit 31 (nextpid s + 1)\<rparr> in
     rbind (release Lk_pid s) (\<lambda>s. Inr (pid, s)))"

definition proc_pagetable :: "nat \<Rightarrow> kstate \<Rightarrow> (u64 \<times> kstate) result" where
  "proc_pagetable p s =
     rbind (uvmcreate s) (\<lambda>(pagetable, s).
     if pagetable = 0 then Inr (0, s)
     else
       rbind (mappages pagetable TRAMPOLINE 4096 (ktrampoline s) (PTE_R OR PTE_X) s) (\<lambda>(r, s).
       if r < 0 then rbind (uvmfree pagetable 0 s) (\<lambda>s. Inr (0, s))
       else
         rbind (mappages pagetable TRAPFRAME 4096 (p_trapframe (procs s p)) (PTE_R OR PTE_W) s) (\<lambda>(r, s).
         if r < 0 then
           rbind (uvmunmap pagetable TRAMPOLINE 1 False s) (\<lambda>s.
           rbind (uvmfree pagetable 0 s) (\<lambda>s. Inr (0, s)))
         else Inr (pagetable, s))))"

definition proc_freepagetable :: "u64 \<Rightarrow> u64 \<Rightarrow> kstate \<Rightarrow> kstate result" where
  "proc_freepagetable pagetable sz s =
     rbind (uvmunmap pagetable TRAMPOLINE 1 False s) (\<lambda>s.
     rbind (uvmunmap pagetable TRAPFRAME 1 False s) (\<lambda>s.
     uvmfree pagetable sz s))"

definition freeproc :: "nat \<Rightarrow> kstate \<Rightarrow> kstate result" where
  "freeproc p s =
     rbind (if p_trapframe (procs s p) \<noteq> 0 then kfree (p_trapframe (procs s p)) s else Inr s) (\<lambda>s.
     let s = set_proc p (\<lambda>x. x\<lparr>p_trapframe := 0\<rparr>) s in
     rbind (if p_pagetable (procs s p) \<noteq> 0
            then proc_freepagetable (p_pagetable (procs s p)) (p_sz (procs s p)) s else Inr s) (\<lambda>s.
     Inr (set_proc p (\<lambda>x. x\<lparr>p_pagetable := 0, p_sz := 0, p_pid := 0, p_parent := None,
            p_name := (p_name x)(0 := 0), p_chan := None, p_killed := False, p_xstate := 0,
            p_state := UNUSED\<rparr>) s)))"

text \<open>The scan of \<^verbatim>\<open>allocproc\<close>; it returns with the lock of the process it found held.\<close>

function find_unused :: "nat \<Rightarrow> kstate \<Rightarrow> (nat option \<times> kstate) result" where
  "find_unused p s =
     (if p < NPROC then
        rbind (acquire (Lk_proc p) s) (\<lambda>s.
        if p_state (procs s p) = UNUSED then Inr (Some p, s)
        else rbind (release (Lk_proc p) s) (\<lambda>s. find_unused (Suc p) s))
      else Inr (None, s))"
  by pat_completeness auto
termination
  by (relation "measure (\<lambda>(p, s). NPROC - p)") auto

declare find_unused.simps [simp del]

text \<open>A page from \<^verbatim>\<open>kalloc\<close> read as a trap frame: \<^verbatim>\<open>kalloc\<close> fills it with fives.\<close>

definition trapframe_junk :: trapframe where
  "trapframe_junk = (let w = 0x0505050505050505 in
    \<lparr>kernel_satp = w, kernel_sp = w, kernel_trap = w, epc = w, kernel_hartid = w,
     tf_ra = w, tf_sp = w, tf_gp = w, tf_tp = w, tf_t0 = w, tf_t1 = w, tf_t2 = w, tf_s0 = w,
     tf_s1 = w, tf_a0 = w, tf_a1 = w, tf_a2 = w, tf_a3 = w, tf_a4 = w, tf_a5 = w, tf_a6 = w,
     tf_a7 = w, tf_s2 = w, tf_s3 = w, tf_s4 = w, tf_s5 = w, tf_s6 = w, tf_s7 = w, tf_s8 = w,
     tf_s9 = w, tf_s10 = w, tf_s11 = w, tf_t3 = w, tf_t4 = w, tf_t5 = w, tf_t6 = w\<rparr>)"

definition set_tframe :: "u64 \<Rightarrow> (trapframe \<Rightarrow> trapframe) \<Rightarrow> kstate \<Rightarrow> kstate" where
  "set_tframe a f s = s\<lparr>tframes := (tframes s)(a := f (tframes s a))\<rparr>"

definition allocproc_fail :: "nat \<Rightarrow> kstate \<Rightarrow> (nat option \<times> kstate) result" where
  "allocproc_fail p s =
     rbind (freeproc p s) (\<lambda>s. rbind (release (Lk_proc p) s) (\<lambda>s. Inr (None, s)))"

definition allocproc :: "kstate \<Rightarrow> (nat option \<times> kstate) result" where
  "allocproc s =
     rbind (find_unused 0 s) (\<lambda>(r, s).
     case r of
       None \<Rightarrow> Inr (None, s)
     | Some p \<Rightarrow>
         rbind (allocpid s) (\<lambda>(pid, s).
         let s = set_proc p (\<lambda>x. x\<lparr>p_pid := pid, p_state := USED\<rparr>) s in
         rbind (kalloc s) (\<lambda>(tf, s).
         let s = set_proc p (\<lambda>x. x\<lparr>p_trapframe := tf\<rparr>) s in
         if tf = 0 then allocproc_fail p s
         else
           let s = set_tframe tf (\<lambda>_. trapframe_junk) s in
           rbind (proc_pagetable p s) (\<lambda>(pt, s).
           let s = set_proc p (\<lambda>x. x\<lparr>p_pagetable := pt\<rparr>) s in
           if pt = 0 then allocproc_fail p s
           else
             Inr (Some p, set_proc p (\<lambda>x. x\<lparr>p_context := context0\<lparr>ctx_ra := sym_forkret s,
                    ctx_sp := p_kstack x + 4096\<rparr>\<rparr>) s)))))"

text \<open>\<^verbatim>\<open>n\<close> is an \<^verbatim>\<open>int\<close>, sign-extended in \<^verbatim>\<open>sz + n\<close>.\<close>

definition growproc :: "int \<Rightarrow> kstate \<Rightarrow> (int \<times> kstate) result" where
  "growproc n s =
     (let p = cur s; sz = p_sz (procs s p) in
      if n > 0 then
        rbind (uvmalloc (p_pagetable (procs s p)) sz (sz + word_of_int n) PTE_W s) (\<lambda>(sz, s).
        if sz = 0 then Inr (-1, s) else Inr (0, set_proc p (\<lambda>x. x\<lparr>p_sz := sz\<rparr>) s))
      else if n < 0 then
        rbind (uvmdealloc (p_pagetable (procs s p)) sz (sz + word_of_int n) s) (\<lambda>(sz, s).
        Inr (0, set_proc p (\<lambda>x. x\<lparr>p_sz := sz\<rparr>) s))
      else Inr (0, set_proc p (\<lambda>x. x\<lparr>p_sz := sz\<rparr>) s))"

subsection \<open>Sleeping and scheduling\<close>

text \<open>
  The depth of \<^verbatim>\<open>push_off\<close> is the number of locks held, and interrupts are on when it is zero;
  theory \<open>Spinlock\<close> derives both from the code of \<^verbatim>\<open>acquire\<close> and \<^verbatim>\<open>release\<close>. The switch leaves
  the lock of the process held, for the scheduler to release.
\<close>

definition sched :: "kstate \<Rightarrow> kstate result" where
  "sched s =
     (if Lk_proc (cur s) \<notin> set (held s) then Inl (Panic ''sched p->lock'')
      else if length (held s) \<noteq> 1 then Inl (Panic ''sched locks'')
      else if p_state (myproc s) = RUNNING then Inl (Panic ''sched RUNNING'')
      else if held s = [] then Inl (Panic ''sched interruptible'')
      else Inr (s\<lparr>cur := NPROC\<rparr>))"

definition yield_enter :: "kstate \<Rightarrow> kstate result" where
  "yield_enter s =
     rbind (acquire (Lk_proc (cur s)) s) (\<lambda>s.
     sched (set_proc (cur s) (\<lambda>x. x\<lparr>p_state := RUNNABLE\<rparr>) s))"

definition yield_exit :: "kstate \<Rightarrow> kstate result" where
  "yield_exit s = release (Lk_proc (cur s)) s"

definition sleep_enter :: "chan \<Rightarrow> spin \<Rightarrow> kstate \<Rightarrow> kstate result" where
  "sleep_enter ch lk s =
     rbind (acquire (Lk_proc (cur s)) s) (\<lambda>s.
     rbind (release lk s) (\<lambda>s.
     sched (set_proc (cur s) (\<lambda>x. x\<lparr>p_chan := Some ch, p_state := SLEEPING\<rparr>) s)))"

definition sleep_exit :: "spin \<Rightarrow> kstate \<Rightarrow> kstate result" where
  "sleep_exit lk s =
     (let s = set_proc (cur s) (\<lambda>x. x\<lparr>p_chan := None\<rparr>) s in
      rbind (release (Lk_proc (cur s)) s) (\<lambda>s. acquire lk s))"

text \<open>
  The scan of \<^verbatim>\<open>scheduler\<close> from a process on: it ends with the switch to the first process that
  is runnable, whose lock stays held, or with the end of the round, after which the CPU waits for
  an interrupt if no process ran.
\<close>

function scheduler_scan :: "nat \<Rightarrow> kstate \<Rightarrow> (nat option \<times> kstate) result" where
  "scheduler_scan p s =
     (if p < NPROC then
        rbind (acquire (Lk_proc p) s) (\<lambda>s.
        if p_state (procs s p) = RUNNABLE then
          Inr (Some p, (set_proc p (\<lambda>x. x\<lparr>p_state := RUNNING\<rparr>) s)\<lparr>cur := p\<rparr>)
        else rbind (release (Lk_proc p) s) (\<lambda>s. scheduler_scan (Suc p) s))
      else Inr (None, s))"
  by pat_completeness auto
termination
  by (relation "measure (\<lambda>(p, s). NPROC - p)") auto

declare scheduler_scan.simps [simp del]

text \<open>The part of the loop's body after the process \<open>p\<close> switched back, and the rest of the round.\<close>

definition scheduler_resume :: "nat \<Rightarrow> kstate \<Rightarrow> (nat option \<times> kstate) result" where
  "scheduler_resume p s =
     rbind (release (Lk_proc p) (s\<lparr>cur := NPROC\<rparr>)) (\<lambda>s. scheduler_scan (Suc p) s)"

subsection \<open>Killing\<close>

function kkill_loop :: "int \<Rightarrow> nat \<Rightarrow> kstate \<Rightarrow> (int \<times> kstate) result" where
  "kkill_loop pid p s =
     (if p < NPROC then
        rbind (acquire (Lk_proc p) s) (\<lambda>s.
        if p_pid (procs s p) = pid then
          let s = set_proc p (\<lambda>x. x\<lparr>p_killed := True\<rparr>) s;
              s = (if p_state (procs s p) = SLEEPING
                   then set_proc p (\<lambda>x. x\<lparr>p_state := RUNNABLE\<rparr>) s else s) in
          rbind (release (Lk_proc p) s) (\<lambda>s. Inr (0, s))
        else rbind (release (Lk_proc p) s) (\<lambda>s. kkill_loop pid (Suc p) s))
      else Inr (-1, s))"
  by pat_completeness auto
termination
  by (relation "measure (\<lambda>(pid, p, s). NPROC - p)") auto

declare kkill_loop.simps [simp del]

definition kkill :: "int \<Rightarrow> kstate \<Rightarrow> (int \<times> kstate) result" where
  "kkill pid s = kkill_loop pid 0 s"

definition setkilled :: "nat \<Rightarrow> kstate \<Rightarrow> kstate result" where
  "setkilled p s =
     rbind (acquire (Lk_proc p) s) (\<lambda>s.
     release (Lk_proc p) (set_proc p (\<lambda>x. x\<lparr>p_killed := True\<rparr>) s))"

definition killed :: "nat \<Rightarrow> kstate \<Rightarrow> (bool \<times> kstate) result" where
  "killed p s =
     rbind (acquire (Lk_proc p) s) (\<lambda>s.
     let k = p_killed (procs s p) in
     rbind (release (Lk_proc p) s) (\<lambda>s. Inr (k, s)))"

subsection \<open>Copies to either space\<close>

text \<open>
  The pair of a flag \<^verbatim>\<open>user_dst\<close> or \<^verbatim>\<open>user_src\<close> and an address.
\<close>

datatype uptr = User u64 | Kern kptr

fun uptr_add :: "uptr \<Rightarrow> u64 \<Rightarrow> uptr" where
  "uptr_add (User a) n = User (a + n)"
| "uptr_add (Kern p) n = Kern (kptr_add p (unat n))"

fun either_copyout :: "uptr \<Rightarrow> kptr \<Rightarrow> u64 \<Rightarrow> kstate \<Rightarrow> (int \<times> uptr \<times> kstate) result" where
  "either_copyout (User dst) src len s =
     rbind (copyout (p_pagetable (myproc s)) dst src len s) (\<lambda>(r, s). Inr (r, User dst, s))"
| "either_copyout (Kern dst) src len s =
     (let (dst, s) = kmemmove dst src (unat len) s in Inr (0, Kern dst, s))"

fun either_copyin :: "kptr \<Rightarrow> uptr \<Rightarrow> u64 \<Rightarrow> kstate \<Rightarrow> (int \<times> kptr \<times> kstate) result" where
  "either_copyin dst (User src) len s = copyin (p_pagetable (myproc s)) dst src len s"
| "either_copyin dst (Kern src) len s =
     (let (dst, s) = kmemmove dst src (unat len) s in Inr (0, dst, s))"

subsection \<open>The process listing\<close>

fun state_name :: "procstate \<Rightarrow> string" where
  "state_name UNUSED = ''unused''"
| "state_name USED = ''used''"
| "state_name SLEEPING = ''sleep ''"
| "state_name RUNNABLE = ''runble''"
| "state_name RUNNING = ''run   ''"
| "state_name ZOMBIE = ''zombie''"

definition procdump :: "kstate \<Rightarrow> kstate result" where
  "procdump s =
     rbind (printf (str [CHR 0x0A]) [] s) (\<lambda>s.
     rfold (\<lambda>p s.
       if p_state (procs s p) = UNUSED then Inr s
       else
         rbind (printf (str ''%d %s %s'') [Num (word_of_int (p_pid (procs s p))),
            Str (Some (str (state_name (p_state (procs s p))))),
            Str (Some (cstrn (p_name (procs s p)) 0 16))] s) (\<lambda>s.
         printf (str [CHR 0x0A]) [] s)) [0..<NPROC] s)"

end
