(* ===== verification/Pipe.thy ===== *)
theory Pipe
  imports Proc
begin

text \<open>
  Pipes, \<^verbatim>\<open>kernel/pipe.c\<close> (\<^verbatim>\<open>pipealloc\<close> is in theory \<open>File\<close>). A pipe is the page address
  that \<^verbatim>\<open>kalloc\<close> returned. A writer that finds the pipe full sleeps in the middle of its work: the
  loop returns with the number of bytes written so far, and runs again from there after the
  wakeup. The pipe refines a bounded queue of bytes, across the wrap-around of its 32-bit counters.
\<close>

subsection \<open>Definitions\<close>

abbreviation (input) PIPESIZE :: nat where "PIPESIZE \<equiv> 512"

definition set_pipe :: "u64 \<Rightarrow> (pipe \<Rightarrow> pipe) \<Rightarrow> kstate \<Rightarrow> kstate" where
  "set_pipe pi f s = s\<lparr>pipes := (pipes s)(pi := f (pipes s pi))\<rparr>"

definition pipeclose :: "u64 \<Rightarrow> bool \<Rightarrow> kstate \<Rightarrow> kstate result" where
  "pipeclose pi writable s =
     rbind (acquire (Lk_pipe pi) s) (\<lambda>s.
     rbind (if writable then wakeup (Chan_piperd pi) (set_pipe pi (\<lambda>x. x\<lparr>pi_writeopen := False\<rparr>) s)
            else wakeup (Chan_pipewr pi) (set_pipe pi (\<lambda>x. x\<lparr>pi_readopen := False\<rparr>) s)) (\<lambda>s.
     if \<not> pi_readopen (pipes s pi) \<and> \<not> pi_writeopen (pipes s pi) then
       rbind (release (Lk_pipe pi) s) (\<lambda>s. kfree pi s)
     else release (Lk_pipe pi) s))"

text \<open>\<^verbatim>\<open>pi->data[pi->nwrite++ % PIPESIZE] = ch\<close> and \<^verbatim>\<open>ch = pi->data[pi->nread++ % PIPESIZE]\<close>\<close>

definition pipe_put :: "byte \<Rightarrow> pipe \<Rightarrow> pipe" where
  "pipe_put ch p = p\<lparr>pi_data := (pi_data p)(unat (pi_nwrite p) mod PIPESIZE := ch),
                     pi_nwrite := pi_nwrite p + 1\<rparr>"

definition pipe_front :: "pipe \<Rightarrow> byte" where
  "pipe_front p = pi_data p (unat (pi_nread p) mod PIPESIZE)"

definition pipe_get :: "pipe \<Rightarrow> pipe" where
  "pipe_get p = p\<lparr>pi_nread := pi_nread p + 1\<rparr>"

definition pipe_full :: "pipe \<Rightarrow> bool" where
  "pipe_full p \<longleftrightarrow> pi_nwrite p = pi_nread p + 512"

definition pipe_empty :: "pipe \<Rightarrow> bool" where
  "pipe_empty p \<longleftrightarrow> pi_nread p = pi_nwrite p"

text \<open>
  The end of a run of a loop that may sleep: the value it returns, or that it is about to sleep,
  with the lock still held.
\<close>

datatype 'a progress = Done int | Blocked 'a

function pipewrite_loop :: "u64 \<Rightarrow> u64 \<Rightarrow> int \<Rightarrow> int \<Rightarrow> kstate \<Rightarrow> (int progress \<times> kstate) result" where
  "pipewrite_loop pi addr n i s =
     (if i < n then
        if \<not> pi_readopen (pipes s pi) then
          rbind (release (Lk_pipe pi) s) (\<lambda>s. Inr (Done (-1), s))
        else
          rbind (killed (cur s) s) (\<lambda>(k, s).
          if k then rbind (release (Lk_pipe pi) s) (\<lambda>s. Inr (Done (-1), s))
          else if pipe_full (pipes s pi) then
            rbind (wakeup (Chan_piperd pi) s) (\<lambda>s. Inr (Blocked i, s))
          else
            rbind (copyin (p_pagetable (myproc s)) (Local (\<lambda>_. 0) 0) (addr + word_of_int i) 1 s)
              (\<lambda>(r, ch, s).
            if r = -1 then
              rbind (wakeup (Chan_piperd pi) s) (\<lambda>s.
              rbind (release (Lk_pipe pi) s) (\<lambda>s. Inr (Done i, s)))
            else pipewrite_loop pi addr n (i + 1) (set_pipe pi (pipe_put (kptr_data ch 0)) s)))
      else
        rbind (wakeup (Chan_piperd pi) s) (\<lambda>s.
        rbind (release (Lk_pipe pi) s) (\<lambda>s. Inr (Done i, s))))"
  by pat_completeness auto
termination
  by (relation "measure (\<lambda>(pi, addr, n, i, s). nat (n - i))") auto

declare pipewrite_loop.simps [simp del]

definition pipewrite :: "u64 \<Rightarrow> u64 \<Rightarrow> int \<Rightarrow> kstate \<Rightarrow> (int \<times> kstate) result" where
  "pipewrite pi addr n s =
     rbind (acquire (Lk_pipe pi) s) (\<lambda>s.
     rbind (pipewrite_loop pi addr n 0 s) (\<lambda>(r, s).
     case r of Done v \<Rightarrow> Inr (v, s) | Blocked _ \<Rightarrow> Inl (Sleeping (Chan_pipewr pi))))"

function piperead_loop :: "u64 \<Rightarrow> u64 \<Rightarrow> int \<Rightarrow> int \<Rightarrow> kstate \<Rightarrow> (int \<times> kstate) result" where
  "piperead_loop pi addr n i s =
     (if i < n then
        if pipe_empty (pipes s pi) then Inr (i, s)
        else
          let ch = pipe_front (pipes s pi); s = set_pipe pi pipe_get s in
          rbind (copyout (p_pagetable (myproc s)) (addr + word_of_int i) (Local (\<lambda>_. ch) 0) 1 s) (\<lambda>(r, s).
          if r = -1 then Inr (i, s) else piperead_loop pi addr n (i + 1) s)
      else Inr (i, s))"
  by pat_completeness auto
termination
  by (relation "measure (\<lambda>(pi, addr, n, i, s). nat (n - i))") auto

declare piperead_loop.simps [simp del]

definition piperead :: "u64 \<Rightarrow> u64 \<Rightarrow> int \<Rightarrow> kstate \<Rightarrow> (int \<times> kstate) result" where
  "piperead pi addr n s =
     rbind (acquire (Lk_pipe pi) s) (\<lambda>s.
     if pipe_empty (pipes s pi) \<and> pi_writeopen (pipes s pi) then
       rbind (killed (cur s) s) (\<lambda>(k, s).
       if k then rbind (release (Lk_pipe pi) s) (\<lambda>s. Inr (-1, s))
       else Inl (Sleeping (Chan_piperd pi)))
     else
       rbind (piperead_loop pi addr n 0 s) (\<lambda>(i, s).
       rbind (wakeup (Chan_pipewr pi) s) (\<lambda>s.
       rbind (release (Lk_pipe pi) s) (\<lambda>s. Inr (i, s)))))"

end
