(* ===== verification/Console.thy ===== *)
theory Console
  imports Pipe
begin

text \<open>
  The UART driver \<^verbatim>\<open>kernel/uart.c\<close> and the console \<^verbatim>\<open>kernel/console.c\<close>. The device's side is
  \<open>uart_out\<close>, the bytes written to its transmit register, and \<open>uart_in\<close>, the bytes it has received.
  A thread that waits in \<^verbatim>\<open>uartwrite\<close> for the transmitter sleeps until the interrupt that the
  device raises when the byte is out; the model runs that interrupt's work in the place of the
  sleep. Characters are unsigned, as they are on this machine.
\<close>

subsection \<open>The UART\<close>

text \<open>
  The transmit half of \<^verbatim>\<open>uartintr\<close>; the argument is the bit \<^verbatim>\<open>LSR_TX_IDLE\<close> of the line status
  register.
\<close>

definition uart_tx_intr :: "bool \<Rightarrow> kstate \<Rightarrow> kstate result" where
  "uart_tx_intr idle s =
     rbind (acquire Lk_tx s) (\<lambda>s.
     rbind (if idle then wakeup Chan_tx (s\<lparr>tx_busy := False\<rparr>) else Inr s) (\<lambda>s.
     release Lk_tx s))"

primrec uartwrite_loop :: "byte list \<Rightarrow> kstate \<Rightarrow> kstate result" where
  "uartwrite_loop [] s = Inr s"
| "uartwrite_loop (c # cs) s =
     rbind (if tx_busy s then
              rbind (release Lk_tx s) (\<lambda>s.
              rbind (uart_tx_intr True s) (\<lambda>s.
              acquire Lk_tx s))
            else Inr s) (\<lambda>s.
     uartwrite_loop cs (s\<lparr>uart_out := uart_out s @ [c], tx_busy := True\<rparr>))"

definition uartwrite :: "bytes \<Rightarrow> nat \<Rightarrow> kstate \<Rightarrow> kstate result" where
  "uartwrite buf n s =
     rbind (acquire Lk_tx s) (\<lambda>s.
     rbind (uartwrite_loop (map buf [0..<n]) s) (\<lambda>s.
     release Lk_tx s))"

definition uartgetc :: "kstate \<Rightarrow> int \<times> kstate" where
  "uartgetc s = (case uart_in s of [] \<Rightarrow> (-1, s) | c # cs \<Rightarrow> (uint c, s\<lparr>uart_in := cs\<rparr>))"

subsection \<open>The console\<close>

abbreviation (input) INPUT_BUF_SIZE :: nat where "INPUT_BUF_SIZE \<equiv> 128"

text \<open>Control characters.\<close>

abbreviation (input) ctrl_D :: int where "ctrl_D \<equiv> 4"
abbreviation (input) ctrl_H :: int where "ctrl_H \<equiv> 8"
abbreviation (input) ctrl_P :: int where "ctrl_P \<equiv> 16"
abbreviation (input) ctrl_U :: int where "ctrl_U \<equiv> 21"

definition cons_at :: "u32 \<Rightarrow> kstate \<Rightarrow> byte" where
  "cons_at i s = cons_buf s (unat i mod INPUT_BUF_SIZE)"

function consolewrite_loop :: "uptr \<Rightarrow> int \<Rightarrow> int \<Rightarrow> kstate \<Rightarrow> (int \<times> kstate) result" where
  "consolewrite_loop src n i s =
     (if i < n then
        let nn = (if 32 > n - i then n - i else 32) in
        rbind (either_copyin (Local (\<lambda>_. 0) 0) (uptr_add src (word_of_int i)) (word_of_int nn) s)
          (\<lambda>(r, buf, s).
        if r = -1 then Inr (i, s)
        else
          rbind (uartwrite (kptr_data buf) (nat nn) s) (\<lambda>s.
          consolewrite_loop src n (i + nn) s))
      else Inr (i, s))"
  by pat_completeness auto
termination
  by (relation "measure (\<lambda>(src, n, i, s). nat (n - i))") auto

declare consolewrite_loop.simps [simp del]

definition consolewrite :: "uptr \<Rightarrow> int \<Rightarrow> kstate \<Rightarrow> (int \<times> kstate) result" where
  "consolewrite src n s = consolewrite_loop src n 0 s"

text \<open>
  The loop of \<^verbatim>\<open>consoleread\<close>, whose local variables are \<open>dst\<close> and \<open>n\<close>; it returns them when it is
  about to sleep. \<^verbatim>\<open>n < target\<close> compares two positive numbers.
\<close>

function consoleread_loop :: "int \<Rightarrow> uptr \<Rightarrow> int \<Rightarrow> kstate \<Rightarrow> ((uptr \<times> int) progress \<times> kstate) result" where
  "consoleread_loop target dst n s =
     (if n > 0 then
        if cons_r s = cons_w s then
          rbind (killed (cur s) s) (\<lambda>(k, s).
          if k then rbind (release Lk_cons s) (\<lambda>s. Inr (Done (-1), s))
          else Inr (Blocked (dst, n), s))
        else
          let c = cons_at (cons_r s) s; s = s\<lparr>cons_r := cons_r s + 1\<rparr> in
          if uint c = ctrl_D then
            let s = (if n < target then s\<lparr>cons_r := cons_r s - 1\<rparr> else s) in
            rbind (release Lk_cons s) (\<lambda>s. Inr (Done (target - n), s))
          else
            rbind (either_copyout dst (Local (\<lambda>_. c) 0) 1 s) (\<lambda>(r, dst, s).
            if r = -1 then rbind (release Lk_cons s) (\<lambda>s. Inr (Done (target - n), s))
            else if c = 10 then rbind (release Lk_cons s) (\<lambda>s. Inr (Done (target - (n - 1)), s))
            else consoleread_loop target (uptr_add dst 1) (n - 1) s)
      else rbind (release Lk_cons s) (\<lambda>s. Inr (Done (target - n), s)))"
  by pat_completeness auto
termination
  by (relation "measure (\<lambda>(t, dst, n, s). nat n)") auto

declare consoleread_loop.simps [simp del]

definition consoleread :: "uptr \<Rightarrow> int \<Rightarrow> kstate \<Rightarrow> (int \<times> kstate) result" where
  "consoleread dst n s =
     rbind (acquire Lk_cons s) (\<lambda>s.
     rbind (consoleread_loop n dst n s) (\<lambda>(r, s).
     case r of Done v \<Rightarrow> Inr (v, s) | Blocked _ \<Rightarrow> Inl (Sleeping Chan_cons)))"

function kill_line :: "kstate \<Rightarrow> kstate" where
  "kill_line s =
     (if cons_e s \<noteq> cons_w s \<and> cons_at (cons_e s - 1) s \<noteq> 10
      then kill_line (consputc BACKSPACE (s\<lparr>cons_e := cons_e s - 1\<rparr>)) else s)"
  by pat_completeness auto
termination
proof (relation "measure (\<lambda>s. unat (cons_e s - cons_w s))")
  fix s
  assume "cons_e s \<noteq> cons_w s \<and> cons_at (cons_e s - 1) s \<noteq> 10"
  then have "cons_e s - cons_w s \<noteq> 0" by simp
  then have "unat (cons_e s - cons_w s - 1) < unat (cons_e s - cons_w s)"
    by (simp add: unat_minus_one unat_gt_0)
  then show "(consputc BACKSPACE (s\<lparr>cons_e := cons_e s - 1\<rparr>), s)
      \<in> measure (\<lambda>s. unat (cons_e s - cons_w s))"
    by (simp add: consputc_def uartputc_sync_def algebra_simps)
qed simp

declare kill_line.simps [simp del]

definition cons_store :: "int \<Rightarrow> kstate \<Rightarrow> kstate" where
  "cons_store c s = s\<lparr>cons_buf := (cons_buf s)(unat (cons_e s) mod INPUT_BUF_SIZE := word_of_int c),
                      cons_e := cons_e s + 1\<rparr>"

definition consoleintr :: "int \<Rightarrow> kstate \<Rightarrow> kstate result" where
  "consoleintr c s =
     rbind (acquire Lk_cons s) (\<lambda>s.
     rbind
       (if c = ctrl_P then procdump s
        else if c = ctrl_U then Inr (kill_line s)
        else if c = ctrl_H \<or> c = 0x7f then
          Inr (if cons_e s \<noteq> cons_w s
               then consputc BACKSPACE (s\<lparr>cons_e := cons_e s - 1\<rparr>) else s)
        else if c \<noteq> 0 \<and> unat (cons_e s - cons_r s) < INPUT_BUF_SIZE then
          let c = (if c = 13 then 10 else c); s = cons_store c (consputc c s) in
          if c = 10 \<or> c = ctrl_D \<or> unat (cons_e s - cons_r s) = INPUT_BUF_SIZE
          then wakeup Chan_cons (s\<lparr>cons_w := cons_e s\<rparr>)
          else Inr s
        else Inr s) (\<lambda>s.
     release Lk_cons s))"

text \<open>
  \<^verbatim>\<open>while(1) { c = uartgetc(); if(c == -1) break; consoleintr(c); }\<close>; the first argument bounds the
  rounds by the number of bytes received.
\<close>

primrec uart_rx_loop :: "nat \<Rightarrow> kstate \<Rightarrow> kstate result" where
  "uart_rx_loop 0 s = Inl Spinning"
| "uart_rx_loop (Suc k) s =
     (let (c, s) = uartgetc s in
      if c = -1 then Inr s else rbind (consoleintr c s) (\<lambda>s. uart_rx_loop k s))"

definition uartintr :: "bool \<Rightarrow> kstate \<Rightarrow> kstate result" where
  "uartintr idle s = rbind (uart_tx_intr idle s) (\<lambda>s. uart_rx_loop (Suc (length (uart_in s))) s)"

definition consoleinit :: "kstate \<Rightarrow> kstate" where
  "consoleinit s = s\<lparr>devsw_read := (devsw_read s)(1 := True), devsw_write := (devsw_write s)(1 := True)\<rparr>"

end
