(* ===== verification/Ring.thy ===== *)
theory Ring
  imports Prelude
begin

text \<open>
  Ring buffers: an array of \<open>n\<close> bytes with two 32-bit counters that only grow and wrap around,
  as the pipes and the console use them. When \<open>n\<close> divides the range of the counters, the buffer is
  a queue of at most \<open>n\<close> bytes. The locale \<open>bounded_queue\<close> is the interface of such a queue.
\<close>

subsection \<open>The bytes between two counters\<close>

definition ring :: "nat \<Rightarrow> bytes \<Rightarrow> u32 \<Rightarrow> u32 \<Rightarrow> byte list" where
  "ring n d r w = map (\<lambda>k. d (unat (r + of_nat k) mod n)) [0..<unat (w - r)]"

lemma length_ring [simp]: "length (ring n d r w) = unat (w - r)"
  by (simp add: ring_def)

lemma ring_empty [simp]: "ring n d r r = []"
  by (simp add: ring_def)

lemma ring_empty_iff: "ring n d r w = [] \<longleftrightarrow> w = r"
  by (metis length_0_conv length_ring right_minus_eq ring_empty unat_eq_0)

lemma unat_mod_range: "unat (of_nat k :: u32) mod n = k mod n" if "n dvd 2 ^ 32"
  using that by (simp add: unat_of_nat take_bit_eq_mod mod_mod_cancel)

lemma ring_index:
  assumes "n dvd 2 ^ 32"
  shows "unat (r + of_nat k :: u32) mod n = (unat r + k) mod n"
proof -
  have "r + of_nat k = of_nat (unat r + k)" by simp
  then show ?thesis using unat_mod_range [OF assms] by metis
qed

lemma mod_offset_neq:
  assumes "j < k" "k < j + n"
  shows "(a + j) mod n \<noteq> (a + k :: nat) mod n"
proof
  assume "(a + j) mod n = (a + k) mod n"
  then have "n dvd (a + k) - (a + j)" using assms(1) by (intro mod_eq_dvd_iff_nat [THEN iffD1]) auto
  then have "n dvd k - j" by simp
  then show False using assms by (auto dest: dvd_imp_le)
qed

lemma ring_end: "(w :: u32) = r + of_nat (unat (w - r))"
  by simp

lemma unat_next:
  assumes "unat (w - r :: u32) < n" "n < 2 ^ 32"
  shows "unat (w + 1 - r) = Suc (unat (w - r))"
proof -
  have e: "w + 1 - r = (w - r) + 1" by simp
  have "unat (w - r) + 1 < 2 ^ 32" using assms by linarith
  then show ?thesis unfolding e using unat_plus_if' [of "w - r" 1] by simp
qed

lemma unat_prev: "w \<noteq> r \<Longrightarrow> unat (w - r :: u32) = Suc (unat (w - 1 - r))"
proof -
  assume "w \<noteq> r"
  then have "w - r \<noteq> 0" by simp
  moreover from this have "unat (w - r) \<noteq> 0" by (simp only: unat_eq_0 not_False_eq_True)
  moreover have e: "w - 1 - r = w - r - 1" by simp
  ultimately show ?thesis unfolding e using unat_minus_one [of "w - r"] by linarith
qed

lemma ring_put:
  assumes n: "n dvd 2 ^ 32" "n < 2 ^ 32" and room: "unat (w - r) < n"
  shows "ring n (d(unat w mod n := c)) r (w + 1) = ring n d r w @ [c]"
proof -
  have "unat (r + of_nat k) mod n \<noteq> unat w mod n" if "k < unat (w - r)" for k
    using mod_offset_neq [of k "unat (w - r)" n "unat r"] that room ring_index [OF n(1), of r "unat (w - r)"]
    by (simp add: ring_index [OF n(1)])
  then show ?thesis by (simp add: ring_def unat_next [OF room n(2)])
qed

lemma ring_get:
  assumes "w \<noteq> r"
  shows "ring n d r w = d (unat r mod n) # ring n d (r + 1) w"
proof -
  have "unat (w - r) = Suc (unat (w - (r + 1)))" using unat_prev [OF assms] by (simp add: diff_diff_add add.commute)
  then show ?thesis by (simp add: ring_def upt_conv_Cons map_Suc_upt [symmetric] add.assoc del: upt_Suc)
qed

lemma ring_unput:
  assumes "w \<noteq> r"
  shows "ring n d r (w - 1) = butlast (ring n d r w)"
  using unat_prev [OF assms] by (simp add: ring_def)

lemma ring_append:
  assumes "unat (m - r) \<le> unat (w - r)"
  shows "ring n d r w = ring n d r m @ ring n d m w"
proof -
  let ?k = "unat (m - r)" and ?l = "unat (w - r)"
  have m: "m = r + of_nat ?k" by simp
  have "w - m = (w - r) - (m - r)" by simp
  then have l: "unat (w - m) = ?l - ?k" using assms by (simp only: unat_sub word_le_nat_alt)
  have "[0..<?l] = [0..<?k] @ [?k..<?l]" using assms by (metis le_iff_add upt_add_eq_append zero_le)
  moreover have "map (\<lambda>k. d (unat (r + of_nat k) mod n)) [?k..<?l] =
      map (\<lambda>k. d (unat (m + of_nat k) mod n)) [0..<?l - ?k]"
    using assms by (intro nth_equalityI) (simp_all add: add.assoc [symmetric])
  ultimately show ?thesis by (simp add: ring_def l)
qed

subsection \<open>Bounded queues\<close>

locale bounded_queue =
  fixes ok :: "'q \<Rightarrow> bool" and contents :: "'q \<Rightarrow> byte list" and cap :: nat
    and put :: "byte \<Rightarrow> 'q \<Rightarrow> 'q" and front :: "'q \<Rightarrow> byte" and get :: "'q \<Rightarrow> 'q"
    and full :: "'q \<Rightarrow> bool" and empty :: "'q \<Rightarrow> bool"
  assumes bound: "ok q \<Longrightarrow> length (contents q) \<le> cap"
    and full_iff: "ok q \<Longrightarrow> full q \<longleftrightarrow> length (contents q) = cap"
    and empty_iff: "ok q \<Longrightarrow> empty q \<longleftrightarrow> contents q = []"
    and put: "ok q \<Longrightarrow> length (contents q) < cap \<Longrightarrow> ok (put c q) \<and> contents (put c q) = contents q @ [c]"
    and get: "ok q \<Longrightarrow> contents q \<noteq> [] \<Longrightarrow> ok (get q) \<and> contents q = front q # contents (get q)"
begin

text \<open>The operations do not lose, duplicate or reorder bytes.\<close>

lemma put_get:
  assumes "ok q" "contents q = []" "0 < cap"
  shows "front (put c q) = c \<and> contents (get (put c q)) = []"
proof -
  have p: "ok (put c q)" "contents (put c q) = [c]" using put [of q c] assms by auto
  then show ?thesis using get [of "put c q"] by auto
qed

lemma not_full: "ok q \<Longrightarrow> \<not> full q \<Longrightarrow> length (contents q) < cap"
  using bound [of q] full_iff [of q] by simp

lemma get_tl: "ok q \<Longrightarrow> \<not> empty q \<Longrightarrow> ok (get q) \<and> contents (get q) = tl (contents q) \<and> front q = hd (contents q)"
  using get [of q] empty_iff [of q] by (metis list.sel(1,3))

end

end
