(* ===== verification/Vm_Map.thy ===== *)
theory Vm_Map
  imports Vm "HOL-Library.Sublist"
begin

text \<open>
  What a page table means: the tree of table pages in physical memory is read as a function from
  virtual addresses to page-table entries, and the operations of theory \<open>Vm\<close> are shown to act on
  that function. The invariant \<open>page_table\<close> says that the pages of the tree are distinct pages of
  the allocator that are not free.
\<close>

subsection \<open>Entries\<close>

lemma drop_mask_less: "unat (x AND 0x1FF :: u64) < 512"
proof -
  have "(x AND 0x1FF) = take_bit 9 x" by (simp add: take_bit_eq_mask mask_eq_exp_minus_1)
  then have "unat (x AND 0x1FF) = take_bit 9 (unat x)" by (simp add: unsigned_take_bit_eq)
  then show ?thesis using take_bit_nat_less_exp [of 9 "unat x"] by simp
qed

definition idx :: "nat \<Rightarrow> u64 \<Rightarrow> nat" where
  "idx l va = unat (PX l va)"

lemma idx_less [simp]: "idx l va < 512"
  by (simp add: idx_def PX_def drop_mask_less)

lemma aligned_bits: "unat (pa :: u64) mod 4096 = 0 \<Longrightarrow> n < 12 \<Longrightarrow> \<not> bit pa n"
proof -
  assume a: "unat pa mod 4096 = 0" and n: "n < 12"
  have "take_bit 12 (unat pa) = 0" using a by (simp add: take_bit_eq_mod)
  then have "unat (take_bit 12 pa) = 0" by (simp add: unsigned_take_bit_eq)
  then have "take_bit 12 pa = 0" by (simp add: unat_eq_zero)
  then have "\<not> bit (take_bit 12 pa) n" by simp
  with n show ?thesis by (simp add: bit_take_bit_iff)
qed

lemma small_bits: "unat (f :: u64) < 1024 \<Longrightarrow> 10 \<le> n \<Longrightarrow> \<not> bit f n"
proof -
  assume f: "unat f < 1024" and n: "10 \<le> n"
  have "take_bit 10 (unat f) = unat f" using f by (simp add: take_bit_nat_eq_self_iff)
  then have "unat (take_bit 10 f) = unat f" by (simp add: unsigned_take_bit_eq)
  then have "take_bit 10 f = f" by (simp add: word_unat_eq_iff)
  moreover have "\<not> bit (take_bit 10 f) n" using n by (simp add: bit_take_bit_iff)
  ultimately show ?thesis by simp
qed

lemma PTE2PA_make:
  assumes "unat pa mod 4096 = 0" "unat f < 1024"
  shows "PTE2PA (PA2PTE pa OR f) = pa"
proof (rule bit_word_eqI)
  fix n assume "n < LENGTH(64)"
  then show "bit (PTE2PA (PA2PTE pa OR f)) n = bit pa n"
    using aligned_bits [OF assms(1), of n] small_bits [OF assms(2), of "n - 2"]
    by (cases "n < 12") (auto simp: PTE2PA_def PA2PTE_def bit_push_bit_iff bit_drop_bit_eq bit_or_iff)
qed

lemma PTE_FLAGS_take_bit: "PTE_FLAGS pte = take_bit 10 pte"
  by (simp add: PTE_FLAGS_def take_bit_eq_mask mask_eq_exp_minus_1)

lemma PTE_FLAGS_make:
  assumes "unat f < 1024"
  shows "PTE_FLAGS (PA2PTE pa OR f) = f"
proof (rule bit_word_eqI)
  fix n assume "n < LENGTH(64)"
  then show "bit (PTE_FLAGS (PA2PTE pa OR f)) n = bit f n"
    using small_bits [OF assms, of n]
    by (cases "n < 10") (auto simp: PTE_FLAGS_take_bit PA2PTE_def bit_take_bit_iff bit_push_bit_iff
        bit_drop_bit_eq bit_or_iff)
qed

lemma flag_and_make: "unat (g :: u64) < 1024 \<Longrightarrow> (PA2PTE pa OR f) AND g = f AND g"
proof (rule bit_word_eqI)
  fix n assume g: "unat g < 1024" and "n < LENGTH(64)"
  then show "bit ((PA2PTE pa OR f) AND g) n = bit (f AND g) n"
    using small_bits [OF g, of n]
    by (cases "n < 10") (auto simp: PA2PTE_def bit_push_bit_iff bit_drop_bit_eq bit_or_iff bit_and_iff)
qed

lemma valid_make: "(PA2PTE pa OR f OR 1) AND 1 \<noteq> (0 :: u64)"
proof
  assume z: "(PA2PTE pa OR f OR 1) AND 1 = (0 :: u64)"
  have "bit ((PA2PTE pa OR f OR 1) AND 1 :: u64) 0" by (simp add: bit_or_iff bit_and_iff)
  then show False unfolding z by simp
qed

subsection \<open>The tree of table pages\<close>

definition entry :: "bytes \<Rightarrow> u64 \<Rightarrow> nat \<Rightarrow> u64" where
  "entry m p i = get64 m (unat p + 8 * i)"

definition child :: "bytes \<Rightarrow> u64 \<Rightarrow> nat \<Rightarrow> u64 option" where
  "child m p i = (if entry m p i AND 1 \<noteq> 0 then Some (PTE2PA (entry m p i)) else None)"

text \<open>The table page at a path of indices from the root.\<close>

primrec node :: "bytes \<Rightarrow> u64 \<Rightarrow> nat list \<Rightarrow> u64 option" where
  "node m p [] = Some p"
| "node m p (i # is) = (case child m p i of None \<Rightarrow> None | Some q \<Rightarrow> node m q is)"

lemma node_snoc:
  "node m p (is @ [i]) = (case node m p is of None \<Rightarrow> None | Some q \<Rightarrow> child m q i)"
  by (induction "is" arbitrary: p) (auto split: option.split)

lemma node_append_None: "node m p is = None \<Longrightarrow> node m p (is @ js) = None"
  by (induction "is" arbitrary: p) (auto split: option.splits)

declare node.simps(2) [simp del]

definition paths :: "nat list set" where
  "paths = {is. length is \<le> 2 \<and> set is \<subseteq> {..<512}}"

lemma paths_prefix: "is @ js \<in> paths \<Longrightarrow> is \<in> paths"
  by (auto simp: paths_def)

text \<open>The path to the last-level table for a virtual address.\<close>

definition upper :: "u64 \<Rightarrow> nat list" where
  "upper va = [idx 2 va, idx 1 va]"

text \<open>The last-level entry for a virtual address, 0 if there is no table for it.\<close>

definition leaf :: "bytes \<Rightarrow> u64 \<Rightarrow> u64 \<Rightarrow> u64" where
  "leaf m pt va = (case node m pt (upper va) of None \<Rightarrow> 0 | Some p \<Rightarrow> entry m p (idx 0 va))"

definition same_page :: "u64 \<Rightarrow> u64 \<Rightarrow> bool" where
  "same_page va va' \<longleftrightarrow> upper va = upper va' \<and> idx 0 va = idx 0 va'"

definition nodes :: "bytes \<Rightarrow> u64 \<Rightarrow> u64 set" where
  "nodes m pt = {a. \<exists>is\<in>paths. node m pt is = Some a}"

definition tree :: "bytes \<Rightarrow> u64 \<Rightarrow> bool" where
  "tree m pt \<longleftrightarrow> (\<forall>is\<in>paths. \<forall>js\<in>paths. \<forall>a. node m pt is = Some a \<longrightarrow> node m pt js = Some a \<longrightarrow> is = js)"

definition page_table :: "kstate \<Rightarrow> u64 \<Rightarrow> u64 list \<Rightarrow> bool" where
  "page_table s pt xs \<longleftrightarrow> free_list s xs \<and> Lk_kmem \<notin> set (held s) \<and> tree (mem s) pt \<and>
     (\<forall>a\<in>nodes (mem s) pt. good_page s a \<and> a \<notin> set xs)"

lemma page_tableD:
  assumes "page_table s pt xs"
  shows "free_list s xs" "Lk_kmem \<notin> set (held s)" "tree (mem s) pt"
    "a \<in> nodes (mem s) pt \<Longrightarrow> good_page s a" "a \<in> nodes (mem s) pt \<Longrightarrow> a \<notin> set xs"
  using assms by (auto simp: page_table_def)

lemma upper_path [simp]: "upper va \<in> paths"
  by (simp add: paths_def upper_def)

lemma length_upper [simp]: "length (upper va) = 2"
  by (simp add: upper_def)

lemma in_nodes: "node m pt is = Some a \<Longrightarrow> is \<in> paths \<Longrightarrow> a \<in> nodes m pt"
  by (auto simp: nodes_def)

lemma good_page_bound: "good_page s a \<Longrightarrow> unat a + 4096 \<le> 0x88000000 \<and> unat a mod 4096 = 0"
proof -
  assume "good_page s a"
  then have a: "unat a mod 4096 = 0" "unat a < 0x88000000"
    by (auto simp: good_page_def word_less_nat_alt)
  then obtain k where "unat a = 4096 * k" by (auto elim!: mod_eq_0_iff_dvd [THEN iffD1, THEN dvdE])
  with a show ?thesis by simp
qed

text \<open>Bytes of an entry, and of the entries of another page or at another index.\<close>

lemma entry_cong: "(\<And>b. unat p + 8 * i \<le> b \<Longrightarrow> b < unat p + 8 * i + 8 \<Longrightarrow> m' b = m b) \<Longrightarrow> entry m' p i = entry m p i"
  unfolding entry_def by (rule getw_cong) simp

lemma child_cong: "entry m' p i = entry m p i \<Longrightarrow> child m' p i = child m p i"
  by (simp add: child_def)

text \<open>
  A memory that differs from another one only in the entry \<open>k\<close> of the table \<open>a\<close>, as far as the
  pages of the tree are concerned.
\<close>

definition entry_changed :: "bytes \<Rightarrow> bytes \<Rightarrow> u64 \<Rightarrow> u64 \<Rightarrow> nat \<Rightarrow> bool" where
  "entry_changed m m' pt a k \<longleftrightarrow>
     (\<forall>p\<in>nodes m pt. \<forall>b\<in>page_bytes p. \<not> (unat a + 8 * k \<le> b \<and> b < unat a + 8 * k + 8) \<longrightarrow> m' b = m b)"

lemma entry_unchanged:
  assumes ch: "entry_changed m m' pt a k" and p: "p \<in> nodes m pt"
    and al: "unat p mod 4096 = 0" "unat a mod 4096 = 0" and i: "i < 512" "k < 512"
    and ne: "p \<noteq> a \<or> i \<noteq> k"
  shows "entry m' p i = entry m p i"
proof (rule entry_cong)
  fix b assume b: "unat p + 8 * i \<le> b" "b < unat p + 8 * i + 8"
  have "\<not> (unat a + 8 * k \<le> b \<and> b < unat a + 8 * k + 8)"
  proof (cases "p = a")
    case True
    with ne have "i < k \<or> k < i" by auto
    with b True show ?thesis by auto
  next
    case False
    then have "unat p + 4096 \<le> unat a \<or> unat a + 4096 \<le> unat p" by (intro pages_apart al)
    with b i show ?thesis by linarith
  qed
  moreover have "b \<in> page_bytes p" using b i by (auto simp: page_bytes_def)
  ultimately show "m' b = m b" using ch p by (auto simp: entry_changed_def)
qed

lemma node_unchanged:
  assumes ch: "entry_changed m m' pt a k" and tr: "tree m pt" and k: "k < 512"
    and al: "\<And>p. p \<in> nodes m pt \<Longrightarrow> unat p mod 4096 = 0"
    and ps: "ps \<in> paths" "node m pt ps = Some a"
  shows "is \<in> paths \<Longrightarrow> \<not> prefix (ps @ [k]) is \<Longrightarrow> node m' pt is = node m pt is"
proof (induction "is" rule: rev_induct)
  case (snoc i "is")
  have "is": "is \<in> paths" and i: "i < 512" using snoc.prems by (auto simp: paths_def)
  have "\<not> prefix (ps @ [k]) is" using snoc.prems(2) prefix_prefix by blast
  with snoc.IH "is" have IH: "node m' pt is = node m pt is" by blast
  show ?case
  proof (cases "node m pt is")
    case None
    then show ?thesis by (simp add: node_snoc IH)
  next
    case (Some q)
    then have q: "q \<in> nodes m pt" using "is" by (rule in_nodes)
    have ne: "q \<noteq> a \<or> i \<noteq> k"
    proof (rule ccontr)
      assume "\<not> (q \<noteq> a \<or> i \<noteq> k)"
      then have qa: "q = a" "i = k" by auto
      with tr Some ps "is" have "is = ps" unfolding tree_def by blast
      with qa snoc.prems(2) show False by simp
    qed
    have a: "a \<in> nodes m pt" using ps(2,1) by (rule in_nodes)
    have "child m' q i = child m q i"
      by (rule child_cong, rule entry_unchanged [OF ch q al [OF q] al [OF a] i k ne])
    then show ?thesis by (simp add: node_snoc IH Some)
  qed
qed simp

text \<open>Writing an entry of the last level changes no table, and one entry.\<close>

lemma leaf_changed:
  assumes ch: "entry_changed m m' pt a (idx 0 va)" and tr: "tree m pt"
    and al: "\<And>p. p \<in> nodes m pt \<Longrightarrow> unat p mod 4096 = 0"
    and a: "node m pt (upper va) = Some a" and v: "entry m' a (idx 0 va) = v"
  shows "is \<in> paths \<Longrightarrow> node m' pt is = node m pt is"
    and "leaf m' pt va' = (if same_page va' va then v else leaf m pt va')"
proof -
  have np: "\<not> prefix ((upper va) @ [idx 0 va]) is" if "is \<in> paths" for "is"
    using that by (auto simp: paths_def dest: prefix_length_le)
  show n: "node m' pt is = node m pt is" if "is \<in> paths" for "is"
    by (rule node_unchanged [OF ch tr idx_less al upper_path a that np [OF that]])
  show "leaf m' pt va' = (if same_page va' va then v else leaf m pt va')"
  proof (cases "node m pt (upper va')")
    case None
    with a have "\<not> same_page va' va" by (auto simp: same_page_def)
    then show ?thesis using None by (simp add: leaf_def n)
  next
    case (Some q)
    have q: "q \<in> nodes m pt" "a \<in> nodes m pt"
      by (rule in_nodes [OF Some upper_path], rule in_nodes [OF a upper_path])
    show ?thesis
    proof (cases "same_page va' va")
      case True
      then show ?thesis using Some a v by (simp add: leaf_def n same_page_def)
    next
      case False
      have "q \<noteq> a \<or> idx 0 va' \<noteq> idx 0 va"
      proof (rule ccontr)
        assume h: "\<not> (q \<noteq> a \<or> idx 0 va' \<noteq> idx 0 va)"
        with tr Some a upper_path [of va'] upper_path [of va]
        have "upper va' = upper va" unfolding tree_def by blast
        with h False show False by (simp add: same_page_def)
      qed
      then have "entry m' q (idx 0 va') = entry m q (idx 0 va')"
        by (rule entry_unchanged [OF ch q(1) al [OF q(1)] al [OF q(2)] idx_less idx_less])
      with False Some show ?thesis by (simp add: leaf_def n)
    qed
  qed
qed

text \<open>
  Hanging a zeroed page under an entry that was not valid adds one table and changes no entry of
  the last level.
\<close>

lemma entry_zero: "\<forall>b\<in>page_bytes p. m b = 0 \<Longrightarrow> i < 512 \<Longrightarrow> entry m p i = 0"
proof -
  assume z: "\<forall>b\<in>page_bytes p. m b = 0" and i: "i < 512"
  have "\<forall>b\<in>set (map m [unat p + 8 * i..<unat p + 8 * i + 8]). b = 0"
    using z i by (auto simp: page_bytes_def)
  then show ?thesis unfolding entry_def getw_def by (rule le_word_zeros)
qed

lemma child_zero: "\<forall>b\<in>page_bytes p. m b = 0 \<Longrightarrow> i < 512 \<Longrightarrow> child m p i = None"
  by (simp add: child_def entry_zero)

lemma table_added:
  assumes ch: "entry_changed m m' pt a k" and tr: "tree m pt" and k: "k < 512"
    and al: "\<And>p. p \<in> nodes m pt \<Longrightarrow> unat p mod 4096 = 0"
    and ps: "ps \<in> paths" "node m pt ps = Some a" "ps @ [k] \<in> paths"
    and none: "child m a k = None" and some: "child m' a k = Some x"
    and x: "\<forall>b\<in>page_bytes x. m' b = 0"
  shows "is \<in> paths \<Longrightarrow> node m' pt is = (if is = ps @ [k] then Some x else node m pt is)"
proof -
  have pk: "\<not> prefix (ps @ [k]) ps" by (auto dest: prefix_length_le)
  have a': "node m' pt ps = Some a"
    using node_unchanged [OF ch tr k al ps(1,2) ps(1) pk] ps(2) by simp
  have here: "node m' pt (ps @ [k]) = Some x" "node m pt (ps @ [k]) = None"
    using a' ps(2) none some by (simp_all add: node_snoc)
  have below: "node m' pt is = None \<and> node m pt is = None"
    if "is": "is \<in> paths" and pre: "prefix (ps @ [k]) is" and ne: "is \<noteq> ps @ [k]" for "is"
  proof -
    from pre ne obtain i rest where e: "is = ps @ [k] @ i # rest"
      by (metis append.assoc append_Nil2 neq_Nil_conv prefix_def)
    with "is" have i: "i < 512" by (auto simp: paths_def)
    have "node m p (ps @ [k] @ i # rest) = None" if "node m p ((ps @ [k]) @ [i]) = None" for m p
      using that by (induction ps arbitrary: p) (auto simp: node.simps(2) split: option.splits)
    moreover have "node m' pt ((ps @ [k]) @ [i]) = None"
      unfolding node_snoc [of _ _ "ps @ [k]"] here using child_zero [OF x i] by simp
    moreover have "node m pt ((ps @ [k]) @ [i]) = None"
      unfolding node_snoc [of _ _ "ps @ [k]"] here by simp
    ultimately show ?thesis unfolding e by blast
  qed
  show "is \<in> paths \<Longrightarrow> node m' pt is = (if is = ps @ [k] then Some x else node m pt is)"
    using here below node_unchanged [OF ch tr k al ps(1,2)] by (cases "prefix (ps @ [k]) is") auto
qed

subsection \<open>Walking and growing the tree\<close>

lemma unat_pte_addr: "good_page s p \<Longrightarrow> unat (pte_addr p l va) = unat p + 8 * idx l va"
proof -
  assume "good_page s p"
  then have b: "unat p + 4096 \<le> 0x88000000" by (simp add: good_page_bound)
  have i: "unat (PX l va) < 512" using idx_less [of l va] by (simp add: idx_def)
  then have "unat (8 * PX l va) = 8 * unat (PX l va)" by (simp add: unat_word_ariths)
  with b i show ?thesis by (simp add: pte_addr_def unat_plus_if' idx_def)
qed

lemma load64_pte: "good_page s p \<Longrightarrow> load64 (pte_addr p l va) s = entry (mem s) p (idx l va)"
  by (simp add: load64_def entry_def unat_pte_addr)

lemma pte_addr_nonzero: "good_page s p \<Longrightarrow> pte_addr p l va \<noteq> 0"
proof
  assume g: "good_page s p" and z: "pte_addr p l va = 0"
  have "unat p = 0" using unat_pte_addr [OF g, of l va] z by simp
  with g show False by (simp add: good_page_def unat_eq_zero)
qed

lemma chain_cong_pages:
  "(\<And>x b. x \<in> set xs \<Longrightarrow> b \<in> page_bytes x \<Longrightarrow> m' b = m b) \<Longrightarrow> chain m' p xs = chain m p xs"
proof (induction xs arbitrary: p)
  case (Cons x xs)
  have "get64 m' (unat x) = get64 m (unat x)"
    by (rule getw_cong) (use Cons.prems [of x] in \<open>auto simp: page_bytes_def\<close>)
  moreover have "chain m' q xs = chain m q xs" for q
    by (rule Cons.IH, rule Cons.prems) auto
  ultimately show ?case by simp
qed simp

lemma free_list_cong_pages:
  assumes "free_list s xs" "freelist s' = freelist s" "kend s' = kend s"
    and "\<And>x b. x \<in> set xs \<Longrightarrow> b \<in> page_bytes x \<Longrightarrow> mem s' b = mem s b"
  shows "free_list s' xs"
  using assms chain_cong_pages [of xs "mem s'" "mem s"] by (simp add: free_list_def good_page_def)

lemma page_disjoint:
  "unat x mod 4096 = 0 \<Longrightarrow> unat y mod 4096 = 0 \<Longrightarrow> x \<noteq> y \<Longrightarrow> b \<in> page_bytes x \<Longrightarrow> b \<notin> page_bytes y"
  using pages_apart [of x y] by (auto simp: page_bytes_def)

lemma good_page_disjoint:
  "good_page s x \<Longrightarrow> good_page s y \<Longrightarrow> x \<noteq> y \<Longrightarrow> b \<in> page_bytes x \<Longrightarrow> b \<notin> page_bytes y"
  by (rule page_disjoint) (simp_all add: good_page_def)

text \<open>
  An operation that may have taken pages from the free list for tables: the entries of the last
  level are now \<open>g\<close>, no page is lost, and only table pages and free pages were written. \<open>grown\<close> is
  the case that no entry of the last level changed.
\<close>

definition updated :: "u64 \<Rightarrow> u64 list \<Rightarrow> u64 list \<Rightarrow> (u64 \<Rightarrow> u64) \<Rightarrow> kstate \<Rightarrow> kstate \<Rightarrow> bool" where
  "updated pt xs xs' g s s' \<longleftrightarrow>
     page_table s' pt xs' \<and> suffix xs' xs \<and>
     (\<forall>va. leaf (mem s') pt va = g va) \<and>
     s' = s\<lparr>mem := mem s', freelist := freelist s'\<rparr> \<and>
     nodes (mem s') pt \<union> set xs' = nodes (mem s) pt \<union> set xs \<and>
     (\<forall>b. (\<forall>a\<in>nodes (mem s) pt \<union> set xs. b \<notin> page_bytes a) \<longrightarrow> mem s' b = mem s b)"

abbreviation grown :: "u64 \<Rightarrow> u64 list \<Rightarrow> u64 list \<Rightarrow> kstate \<Rightarrow> kstate \<Rightarrow> bool" where
  "grown pt xs xs' s s' \<equiv> updated pt xs xs' (leaf (mem s) pt) s s'"

lemma grown_refl: "page_table s pt xs \<Longrightarrow> grown pt xs xs s s"
  by (simp add: updated_def)

lemma updated_leaf: "updated pt xs xs' g s s' \<Longrightarrow> leaf (mem s') pt = g"
  by (simp add: updated_def fun_eq_iff)

lemma updated_table: "updated pt xs xs' g s s' \<Longrightarrow> page_table s' pt xs'"
  by (simp add: updated_def)

lemma updated_trans:
  assumes a: "updated pt xs ys g s t" and b: "updated pt ys zs h t u"
  shows "updated pt xs zs h s u"
  unfolding updated_def
proof (intro conjI allI impI)
  show "page_table u pt zs" "suffix zs xs"
    using a b by (auto simp: updated_def dest: suffix_order.trans)
  show "nodes (mem u) pt \<union> set zs = nodes (mem s) pt \<union> set xs" using a b by (simp add: updated_def)
  show "leaf (mem u) pt va = h va" for va using b by (simp add: updated_def)
  obtain mt ft where t: "t = s\<lparr>mem := mt, freelist := ft\<rparr>" using a by (auto simp: updated_def)
  obtain mu fu where "u = t\<lparr>mem := mu, freelist := fu\<rparr>" using b by (auto simp: updated_def)
  then show "u = s\<lparr>mem := mem u, freelist := freelist u\<rparr>" by (simp add: t)
  show "mem u c = mem s c" if "\<forall>a\<in>nodes (mem s) pt \<union> set xs. c \<notin> page_bytes a" for c
    using a b that by (simp add: updated_def)
qed

lemma grown_trans:
  assumes "grown pt xs ys s t" "grown pt ys zs t u"
  shows "grown pt xs zs s u"
  using updated_trans [OF assms] unfolding updated_leaf [OF assms(1)] .

lemma hung_memory:
  assumes pt: "page_table s pt (x # xs)" and ps: "ps @ [k] \<in> paths" "node (mem s) pt ps = Some a"
    and none: "child (mem s) a k = None"
    and m': "m' = put64 (fill (fill (mem s) (unat x) 5 4096) (unat x) 0 4096) (unat a + 8 * k) (PA2PTE x OR 1)"
  shows "entry_changed (mem s) m' pt a k" "child m' a k = Some x" "\<forall>b\<in>page_bytes x. m' b = 0"
    "\<And>b. b \<notin> page_bytes x \<Longrightarrow> b \<notin> page_bytes a \<Longrightarrow> m' b = mem s b" "x \<notin> nodes (mem s) pt"
proof -
  have k: "k < 512" using ps(1) by (auto simp: paths_def)
  have a: "a \<in> nodes (mem s) pt" using in_nodes [OF ps(2) paths_prefix [OF ps(1)]] .
  note good = page_tableD(4) [OF pt]
  show x: "x \<notin> nodes (mem s) pt" using page_tableD(5) [OF pt, of x] by auto
  have alx: "unat x mod 4096 = 0" using page_tableD(1) [OF pt] by (auto simp: free_list_def good_page_def)
  have al: "unat p mod 4096 = 0" if "p \<in> nodes (mem s) pt" for p
    using good [OF that] by (simp add: good_page_def)
  have bytes: "b \<in> page_bytes a" if "unat a + 8 * k \<le> b" "b < unat a + 8 * k + 8" for b
    using that k by (auto simp: page_bytes_def)
  have ax: "a \<noteq> x" using a x by auto
  show "entry_changed (mem s) m' pt a k"
    unfolding entry_changed_def
  proof (intro ballI impI)
    fix p b assume p: "p \<in> nodes (mem s) pt" and b: "b \<in> page_bytes p"
      and nb: "\<not> (unat a + 8 * k \<le> b \<and> b < unat a + 8 * k + 8)"
    have "b \<notin> page_bytes x" using page_disjoint [OF al [OF p] alx _ b] p x by auto
    then show "m' b = mem s b" using nb by (auto simp: m' putw_def fill_def page_bytes_def)
  qed
  have "entry m' a k = PA2PTE x OR 1" by (simp add: m' entry_def)
  then show "child m' a k = Some x"
    using PTE2PA_make [OF alx, of 1] valid_make [of x 0] by (simp add: child_def)
  show "\<forall>b\<in>page_bytes x. m' b = 0"
  proof
    fix b assume b: "b \<in> page_bytes x"
    then have "b \<notin> page_bytes a" using page_disjoint [OF alx al [OF a]] ax by auto
    then show "m' b = 0" using b bytes by (auto simp: m' putw_def fill_def page_bytes_def)
  qed
  show "m' b = mem s b" if "b \<notin> page_bytes x" "b \<notin> page_bytes a" for b
    using that bytes by (auto simp: m' putw_def fill_def page_bytes_def)
qed

lemma table_aligned: "page_table s pt xs \<Longrightarrow> p \<in> nodes (mem s) pt \<Longrightarrow> unat p mod 4096 = 0"
  by (auto dest: page_tableD(4) simp: good_page_def)

lemma hung_node:
  assumes pt: "page_table s pt (x # xs)" and ps: "ps @ [k] \<in> paths" "node (mem s) pt ps = Some a"
    and none: "child (mem s) a k = None"
    and m': "m' = put64 (fill (fill (mem s) (unat x) 5 4096) (unat x) 0 4096) (unat a + 8 * k) (PA2PTE x OR 1)"
  shows "is \<in> paths \<Longrightarrow> node m' pt is = (if is = ps @ [k] then Some x else node (mem s) pt is)"
    and "node (mem s) pt (ps @ [k]) = None"
proof -
  note hm = hung_memory [OF pt ps none m']
  have k: "k < 512" using ps(1) by (auto simp: paths_def)
  show "is \<in> paths \<Longrightarrow> node m' pt is = (if is = ps @ [k] then Some x else node (mem s) pt is)"
    by (rule table_added [OF hm(1) page_tableD(3) [OF pt] k table_aligned [OF pt]
          paths_prefix [OF ps(1)] ps(2,1) none hm(2,3)])
  show "node (mem s) pt (ps @ [k]) = None" using ps(2) none by (simp add: node_snoc)
qed

lemma hung_nodes:
  assumes pt: "page_table s pt (x # xs)" and ps: "ps @ [k] \<in> paths" "node (mem s) pt ps = Some a"
    and none: "child (mem s) a k = None"
    and m': "m' = put64 (fill (fill (mem s) (unat x) 5 4096) (unat x) 0 4096) (unat a + 8 * k) (PA2PTE x OR 1)"
  shows "nodes m' pt = insert x (nodes (mem s) pt)" "tree m' pt"
proof -
  note node' = hung_node(1) [OF pt ps none m'] and old = hung_node(2) [OF pt ps none m']
  note x = hung_memory(5) [OF pt ps none m']
  show "nodes m' pt = insert x (nodes (mem s) pt)"
  proof (rule set_eqI, rule iffI)
    fix b assume "b \<in> nodes m' pt"
    then obtain "is" where "is": "is \<in> paths" "node m' pt is = Some b" by (auto simp: nodes_def)
    then show "b \<in> insert x (nodes (mem s) pt)"
      using node' [OF "is"(1)] by (cases "is = ps @ [k]") (auto simp: nodes_def)
  next
    fix b assume "b \<in> insert x (nodes (mem s) pt)"
    then consider "b = x" | "is" where "is \<in> paths" "node (mem s) pt is = Some b"
      by (auto simp: nodes_def)
    then show "b \<in> nodes m' pt"
    proof cases
      case 1
      then show ?thesis using node' [OF ps(1)] ps(1) by (auto intro: in_nodes)
    next
      case (2 "is")
      with old have "is \<noteq> ps @ [k]" by auto
      with 2 node' [OF 2(1)] show ?thesis by (auto intro: in_nodes)
    qed
  qed
  show "tree m' pt"
    unfolding tree_def
  proof (intro ballI allI impI)
    fix "is" js b
    assume p: "is \<in> paths" "js \<in> paths" and n: "node m' pt is = Some b" "node m' pt js = Some b"
    have nx: "b \<noteq> x" if "q \<in> paths" "node (mem s) pt q = Some b" for q
      using in_nodes [OF that(2,1)] x by auto
    show "is = js"
    proof (cases "is = ps @ [k] \<or> js = ps @ [k]")
      case True
      then show ?thesis using p n node' [OF p(1)] node' [OF p(2)] nx by (auto split: if_splits)
    next
      case False
      then show ?thesis
        using p n node' [OF p(1)] node' [OF p(2)] page_tableD(3) [OF pt] by (simp add: tree_def)
    qed
  qed
qed

lemma hung_leaf:
  assumes pt: "page_table s pt (x # xs)" and ps: "ps @ [k] \<in> paths" "node (mem s) pt ps = Some a"
    and none: "child (mem s) a k = None"
    and m': "m' = put64 (fill (fill (mem s) (unat x) 5 4096) (unat x) 0 4096) (unat a + 8 * k) (PA2PTE x OR 1)"
  shows "leaf m' pt va = leaf (mem s) pt va"
proof (cases "upper va = ps @ [k]")
  case True
  note hn = hung_node [OF pt ps none m']
  show ?thesis
    using True hn(1) [OF ps(1)] hn(2) entry_zero [OF hung_memory(3) [OF pt ps none m'] idx_less]
    by (simp add: leaf_def)
next
  case False
  then have n: "node m' pt (upper va) = node (mem s) pt (upper va)"
    using hung_node(1) [OF pt ps none m', of "upper va"] by simp
  show ?thesis
  proof (cases "node (mem s) pt (upper va)")
    case (Some q)
    have q: "q \<in> nodes (mem s) pt" using in_nodes [OF Some] by simp
    have a: "a \<in> nodes (mem s) pt" using in_nodes [OF ps(2) paths_prefix [OF ps(1)]] .
    have k: "k < 512" using ps(1) by (auto simp: paths_def)
    have "q \<noteq> a"
    proof
      assume "q = a"
      then have "upper va = ps"
        using page_tableD(3) [OF pt] Some ps(2) paths_prefix [OF ps(1)] upper_path [of va]
        unfolding tree_def by blast
      then show False using ps(1) length_upper [of va] by (simp add: paths_def)
    qed
    then have "entry m' q (idx 0 va) = entry (mem s) q (idx 0 va)"
      using entry_unchanged [OF hung_memory(1) [OF pt ps none m'] q table_aligned [OF pt q]
          table_aligned [OF pt a] idx_less k] by simp
    then show ?thesis using n Some by (simp add: leaf_def)
  qed (simp add: leaf_def n)
qed

lemma hang_table:
  assumes pt: "page_table s pt (x # xs)" and ps: "ps @ [k] \<in> paths" "node (mem s) pt ps = Some a"
    and none: "child (mem s) a k = None"
    and m': "m' = put64 (fill (fill (mem s) (unat x) 5 4096) (unat x) 0 4096) (unat a + 8 * k) (PA2PTE x OR 1)"
    and fl: "free_list (s\<lparr>mem := fill (mem s) (unat x) 5 4096, freelist := f\<rparr>) xs"
  shows "grown pt (x # xs) xs s (s\<lparr>mem := m', freelist := f\<rparr>)" "node m' pt (ps @ [k]) = Some x"
proof -
  let ?s' = "s\<lparr>mem := m', freelist := f\<rparr>"
  note hm = hung_memory [OF pt ps none m'] and hn = hung_nodes [OF pt ps none m']
  show "node m' pt (ps @ [k]) = Some x" using hung_node(1) [OF pt ps none m' ps(1)] by simp
  have a: "a \<in> nodes (mem s) pt" using in_nodes [OF ps(2) paths_prefix [OF ps(1)]] .
  have gx: "good_page s x" "x \<notin> set xs" and gxs: "\<And>y. y \<in> set xs \<Longrightarrow> good_page s y"
    using page_tableD(1) [OF pt] by (auto simp: free_list_def)
  have apart: "m' b = fill (mem s) (unat x) 5 4096 b" if y: "y \<in> set xs" and b: "b \<in> page_bytes y" for y b
  proof -
    have "b \<notin> page_bytes x"
      by (rule good_page_disjoint [OF gxs [OF y] gx(1) _ b]) (use y gx(2) in auto)
    moreover have "b \<notin> page_bytes a"
      by (rule good_page_disjoint [OF gxs [OF y] page_tableD(4) [OF pt a] _ b])
        (use y page_tableD(5) [OF pt a] in auto)
    ultimately show ?thesis using hm(4) [of b] by (auto simp: fill_def page_bytes_def)
  qed
  have "page_table ?s' pt xs"
    unfolding page_table_def
  proof (intro conjI ballI)
    show "free_list ?s' xs" by (rule free_list_cong_pages [OF fl]) (simp_all add: apart)
    fix b assume "b \<in> nodes (mem ?s') pt"
    then have b: "b = x \<or> b \<in> nodes (mem s) pt" by (simp add: hn)
    then show "good_page ?s' b" "b \<notin> set xs"
      using gx page_tableD(4,5) [OF pt, of b] by (auto simp: good_page_def)
  qed (use page_tableD(2) [OF pt] hn in simp_all)
  then show "grown pt (x # xs) xs s ?s'"
    using hn hung_leaf [OF pt ps none m'] hm(4) a by (simp add: updated_def suffix_Cons)
qed

lemma mem_freelist: "s\<lparr>freelist := f, mem := m\<rparr> = s\<lparr>mem := m, freelist := f\<rparr>"
  by (rule kstate.equality) simp_all

lemma take_upper: "l < 2 \<Longrightarrow> take (Suc (1 - l)) (upper va) = take (1 - l) (upper va) @ [idx (Suc l) va]"
proof -
  assume "l < 2"
  then have "l = 0 \<or> l = 1" by auto
  then show ?thesis by (auto simp: upper_def numeral_2_eq_2)
qed

lemma walk_loop_alloc:
  assumes "page_table s pt xs" "node (mem s) pt (take (2 - l) (upper va)) = Some p" "l \<le> 2"
  shows "\<exists>a s' xs'. walk_loop l p va True s = Inr (a, s') \<and> grown pt xs xs' s s' \<and>
    (a = 0 \<and> xs' = [] \<or> (\<exists>q. node (mem s') pt (upper va) = Some q \<and> a = pte_addr q 0 va))"
  using assms
proof (induction l arbitrary: p s xs)
  case 0
  then have "node (mem s) pt (upper va) = Some p" by simp
  then show ?case using grown_refl [OF 0(1)] by auto
next
  case (Suc l)
  let ?ps = "take (1 - l) (upper va)" and ?k = "idx (Suc l) va"
  have l: "l < 2" "2 - l = Suc (1 - l)" "2 - Suc l = 1 - l" using Suc.prems(3) by auto
  have tk: "take (2 - l) (upper va) = ?ps @ [?k]" unfolding l(2) by (rule take_upper [OF l(1)])
  have pk: "?ps @ [?k] \<in> paths"
    unfolding tk [symmetric] paths_def using set_take_subset [of "2 - l" "upper va"]
    by (auto simp: upper_def)
  have p: "node (mem s) pt ?ps = Some p" using Suc.prems(2) l(3) by simp
  have gp: "good_page s p" using page_tableD(4) [OF Suc.prems(1) in_nodes [OF p paths_prefix [OF pk]]] .
  note ld = load64_pte [OF gp, of "Suc l" va]
  show ?case
  proof (cases "child (mem s) p ?k")
    case (Some q)
    then have "entry (mem s) p ?k AND 1 \<noteq> 0" "PTE2PA (entry (mem s) p ?k) = q"
      by (auto simp: child_def split: if_splits)
    then have w: "walk_loop (Suc l) p va True s = walk_loop l q va True s" by (simp add: ld)
    have "node (mem s) pt (take (2 - l) (upper va)) = Some q" unfolding tk using p Some by (simp add: node_snoc)
    from Suc.IH [OF Suc.prems(1) this] l(1) show ?thesis unfolding w by simp
  next
    case None
    then have e: "entry (mem s) p ?k AND 1 = 0" by (auto simp: child_def split: if_splits)
    show ?thesis
    proof (cases xs)
      case Nil
      have "kalloc s = Inr (0, s)" using page_tableD(1,2) [OF Suc.prems(1)] Nil by (intro kalloc_empty) simp_all
      then have "walk_loop (Suc l) p va True s = Inr (0, s)" by (simp add: ld e)
      then show ?thesis using grown_refl [OF Suc.prems(1)] Nil by auto
    next
      case (Cons x ys)
      note pt = Suc.prems(1) [unfolded Cons]
      obtain f where ka: "kalloc s = Inr (x, s\<lparr>mem := fill (mem s) (unat x) 5 PGSIZE, freelist := f\<rparr>)"
        and fl: "free_list (s\<lparr>mem := fill (mem s) (unat x) 5 PGSIZE, freelist := f\<rparr>) ys"
        using kalloc_page [OF page_tableD(1,2) [OF pt]] .
      define m' where "m' = put64 (fill (fill (mem s) (unat x) 5 4096) (unat x) 0 4096) (unat p + 8 * ?k) (PA2PTE x OR 1)"
      let ?s' = "s\<lparr>mem := m', freelist := f\<rparr>"
      note ht = hang_table [OF pt pk p None m'_def fl]
      have x0: "x \<noteq> 0" using page_tableD(1) [OF pt] by (auto simp: free_list_def)
      have w: "walk_loop (Suc l) p va True s = walk_loop l x va True ?s'"
        by (simp add: ld e ka x0 store64_def zero_page_def memset_eq_fill m'_def unat_pte_addr [OF gp]
            mem_freelist)
      have "page_table ?s' pt ys" using ht(1) by (simp add: updated_def)
      moreover have "node (mem ?s') pt (take (2 - l) (upper va)) = Some x" unfolding tk using ht(2) by simp
      ultimately obtain a s' xs' where r: "walk_loop l x va True ?s' = Inr (a, s')" "grown pt ys xs' ?s' s'"
        "a = 0 \<and> xs' = [] \<or> (\<exists>q. node (mem s') pt (upper va) = Some q \<and> a = pte_addr q 0 va)"
        using Suc.IH [of ?s' ys x] l(1) by auto
      then show ?thesis using grown_trans [OF ht(1) r(2)] unfolding w Cons by blast
    qed
  qed
qed

lemma walk_alloc:
  assumes "page_table s pt xs" "va < MAXVA"
  obtains (full) s' where "walk pt va True s = Inr (0, s')" "grown pt xs [] s s'"
  | (found) q s' xs' where "walk pt va True s = Inr (pte_addr q 0 va, s')" "grown pt xs xs' s s'"
      "node (mem s') pt (upper va) = Some q" "pte_addr q 0 va \<noteq> 0"
proof -
  obtain a s' xs' where w: "walk_loop 2 pt va True s = Inr (a, s')" and g: "grown pt xs xs' s s'"
    and r: "a = 0 \<and> xs' = [] \<or> (\<exists>q. node (mem s') pt (upper va) = Some q \<and> a = pte_addr q 0 va)"
    using walk_loop_alloc [OF assms(1), of 2 va pt] by auto
  have w': "walk pt va True s = Inr (a, s')" using w assms(2) by (simp add: walk_def)
  from r show ?thesis
  proof (elim disjE exE conjE)
    assume "a = 0" "xs' = []"
    then show ?thesis using full w' g by blast
  next
    fix q assume q: "node (mem s') pt (upper va) = Some q" "a = pte_addr q 0 va"
    have "page_table s' pt xs'" using g by (simp add: updated_def)
    then have "good_page s' q" using page_tableD(4) in_nodes [OF q(1)] by simp
    then show ?thesis using found w' g q pte_addr_nonzero by blast
  qed
qed

text \<open>Without allocation, \<^verbatim>\<open>walk\<close> does not change the state.\<close>

lemma walk_loop_noalloc:
  assumes "page_table s pt xs" "node (mem s) pt (take (2 - l) (upper va)) = Some p" "l \<le> 2"
  shows "walk_loop l p va False s =
    Inr (case node (mem s) pt (upper va) of None \<Rightarrow> 0 | Some q \<Rightarrow> pte_addr q 0 va, s)"
  using assms(2,3)
proof (induction l arbitrary: p)
  case 0
  then show ?case by simp
next
  case (Suc l)
  let ?ps = "take (1 - l) (upper va)" and ?k = "idx (Suc l) va"
  have l: "l < 2" "2 - l = Suc (1 - l)" "2 - Suc l = 1 - l" using Suc.prems(2) by auto
  have tk: "take (2 - l) (upper va) = ?ps @ [?k]" unfolding l(2) by (rule take_upper [OF l(1)])
  have pp: "?ps \<in> paths"
    unfolding paths_def using set_take_subset [of "1 - l" "upper va"] by (auto simp: upper_def)
  have p: "node (mem s) pt ?ps = Some p" using Suc.prems(1) l(3) by simp
  have gp: "good_page s p" using page_tableD(4) [OF assms(1) in_nodes [OF p pp]] .
  note ld = load64_pte [OF gp, of "Suc l" va]
  have n: "node (mem s) pt (take (2 - l) (upper va)) = child (mem s) p ?k"
    unfolding tk using p by (simp add: node_snoc)
  show ?case
  proof (cases "child (mem s) p ?k")
    case (Some q)
    then have "entry (mem s) p ?k AND 1 \<noteq> 0" "PTE2PA (entry (mem s) p ?k) = q"
      by (auto simp: child_def split: if_splits)
    then have "walk_loop (Suc l) p va False s = walk_loop l q va False s" by (simp add: ld)
    also have "\<dots> = Inr (case node (mem s) pt (upper va) of None \<Rightarrow> 0 | Some q \<Rightarrow> pte_addr q 0 va, s)"
      by (rule Suc.IH) (use n Some l in simp_all)
    finally show ?thesis .
  next
    case None
    have "node (mem s) pt (take (2 - l) (upper va) @ drop (2 - l) (upper va)) = None"
      by (rule node_append_None, unfold n, rule None)
    then have "node (mem s) pt (upper va) = None" by simp
    moreover have "entry (mem s) p ?k AND 1 = 0" using None by (auto simp: child_def split: if_splits)
    ultimately show ?thesis by (simp add: ld)
  qed
qed

lemma walk_noalloc:
  assumes "page_table s pt xs" "va < MAXVA"
  shows "walk pt va False s =
    Inr (case node (mem s) pt (upper va) of None \<Rightarrow> 0 | Some q \<Rightarrow> pte_addr q 0 va, s)"
  using walk_loop_noalloc [OF assms(1), of 2 va pt] assms(2) by (simp add: walk_def)

lemma load_leaf:
  assumes "page_table s pt xs" "node (mem s) pt (upper va) = Some q"
  shows "load64 (pte_addr q 0 va) s = leaf (mem s) pt va" "pte_addr q 0 va \<noteq> 0" "good_page s q"
proof -
  show g: "good_page s q" using page_tableD(4) [OF assms(1) in_nodes [OF assms(2)]] by simp
  show "load64 (pte_addr q 0 va) s = leaf (mem s) pt va" by (simp add: load64_pte [OF g] leaf_def assms(2))
  show "pte_addr q 0 va \<noteq> 0" by (rule pte_addr_nonzero [OF g])
qed

lemma walkaddr_leaf:
  assumes "page_table s pt xs"
  shows "walkaddr pt va s =
    Inr (if va < MAXVA \<and> leaf (mem s) pt va AND PTE_V \<noteq> 0 \<and> leaf (mem s) pt va AND PTE_U \<noteq> 0
         then PTE2PA (leaf (mem s) pt va) else 0, s)"
proof (cases "va < MAXVA")
  case True
  then have nl: "\<not> MAXVA \<le> va" by (simp add: not_le)
  show ?thesis
  proof (cases "node (mem s) pt (upper va)")
    case None
    then show ?thesis using walk_noalloc [OF assms True] nl by (simp add: walkaddr_def leaf_def)
  next
    case (Some q)
    then show ?thesis
      using walk_noalloc [OF assms True] True nl load_leaf [OF assms Some] by (simp add: walkaddr_def)
  qed
qed (auto simp: walkaddr_def not_less)

subsection \<open>Pages of virtual addresses\<close>

lemma idx_nat: "idx l va = unat va div 2 ^ (12 + 9 * l) mod 512"
proof -
  have "PX l va = take_bit 9 (drop_bit (12 + 9 * l) va)"
    by (simp add: PX_def PXSHIFT_def take_bit_eq_mask mask_eq_exp_minus_1)
  moreover have "take_bit 64 (unat va) = unat va"
    using unsigned_less [of va, where ?'a = nat] by (simp add: take_bit_nat_eq_self_iff)
  ultimately have "idx l va = take_bit 9 (drop_bit (12 + 9 * l) (unat va))"
    by (simp add: idx_def unsigned_take_bit_eq unsigned_drop_bit_eq)
  then show ?thesis by (simp add: take_bit_eq_mod drop_bit_eq_div)
qed

lemma page_number:
  assumes "va < MAXVA"
  shows "unat va div 4096 = idx 0 va + 512 * (idx 1 va + 512 * idx 2 va)"
proof -
  define n where "n = unat va div 4096"
  have "unat va < 274877906944" using assms by (simp add: word_less_nat_alt)
  then have n: "n < 67108864" by (simp add: n_def)
  have "unat va div 2 ^ 12 = n" "unat va div 2 ^ (12 + 9) = n div 512" "unat va div 2 ^ (12 + 9 * 2) = n div 262144"
    by (simp_all add: n_def div_mult2_eq [symmetric])
  then have i: "idx 0 va = n mod 512" "idx 1 va = n div 512 mod 512" "idx 2 va = n div 262144 mod 512"
    using idx_nat [of 0 va] idx_nat [of 1 va] idx_nat [of 2 va] by simp_all
  have "n div 262144 mod 512 = n div 262144" using n by simp
  moreover have "n div 262144 = n div 512 div 512" by (simp add: div_mult2_eq [symmetric])
  ultimately show ?thesis unfolding n_def [symmetric] i by simp
qed

lemma same_page_iff:
  assumes "a < MAXVA" "b < MAXVA"
  shows "same_page a b \<longleftrightarrow> unat a div 4096 = unat b div 4096"
proof
  assume "same_page a b"
  then show "unat a div 4096 = unat b div 4096"
    using page_number [OF assms(1)] page_number [OF assms(2)] by (simp add: same_page_def upper_def)
next
  assume e: "unat a div 4096 = unat b div 4096"
  have "idx l a = idx l b" for l
    unfolding idx_nat power_add using e by (simp add: div_mult2_eq)
  then show "same_page a b" by (simp add: same_page_def upper_def)
qed

lemma same_page_refl [simp]: "same_page a a"
  by (simp add: same_page_def)

end
