(* ===== verification/Vm_Ops.thy ===== *)
theory Vm_Ops
  imports Vm_Map
begin

text \<open>
  The operations of \<^verbatim>\<open>kernel/vm.c\<close> on the meaning of a page table: mapping, unmapping and
  translating pages, and copying bytes to and from a user address space.
\<close>

subsection \<open>Storing an entry\<close>

lemma store_leaf:
  assumes pt: "page_table s pt xs" and q: "node (mem s) pt (upper va) = Some q"
  shows "updated pt xs xs (\<lambda>x. if same_page x va then v else leaf (mem s) pt x) s
    (store64 (pte_addr q 0 va) v s)" (is "updated _ _ _ ?g _ ?s'")
proof -
  have qn: "q \<in> nodes (mem s) pt" using in_nodes [OF q] by simp
  have gq: "good_page s q" using page_tableD(4) [OF pt qn] .
  define m' where "m' = put64 (mem s) (unat q + 8 * idx 0 va) v"
  have s': "?s' = s\<lparr>mem := m'\<rparr>" by (simp add: store64_def m'_def unat_pte_addr [OF gq])
  have i: "8 * idx 0 va + 8 \<le> 4096" using idx_less [of 0 va] by linarith
  have out: "m' b = mem s b" if "b \<notin> page_bytes q" for b
    using that i by (auto simp: m'_def putw_def page_bytes_def)
  have ch: "entry_changed (mem s) m' pt q (idx 0 va)"
    by (auto simp: entry_changed_def m'_def putw_def)
  have v: "entry m' q (idx 0 va) = v" by (simp add: m'_def entry_def)
  note lc = leaf_changed [OF ch page_tableD(3) [OF pt] table_aligned [OF pt] q v]
  have nodes': "nodes m' pt = nodes (mem s) pt" using lc(1) by (auto simp: nodes_def)
  have "tree m' pt" using page_tableD(3) [OF pt] lc(1) by (simp add: tree_def)
  moreover have "free_list ?s' xs"
  proof (rule free_list_cong_pages [OF page_tableD(1) [OF pt]])
    fix x b assume x: "x \<in> set xs" and b: "b \<in> page_bytes x"
    have "good_page s x" using page_tableD(1) [OF pt] x by (simp add: free_list_def)
    moreover have "x \<noteq> q" using page_tableD(5) [OF pt qn] x by auto
    ultimately have "b \<notin> page_bytes q" using gq b by (intro good_page_disjoint)
    then show "mem ?s' b = mem s b" by (simp add: s' out)
  qed (simp_all add: s')
  ultimately have "page_table ?s' pt xs"
    using page_tableD(2,4,5) [OF pt] nodes' by (simp add: page_table_def s' good_page_def)
  then show ?thesis
    using lc(2) nodes' out qn by (simp add: updated_def s')
qed

subsection \<open>Mapping pages\<close>

text \<open>The entries after mapping \<open>n\<close> pages.\<close>

primrec maps :: "nat \<Rightarrow> u64 \<Rightarrow> u64 \<Rightarrow> u64 \<Rightarrow> (u64 \<Rightarrow> u64) \<Rightarrow> u64 \<Rightarrow> u64" where
  "maps 0 va pa perm g = g"
| "maps (Suc n) va pa perm g = maps n (va + 4096) (pa + 4096) perm
     (\<lambda>x. if same_page x va then PA2PTE pa OR perm OR PTE_V else g x)"

lemma unat_page_add: "unat (va :: u64) + 4096 * k \<le> 0x4000000000 \<Longrightarrow> unat (va + 4096 * of_nat k) = unat va + 4096 * k"
proof -
  assume b: "unat va + 4096 * k \<le> 0x4000000000"
  have "va + 4096 * of_nat k = word_of_nat (unat va + 4096 * k)" by simp
  moreover have "unat (word_of_nat (unat va + 4096 * k) :: u64) = unat va + 4096 * k"
    by (rule unat_of_nat_small) (use b in simp)
  ultimately show ?thesis by simp
qed

lemma page_add_MAXVA: "unat (va :: u64) + 4096 * Suc k \<le> 0x4000000000 \<Longrightarrow> va + 4096 * of_nat k < MAXVA"
  using unat_page_add [of va k] by (simp add: word_less_nat_alt)

lemma maps_outside:
  assumes "unat va + 4096 * n \<le> 0x4000000000" "x < MAXVA"
    and "unat x div 4096 < unat va div 4096 \<or> unat va div 4096 + n \<le> unat x div 4096"
  shows "maps n va pa perm g x = g x"
  using assms(1,3)
proof (induction n arbitrary: va pa g)
  case (Suc n)
  have v: "va < MAXVA" and v4: "unat (va + 4096) = unat va + 4096"
    using page_add_MAXVA [of va 0] unat_page_add [of va 1] Suc.prems(1) by auto
  have "\<not> same_page x va" using same_page_iff [OF assms(2) v] Suc.prems(2) by auto
  moreover have "maps n (va + 4096) (pa + 4096) perm h x = h x" for h
    by (rule Suc.IH) (use Suc.prems v4 in auto)
  ultimately show ?case by simp
qed simp

lemma maps_inside:
  assumes "unat va + 4096 * n \<le> 0x4000000000" "unat va mod 4096 = 0" "k < n"
  shows "maps n va pa perm g (va + 4096 * of_nat k) = PA2PTE (pa + 4096 * of_nat k) OR perm OR PTE_V"
  using assms
proof (induction n arbitrary: va pa g k)
  case (Suc n)
  have v4: "unat (va + 4096) = unat va + 4096" using unat_page_add [of va 1] Suc.prems(1) by auto
  show ?case
  proof (cases k)
    case 0
    have "maps n (va + 4096) (pa + 4096) perm h va = h va" for h
      by (rule maps_outside) (use Suc.prems v4 page_add_MAXVA [of va 0] in auto)
    then show ?thesis by (simp add: 0)
  next
    case (Suc j)
    have e: "va + 4096 * of_nat k = (va + 4096) + 4096 * of_nat j"
      "pa + 4096 * of_nat k = (pa + 4096) + 4096 * of_nat j" by (simp_all add: Suc algebra_simps)
    show ?thesis unfolding e maps.simps
      by (rule Suc.IH) (use Suc.prems Suc v4 in auto)
  qed
qed simp

text \<open>One round of the loop of \<^verbatim>\<open>mappages\<close>.\<close>

lemma mappages_step:
  assumes pt: "page_table s pt xs" and va: "va < MAXVA" and free: "leaf (mem s) pt va AND PTE_V = 0"
  obtains (full) s' where "mappages_loop (Suc k) pt va final pa perm s = Inr (-1, s')" "grown pt xs [] s s'"
  | (mapped) s' xs' where
      "mappages_loop (Suc k) pt va final pa perm s =
         (if va = final then Inr (0, s') else mappages_loop k pt (va + 4096) final (pa + 4096) perm s')"
      "updated pt xs xs' (maps 1 va pa perm (leaf (mem s) pt)) s s'"
  using pt va
proof (cases rule: walk_alloc)
  case (full s1)
  then show ?thesis using that(1) by simp
next
  case (found q s1 ys)
  have ld: "load64 (pte_addr q 0 va) s1 = leaf (mem s) pt va"
    using load_leaf(1) [OF updated_table [OF found(2)] found(3)] updated_leaf [OF found(2)] by simp
  let ?v = "PA2PTE pa OR perm OR PTE_V"
  have u: "updated pt ys ys (\<lambda>x. if same_page x va then ?v else leaf (mem s1) pt x) s1
      (store64 (pte_addr q 0 va) ?v s1)"
    by (rule store_leaf [OF updated_table [OF found(2)] found(3)])
  have "updated pt xs ys (maps 1 va pa perm (leaf (mem s) pt)) s (store64 (pte_addr q 0 va) ?v s1)"
    using updated_trans [OF found(2) u] unfolding updated_leaf [OF found(2)] by simp
  moreover have "mappages_loop (Suc k) pt va final pa perm s =
      (if va = final then Inr (0, store64 (pte_addr q 0 va) ?v s1)
       else mappages_loop k pt (va + 4096) final (pa + 4096) perm (store64 (pte_addr q 0 va) ?v s1))"
    using found(1,4) ld free by simp
  ultimately show ?thesis using that(2) by blast
qed

lemma mappages_loop_maps:
  assumes "page_table s pt xs" "0 < n" "unat va + 4096 * n \<le> 0x4000000000"
    and "\<And>k. k < n \<Longrightarrow> leaf (mem s) pt (va + 4096 * of_nat k) AND PTE_V = 0"
  shows "\<exists>r k s' xs'. mappages_loop n pt va (va + 4096 * of_nat (n - 1)) pa perm s = Inr (r, s') \<and>
    updated pt xs xs' (maps k va pa perm (leaf (mem s) pt)) s s' \<and>
    (r = 0 \<and> k = n \<or> r = -1 \<and> k < n \<and> xs' = [])"
  using assms
proof (induction n arbitrary: va pa s xs)
  case (Suc n)
  let ?final = "va + 4096 * of_nat (Suc n - 1)"
  have va: "va < MAXVA" using page_add_MAXVA [of va 0] Suc.prems(3) by simp
  have free: "leaf (mem s) pt va AND PTE_V = 0" using Suc.prems(4) [of 0] by simp
  have fin: "va = ?final \<longleftrightarrow> n = 0"
    using unat_page_add [of va n] Suc.prems(3) by (auto simp: word_unat_eq_iff)
  show ?case
  proof (rule mappages_step [OF Suc.prems(1) va free, where k = n and final = ?final and pa = pa and perm = perm],
      goal_cases full mapped)
    case (full s')
    then show ?thesis by (intro exI [of _ "-1"] exI [of _ 0] exI [of _ s'] exI [of _ "[]"]) simp
  next
    case (mapped s' ys)
    show ?thesis
    proof (cases "n = 0")
      case True
      then show ?thesis
        using mapped fin by (intro exI [of _ 0] exI [of _ "Suc n"] exI [of _ s'] exI [of _ ys]) simp
    next
      case False
      have v4: "unat (va + 4096) = unat va + 4096" using unat_page_add [of va 1] Suc.prems(3) by auto
      have sh: "va + 4096 + 4096 * of_nat k = va + 4096 * of_nat (Suc k)" for k by (simp add: algebra_simps)
      have "leaf (mem s') pt (va + 4096 + 4096 * of_nat k) AND PTE_V = 0" if k: "k < n" for k
      proof -
        have e: "maps 1 va pa perm (leaf (mem s) pt) (va + 4096 * of_nat (Suc k)) =
            leaf (mem s) pt (va + 4096 * of_nat (Suc k))"
          by (rule maps_outside) (use Suc.prems(3) k unat_page_add [of va "Suc k"]
              page_add_MAXVA [of va "Suc k"] in \<open>auto simp del: of_nat_Suc\<close>)
        show ?thesis unfolding sh updated_leaf [OF mapped(2)] e by (rule Suc.prems(4)) (use k in simp)
      qed
      moreover have "va + 4096 + 4096 * of_nat (n - 1) = ?final" using False sh [of "n - 1"] by simp
      ultimately obtain r k t zs where
        t: "mappages_loop n pt (va + 4096) ?final (pa + 4096) perm s' = Inr (r, t)"
          "updated pt ys zs (maps k (va + 4096) (pa + 4096) perm (leaf (mem s') pt)) s' t"
          "r = 0 \<and> k = n \<or> r = -1 \<and> k < n \<and> zs = []"
        using Suc.IH [OF updated_table [OF mapped(2)], of "va + 4096" "pa + 4096"] False Suc.prems(3) v4
        by auto
      have "updated pt xs zs (maps (Suc k) va pa perm (leaf (mem s) pt)) s t"
        using updated_trans [OF mapped(2) t(2)] updated_leaf [OF mapped(2)] by simp
      then show ?thesis
        using t mapped(1) fin False by (intro exI [of _ r] exI [of _ "Suc k"] exI [of _ t] exI [of _ zs]) auto
    qed
  qed
qed simp

lemma mappages_eq_loop:
  assumes "unat va mod 4096 = 0" "0 < n" "unat va + 4096 * n \<le> 0x4000000000"
  shows "mappages pt va (4096 * of_nat n) pa perm s =
    mappages_loop n pt va (va + 4096 * of_nat (n - 1)) pa perm s"
proof -
  have sz: "unat (4096 * of_nat n :: u64) = 4096 * n"
    using unat_page_add [of 0 n] assms(3) by simp
  then have "(4096 * of_nat n :: u64) \<noteq> 0" using assms(2) by (auto simp: unat_eq_zero [symmetric])
  moreover have e: "va + 4096 * of_nat (n - 1) = va + 4096 * of_nat n - 4096"
    using assms(2) by (cases n) (simp_all add: algebra_simps)
  ultimately show ?thesis using assms(1) sz unfolding e by (simp add: mappages_def)
qed

lemma flags_or_valid: "unat (perm :: u64) < 1024 \<Longrightarrow> unat (perm OR 1) < 1024"
proof -
  assume "unat perm < 1024"
  then have "take_bit 10 (unat perm) = unat perm" by (simp add: take_bit_nat_eq_self_iff)
  then have "unat (take_bit 10 perm) = unat perm" by (simp add: unsigned_take_bit_eq)
  then have "take_bit 10 perm = perm" by (simp add: word_unat_eq_iff)
  then have "take_bit 10 (perm OR 1) = perm OR 1" by (simp add: take_bit_or)
  then have "unat (perm OR 1) = take_bit 10 (unat (perm OR 1))" by (metis unsigned_take_bit_eq)
  then show ?thesis using take_bit_nat_less_exp [of 10 "unat (perm OR 1)"] by simp
qed

lemma aligned_page_add: "unat (pa :: u64) mod 4096 = 0 \<Longrightarrow> unat (pa + 4096 * of_nat j) mod 4096 = 0"
proof -
  assume "unat pa mod 4096 = 0"
  then have "(unat pa + 4096 * j) mod 4096 = 0" by simp
  moreover have "unat (pa + 4096 * of_nat j) = (unat pa + 4096 * j) mod 18446744073709551616"
  proof -
    have e: "pa + 4096 * of_nat j = word_of_nat (unat pa + 4096 * j)" by simp
    show ?thesis unfolding e unat_of_nat by simp
  qed
  ultimately show ?thesis by (simp add: mod_mod_cancel)
qed

lemma user_entry:
  assumes "unat pa mod 4096 = 0" "unat perm < 1024" "perm AND PTE_U \<noteq> 0"
  shows "(PA2PTE pa OR perm OR PTE_V) AND PTE_V \<noteq> 0" "(PA2PTE pa OR perm OR PTE_V) AND PTE_U \<noteq> 0"
    "PTE2PA (PA2PTE pa OR perm OR PTE_V) = pa"
proof -
  show "(PA2PTE pa OR perm OR PTE_V) AND PTE_V \<noteq> 0" by (rule valid_make)
  have "(PA2PTE pa OR perm OR PTE_V) AND PTE_U = (perm OR PTE_V) AND PTE_U"
    by (rule flag_and_make) simp
  also have "\<dots> = perm AND PTE_U"
  proof (rule bit_word_eqI)
    fix n assume "n < LENGTH(64)"
    show "bit ((perm OR 1) AND 16) n = bit (perm AND 16) n"
      by (cases n) (simp_all add: bit_and_iff bit_or_iff bit_1_iff)
  qed
  finally show "(PA2PTE pa OR perm OR PTE_V) AND PTE_U \<noteq> 0" using assms(3) by simp
  show "PTE2PA (PA2PTE pa OR perm OR PTE_V) = pa"
    by (rule PTE2PA_make [OF assms(1) flags_or_valid [OF assms(2)]])
qed

subsection \<open>New page tables\<close>

lemma empty_nodes:
  assumes "\<forall>b\<in>page_bytes pt. m b = 0"
  shows "nodes m pt = {pt}" "tree m pt" "leaf m pt va = 0"
proof -
  have n: "node m pt is = (if is = [] then Some pt else None)" if "is \<in> paths" for "is"
  proof (cases "is")
    case (Cons i js)
    with that have "i < 512" by (simp add: paths_def)
    then show ?thesis using Cons child_zero [OF assms] by (simp add: node.simps(2))
  qed simp
  have "[] \<in> paths" by (simp add: paths_def)
  with n show "nodes m pt = {pt}" by (force simp: nodes_def split: if_splits)
  show "tree m pt" unfolding tree_def using n by (auto split: if_splits)
  have "upper va \<noteq> []" by (simp add: upper_def)
  then show "leaf m pt va = 0" using n [OF upper_path [of va]] by (simp add: leaf_def)
qed

subsection \<open>Unmapping and freeing pages\<close>

text \<open>A memory that agrees on the table pages has the same tables and entries.\<close>

lemma nodes_agree:
  assumes "\<And>p b. p \<in> nodes m pt \<Longrightarrow> b \<in> page_bytes p \<Longrightarrow> m' b = m b"
  shows "is \<in> paths \<Longrightarrow> node m' pt is = node m pt is" "leaf m' pt va = leaf m pt va"
proof -
  have e: "entry m' p i = entry m p i" if "p \<in> nodes m pt" "i < 512" for p i
    by (rule entry_cong, rule assms [OF that(1)]) (use that(2) in \<open>auto simp: page_bytes_def\<close>)
  show n: "is \<in> paths \<Longrightarrow> node m' pt is = node m pt is" for "is"
  proof (induction "is" rule: rev_induct)
    case (snoc i "is")
    have i: "i < 512" "is \<in> paths" using snoc.prems paths_prefix by (auto simp: paths_def)
    with snoc.IH have IH: "node m' pt is = node m pt is" by blast
    show ?case
    proof (cases "node m pt is")
      case (Some q)
      then have "child m' q i = child m q i" using in_nodes [OF Some i(2)] i(1) by (simp add: child_def e)
      then show ?thesis by (simp add: node_snoc IH Some)
    qed (simp add: node_snoc IH)
  qed simp
  show "leaf m' pt va = leaf m pt va"
    using e [OF in_nodes [OF _ upper_path]] idx_less by (simp add: leaf_def n split: option.split)
qed

lemma kfree_leaf:
  assumes pt: "page_table s pt xs" and pa: "good_page s pa" "pa \<notin> set xs" "pa \<notin> nodes (mem s) pt"
  obtains m where "kfree pa s = Inr (s\<lparr>mem := m, freelist := pa\<rparr>)"
    "page_table (s\<lparr>mem := m, freelist := pa\<rparr>) pt (pa # xs)" "leaf m pt = leaf (mem s) pt"
    "\<And>is. is \<in> paths \<Longrightarrow> node m pt is = node (mem s) pt is"
proof -
  obtain m where k: "kfree pa s = Inr (s\<lparr>mem := m, freelist := pa\<rparr>)"
    and fl: "free_list (s\<lparr>mem := m, freelist := pa\<rparr>) (pa # xs)"
    and out: "\<And>i. i \<notin> page_bytes pa \<Longrightarrow> m i = mem s i"
    using kfree_page [OF page_tableD(1,2) [OF pt] pa(1,2)] by blast
  have agree: "m b = mem s b" if p: "p \<in> nodes (mem s) pt" and b: "b \<in> page_bytes p" for p b
  proof (rule out)
    have "p \<noteq> pa" using p pa(3) by auto
    then show "b \<notin> page_bytes pa" by (rule good_page_disjoint [OF page_tableD(4) [OF pt p] pa(1) _ b])
  qed
  note na = nodes_agree [of "mem s" pt m, OF agree]
  have "nodes m pt = nodes (mem s) pt" using na(1) by (auto simp: nodes_def)
  moreover have "tree m pt" using page_tableD(3) [OF pt] na(1) by (simp add: tree_def)
  ultimately have "page_table (s\<lparr>mem := m, freelist := pa\<rparr>) pt (pa # xs)"
    using page_tableD(2,4,5) [OF pt] fl pa(3) by (auto simp: page_table_def good_page_def)
  with that [OF k] na show ?thesis by (auto simp: fun_eq_iff)
qed

text \<open>The physical page of a valid entry.\<close>

definition leaf_page :: "bytes \<Rightarrow> u64 \<Rightarrow> u64 \<Rightarrow> u64 option" where
  "leaf_page m pt va = (if leaf m pt va AND PTE_V \<noteq> 0 then Some (PTE2PA (leaf m pt va)) else None)"

lemma uvmunmap_step:
  assumes pt: "page_table s pt xs" and va: "va < MAXVA" and lt: "va < bound"
    and pg: "\<And>pa. leaf_page (mem s) pt va = Some pa \<Longrightarrow> good_page s pa \<and> pa \<notin> set xs \<and> pa \<notin> nodes (mem s) pt"
  obtains s' where "uvmunmap_loop pt va bound True s = uvmunmap_loop pt (va + 4096) bound True s'"
    "page_table s' pt (case leaf_page (mem s) pt va of None \<Rightarrow> xs | Some pa \<Rightarrow> pa # xs)"
    "\<And>x. leaf (mem s') pt x = (if same_page x va \<and> leaf_page (mem s) pt va \<noteq> None then 0 else leaf (mem s) pt x)"
    "nodes (mem s') pt = nodes (mem s) pt" "kend s' = kend s"
proof (cases "leaf_page (mem s) pt va")
  case None
  have "uvmunmap_loop pt va bound True s = uvmunmap_loop pt (va + 4096) bound True s"
  proof (cases "node (mem s) pt (upper va)")
    case None
    then show ?thesis by (subst uvmunmap_loop.simps) (simp add: lt walk_noalloc [OF pt va])
  next
    case (Some q)
    have "leaf (mem s) pt va AND PTE_V = 0" using None by (simp add: leaf_page_def split: if_splits)
    then show ?thesis
      by (subst uvmunmap_loop.simps) (simp add: lt walk_noalloc [OF pt va] Some load_leaf [OF pt Some])
  qed
  then show ?thesis by (rule that) (simp_all add: None pt)
next
  case (Some pa)
  have v: "leaf (mem s) pt va AND PTE_V \<noteq> 0" and e: "PTE2PA (leaf (mem s) pt va) = pa"
    using Some by (auto simp: leaf_page_def split: if_splits)
  then obtain q where q: "node (mem s) pt (upper va) = Some q"
    by (cases "node (mem s) pt (upper va)") (auto simp: leaf_def)
  obtain m where k: "kfree pa s = Inr (s\<lparr>mem := m, freelist := pa\<rparr>)"
    and pt1: "page_table (s\<lparr>mem := m, freelist := pa\<rparr>) pt (pa # xs)" and lf: "leaf m pt = leaf (mem s) pt"
    and nd: "\<And>is. is \<in> paths \<Longrightarrow> node m pt is = node (mem s) pt is"
    using kfree_leaf [OF pt] pg [OF Some] by blast
  let ?s1 = "s\<lparr>mem := m, freelist := pa\<rparr>" and ?s2 = "store64 (pte_addr q 0 va) 0 (s\<lparr>mem := m, freelist := pa\<rparr>)"
  have q1: "node (mem ?s1) pt (upper va) = Some q" using nd [OF upper_path] q by simp
  note u = store_leaf [OF pt1 q1, of 0]
  have w: "uvmunmap_loop pt va bound True s = uvmunmap_loop pt (va + 4096) bound True ?s2"
    by (subst uvmunmap_loop.simps) (simp add: lt walk_noalloc [OF pt va] q load_leaf [OF pt q] v e k)
  have n2: "nodes (mem ?s2) pt = nodes (mem s) pt"
  proof -
    have "nodes (mem ?s2) pt \<union> set (pa # xs) = nodes m pt \<union> set (pa # xs)" using u by (simp add: updated_def)
    moreover have "nodes m pt = nodes (mem s) pt" using nd by (auto simp: nodes_def)
    ultimately show ?thesis
      using page_tableD(5) [OF updated_table [OF u]] page_tableD(5) [OF pt1] by auto
  qed
  show ?thesis
    by (rule that [OF w _ _ n2]) (use updated_table [OF u] updated_leaf [OF u] Some lf in \<open>simp_all add: store64_def\<close>)
qed

definition freed_pages :: "bytes \<Rightarrow> u64 \<Rightarrow> u64 \<Rightarrow> nat \<Rightarrow> u64 set" where
  "freed_pages m pt va n = {pa. \<exists>k<n. leaf_page m pt (va + 4096 * of_nat k) = Some pa}"

text \<open>The pages mapped in a range belong to the address space alone, and to one address each.\<close>

definition own_pages :: "kstate \<Rightarrow> u64 \<Rightarrow> u64 \<Rightarrow> nat \<Rightarrow> u64 list \<Rightarrow> bool" where
  "own_pages s pt va n xs \<longleftrightarrow>
     (\<forall>k<n. \<forall>pa. leaf_page (mem s) pt (va + 4096 * of_nat k) = Some pa \<longrightarrow>
        good_page s pa \<and> pa \<notin> set xs \<and> pa \<notin> nodes (mem s) pt \<and>
        (\<forall>j<n. leaf_page (mem s) pt (va + 4096 * of_nat j) = Some pa \<longrightarrow> j = k))"

lemma other_page:
  assumes "(v :: nat) mod 4096 = 0" "a < v \<or> v + 4096 \<le> a"
  shows "a div 4096 \<noteq> v div 4096"
proof
  assume "a div 4096 = v div 4096"
  moreover have "v div 4096 * 4096 = v" using assms(1) by (metis add.right_neutral div_mult_mod_eq)
  moreover have "a div 4096 * 4096 \<le> a" "a < a div 4096 * 4096 + 4096"
    using div_mult_mod_eq [of a 4096] mod_less_divisor [of 4096 a] by linarith+
  ultimately show False using assms(2) by simp
qed

lemma page_range:
  assumes "unat (va :: u64) mod 4096 = 0" "unat (x :: u64) < unat va \<or> unat va + 4096 * k \<le> unat x"
  shows "unat x div 4096 < unat va div 4096 \<or> unat va div 4096 + k \<le> unat x div 4096"
proof -
  obtain v where v: "unat va = 4096 * v" using assms(1) by (auto elim!: mod_eq_0_iff_dvd [THEN iffD1, THEN dvdE])
  show ?thesis
  proof (cases "unat x < unat va")
    case True
    then have "unat x div 4096 < v" by (simp add: v less_mult_imp_div_less mult.commute)
    then show ?thesis by (simp add: v)
  next
    case False
    then have "(v + k) * 4096 \<le> unat x" using assms(2) by (simp add: v)
    then have "v + k \<le> unat x div 4096" by (simp add: less_eq_div_iff_mult_less_eq)
    then show ?thesis by (simp add: v)
  qed
qed

lemma uvmunmap_loop_frees:
  assumes "page_table s pt xs" "unat va + 4096 * n \<le> 0x4000000000" "unat va mod 4096 = 0" "own_pages s pt va n xs"
  shows "\<exists>s' ys. uvmunmap_loop pt va (va + 4096 * of_nat n) True s = Inr s' \<and> page_table s' pt (ys @ xs) \<and>
    set ys = freed_pages (mem s) pt va n \<and>
    (\<forall>k<n. leaf_page (mem s') pt (va + 4096 * of_nat k) = None) \<and>
    (\<forall>x. x < MAXVA \<longrightarrow> unat x < unat va \<or> unat va + 4096 * n \<le> unat x \<longrightarrow> leaf (mem s') pt x = leaf (mem s) pt x)"
  using assms
proof (induction n arbitrary: va s xs)
  case 0
  then show ?case by (subst uvmunmap_loop.simps) (auto simp: freed_pages_def intro: exI [of _ "[]"])
next
  case (Suc n)
  let ?b = "va + 4096 * of_nat (Suc n)"
  have va: "va < MAXVA" and v4: "unat (va + 4096) = unat va + 4096"
    using page_add_MAXVA [of va 0] unat_page_add [of va 1] Suc.prems(2) by auto
  have lt: "va < ?b" unfolding word_less_nat_alt unat_page_add [OF Suc.prems(2)] by simp
  have sh: "va + 4096 + 4096 * of_nat k = va + 4096 * of_nat (Suc k)" for k by (simp add: algebra_simps)
  have pg: "good_page s pa \<and> pa \<notin> set xs \<and> pa \<notin> nodes (mem s) pt" if "leaf_page (mem s) pt va = Some pa" for pa
    using Suc.prems(4) [unfolded own_pages_def, rule_format, of 0 pa] that by simp
  define zs where "zs = (case leaf_page (mem s) pt va of None \<Rightarrow> xs | Some pa \<Rightarrow> pa # xs)"
  obtain t where w: "uvmunmap_loop pt va ?b True s = uvmunmap_loop pt (va + 4096) ?b True t"
    and pt: "page_table t pt zs"
    and lf: "\<And>x. leaf (mem t) pt x = (if same_page x va \<and> leaf_page (mem s) pt va \<noteq> None then 0 else leaf (mem s) pt x)"
    and nd: "nodes (mem t) pt = nodes (mem s) pt" and ke: "kend t = kend s"
    using uvmunmap_step [OF Suc.prems(1) va lt pg] unfolding zs_def by blast
  have nsp: "\<not> same_page x va" if "x < MAXVA" "unat x < unat va \<or> unat va + 4096 \<le> unat x" for x
    using same_page_iff [OF that(1) va] other_page [OF Suc.prems(3) that(2)] by simp
  have sk: "va + 4096 * of_nat (Suc k) < MAXVA \<and> unat (va + 4096 * of_nat (Suc k)) = unat va + 4096 * Suc k"
    if "k < n" for k
    using that Suc.prems(2) page_add_MAXVA [of va "Suc k"] unat_page_add [of va "Suc k"] by simp
  have lk: "leaf (mem t) pt (va + 4096 * of_nat (Suc k)) = leaf (mem s) pt (va + 4096 * of_nat (Suc k))"
    if "k < n" for k
    unfolding lf using nsp sk [OF that] by simp
  have lpk: "leaf_page (mem t) pt (va + 4096 + 4096 * of_nat k) = leaf_page (mem s) pt (va + 4096 * of_nat (Suc k))"
    if "k < n" for k
    unfolding leaf_page_def sh lk [OF that] ..
  have own: "own_pages t pt (va + 4096) n zs"
    unfolding own_pages_def
  proof (intro allI impI)
    fix k pa assume k: "k < n" and e: "leaf_page (mem t) pt (va + 4096 + 4096 * of_nat k) = Some pa"
    have e': "leaf_page (mem s) pt (va + 4096 * of_nat (Suc k)) = Some pa" using e lpk [OF k] by simp
    have o: "good_page s pa" "pa \<notin> set xs" "pa \<notin> nodes (mem s) pt"
      and u: "\<And>j. j < Suc n \<Longrightarrow> leaf_page (mem s) pt (va + 4096 * of_nat j) = Some pa \<Longrightarrow> j = Suc k"
      using Suc.prems(4) [unfolded own_pages_def, rule_format, OF _ e'] k by blast+
    have "pa \<notin> set zs" using o(2) u [of 0] by (auto simp: zs_def split: option.splits)
    moreover have "j = k" if "j < n" "leaf_page (mem t) pt (va + 4096 + 4096 * of_nat j) = Some pa" for j
      using u [of "Suc j"] that lpk [OF that(1)] by simp
    ultimately show "good_page t pa \<and> pa \<notin> set zs \<and> pa \<notin> nodes (mem t) pt \<and>
        (\<forall>j<n. leaf_page (mem t) pt (va + 4096 + 4096 * of_nat j) = Some pa \<longrightarrow> j = k)"
      using o ke nd by (auto simp: good_page_def)
  qed
  have p1: "unat (va + 4096) + 4096 * n \<le> 0x4000000000" and p2: "unat (va + 4096) mod 4096 = 0"
    using Suc.prems(2,3) v4 by simp_all
  obtain s' ys where s': "uvmunmap_loop pt (va + 4096) ?b True t = Inr s'" "page_table s' pt (ys @ zs)"
      "set ys = freed_pages (mem t) pt (va + 4096) n"
      "\<And>k. k < n \<Longrightarrow> leaf_page (mem s') pt (va + 4096 * of_nat (Suc k)) = None"
      "\<And>x. x < MAXVA \<Longrightarrow> unat x < unat (va + 4096) \<or> unat (va + 4096) + 4096 * n \<le> unat x \<Longrightarrow>
        leaf (mem s') pt x = leaf (mem t) pt x"
    using Suc.IH [OF pt p1 p2 own] unfolding sh by blast
  show ?case
  proof (intro exI [of _ s'] exI [of _ "ys @ (case leaf_page (mem s) pt va of None \<Rightarrow> [] | Some pa \<Rightarrow> [pa])"] conjI allI impI)
    show "uvmunmap_loop pt va ?b True s = Inr s'" using w s'(1) by simp
    show "page_table s' pt ((ys @ (case leaf_page (mem s) pt va of None \<Rightarrow> [] | Some pa \<Rightarrow> [pa])) @ xs)"
      using s'(2) by (simp add: zs_def split: option.splits)
    show "set (ys @ (case leaf_page (mem s) pt va of None \<Rightarrow> [] | Some pa \<Rightarrow> [pa])) = freed_pages (mem s) pt va (Suc n)"
      using s'(3) lpk by (auto simp: freed_pages_def less_Suc_eq_0_disj simp del: of_nat_Suc split: option.splits)
    show "leaf_page (mem s') pt (va + 4096 * of_nat k) = None" if "k < Suc n" for k
    proof (cases k)
      case 0
      have "leaf (mem s') pt va = leaf (mem t) pt va" using s'(5) [OF va] v4 by simp
      then show ?thesis using lf [of va] 0 by (simp add: leaf_page_def split: if_splits)
    next
      case (Suc j)
      then show ?thesis using s'(4) [of j] that by simp
    qed
    show "leaf (mem s') pt x = leaf (mem s) pt x"
      if "x < MAXVA" "unat x < unat va \<or> unat va + 4096 * Suc n \<le> unat x" for x
      using s'(5) [OF that(1)] nsp [OF that(1)] that(2) lf [of x] v4 by auto
  qed
qed

subsection \<open>Two address spaces\<close>

text \<open>
  An empty page table at \<^verbatim>\<open>0x80021000\<close> with two free pages, and a page table at the same address that
  maps virtual page 0 to the physical page \<^verbatim>\<open>0x80024000\<close>, readable and writable for the user.
\<close>

definition empty_space :: kstate where
  "empty_space = (kstate0 0x80020000 (\<lambda>_ _. 0))
     \<lparr>mem := put64 (\<lambda>_. 0) 0x80022000 0x80023000, freelist := 0x80022000\<rparr>"

lemma zero_entry: "getw k (\<lambda>_. 0) off = 0"
  unfolding getw_def by (rule le_word_zeros) simp

lemma empty_space_table: "page_table empty_space 0x80021000 [0x80022000, 0x80023000]"
proof -
  have z: "\<forall>b\<in>page_bytes 0x80021000. mem empty_space b = 0"
    by (simp add: empty_space_def page_bytes_def putw_def)
  have "free_list empty_space [0x80022000, 0x80023000]"
    by (simp add: free_list_def good_page_def empty_space_def getw_putw_other zero_entry)
  moreover have "good_page empty_space 0x80021000" by (simp add: good_page_def empty_space_def)
  ultimately show ?thesis using empty_nodes [OF z] by (simp add: page_table_def empty_space_def)
qed

definition one_page_mem :: bytes where
  "one_page_mem = put64 (put64 (put64 (\<lambda>_. 0) 0x80021000 (PA2PTE 0x80022000 OR 1))
     0x80022000 (PA2PTE 0x80023000 OR 1)) 0x80023000 (PA2PTE 0x80024000 OR 0x17)"

definition one_page :: kstate where
  "one_page = (kstate0 0x80020000 (\<lambda>_ _. 0))\<lparr>mem := one_page_mem\<rparr>"

lemma one_page_entries:
  "i < 512 \<Longrightarrow> entry one_page_mem 0x80021000 i = (if i = 0 then PA2PTE 0x80022000 OR 1 else 0)"
  "i < 512 \<Longrightarrow> entry one_page_mem 0x80022000 i = (if i = 0 then PA2PTE 0x80023000 OR 1 else 0)"
  "i < 512 \<Longrightarrow> entry one_page_mem 0x80023000 i = (if i = 0 then PA2PTE 0x80024000 OR 0x17 else 0)"
  by (auto simp: entry_def one_page_mem_def getw_putw_other zero_entry)

lemma one_page_child:
  "i < 512 \<Longrightarrow> child one_page_mem 0x80021000 i = (if i = 0 then Some 0x80022000 else None)"
  "i < 512 \<Longrightarrow> child one_page_mem 0x80022000 i = (if i = 0 then Some 0x80023000 else None)"
  using PTE2PA_make [of "0x80022000" 1] PTE2PA_make [of "0x80023000" 1]
    valid_make [of "0x80022000" 0] valid_make [of "0x80023000" 0]
  by (simp_all add: child_def one_page_entries)

lemma one_page_node:
  assumes "is \<in> paths"
  shows "node one_page_mem 0x80021000 is = (if is = [] then Some 0x80021000
    else if is = [0] then Some 0x80022000 else if is = [0, 0] then Some 0x80023000 else None)"
proof -
  consider "is = []" | i where "is = [i]" "i < 512" | i j where "is = [i, j]" "i < 512" "j < 512"
    using assms by (cases "is" rule: list.exhaust; cases "tl is") (auto simp: paths_def)
  then show ?thesis
    by cases (auto simp: node.simps(2) one_page_child)
qed

lemma one_page_nodes: "nodes one_page_mem 0x80021000 = {0x80021000, 0x80022000, 0x80023000}"
proof -
  have "[] \<in> paths" "[0] \<in> paths" "[0, 0] \<in> paths" by (simp_all add: paths_def)
  then show ?thesis unfolding nodes_def using one_page_node by (auto split: if_splits)
qed

lemma one_page_table: "page_table one_page 0x80021000 []"
proof -
  have "tree one_page_mem 0x80021000"
    unfolding tree_def using one_page_node by (auto split: if_splits)
  then show ?thesis
    using one_page_nodes by (simp add: page_table_def free_list_def good_page_def one_page_def)
qed

lemma one_page_leaf: "x < MAXVA \<Longrightarrow> leaf (mem one_page) 0x80021000 x = (if unat x < 4096 then PA2PTE 0x80024000 OR 0x17 else 0)"
proof -
  assume x: "x < MAXVA"
  have "upper 0 = [0, 0]" "idx 0 0 = 0" by (simp_all add: upper_def idx_nat)
  moreover have "same_page x 0 \<longleftrightarrow> unat x < 4096"
    using same_page_iff [OF x, of 0] by (simp add: div_eq_0_iff)
  ultimately have sp: "upper x = [0, 0] \<and> idx 0 x = 0 \<longleftrightarrow> unat x < 4096" by (simp add: same_page_def)
  have "upper x \<noteq> []" "upper x \<noteq> [0]" by (simp_all add: upper_def)
  then show ?thesis
    using sp one_page_node [OF upper_path [of x]] one_page_entries(3) [OF idx_less [of 0 x]]
    by (auto simp: leaf_def one_page_def split: if_splits)
qed

subsection \<open>Properties\<close>

text \<open>
  C19: a page-table entry made with \<^verbatim>\<open>PA2PTE\<close> from a page-aligned physical address and ten flag bits
  gives back the address with \<^verbatim>\<open>PTE2PA\<close> and the flags with \<^verbatim>\<open>PTE_FLAGS\<close>.
\<close>

theorem pte_roundtrip:
  "unat pa mod PGSIZE = 0 \<Longrightarrow> unat f < 1024 \<Longrightarrow>
     PTE2PA (PA2PTE pa OR f) = pa \<and> PTE_FLAGS (PA2PTE pa OR f) = f"
  by (simp add: PTE2PA_make PTE_FLAGS_make)

theorem pte_roundtrip_witness:
  "PTE2PA (PA2PTE 0x80024000 OR 0x17) = 0x80024000 \<and> PTE_FLAGS (PA2PTE 0x80024000 OR 0x17) = 0x17"
  by (rule pte_roundtrip) simp_all

text \<open>
  C16: \<^verbatim>\<open>mappages\<close> on a range of unmapped pages either maps all of them, and then \<^verbatim>\<open>walkaddr\<close> translates
  the \<open>j\<close>-th page of the range to the \<open>j\<close>-th physical page, or it runs out of memory for page-table
  pages and returns -1 with a first part of the range mapped. No translation outside the mapped
  part changes, and the tables stay a tree of distinct pages that are not free.
\<close>

theorem mappages_translates:
  assumes "page_table s pt xs" "unat va mod PGSIZE = 0" "0 < n" "unat va + PGSIZE * n \<le> unat MAXVA"
    and "\<forall>k<n. leaf (mem s) pt (va + 4096 * of_nat k) AND PTE_V = 0"
    and "unat pa mod PGSIZE = 0" "unat perm < 1024" "perm AND PTE_U \<noteq> 0"
  shows "\<exists>r k s' xs'. mappages pt va (4096 * of_nat n) pa perm s = Inr (r, s') \<and> page_table s' pt xs' \<and>
    (r = 0 \<and> k = n \<or> r = -1 \<and> k < n \<and> xs' = []) \<and>
    (\<forall>j<k. walkaddr pt (va + 4096 * of_nat j) s' = Inr (pa + 4096 * of_nat j, s')) \<and>
    (\<forall>x. x < MAXVA \<longrightarrow> unat x < unat va \<or> unat va + PGSIZE * k \<le> unat x \<longrightarrow>
       leaf (mem s') pt x = leaf (mem s) pt x)"
proof -
  have b: "unat va + 4096 * n \<le> 0x4000000000" using assms(4) by simp
  obtain r k s' xs' where m: "mappages pt va (4096 * of_nat n) pa perm s = Inr (r, s')"
    and u: "updated pt xs xs' (maps k va pa perm (leaf (mem s) pt)) s s'"
    and r: "r = 0 \<and> k = n \<or> r = -1 \<and> k < n \<and> xs' = []"
    using mappages_loop_maps [OF assms(1,3) b, of pa perm] assms(5)
      mappages_eq_loop [OF assms(2,3) b, of pt pa perm s] by auto
  have kb: "unat va + 4096 * k \<le> 0x4000000000" using r b by auto
  have "walkaddr pt (va + 4096 * of_nat j) s' = Inr (pa + 4096 * of_nat j, s')" if j: "j < k" for j
  proof -
    have "leaf (mem s') pt (va + 4096 * of_nat j) = PA2PTE (pa + 4096 * of_nat j) OR perm OR PTE_V"
      unfolding updated_leaf [OF u] by (rule maps_inside [OF kb assms(2) j])
    then show ?thesis
      using walkaddr_leaf [OF updated_table [OF u]] page_add_MAXVA [of va j] kb j
        user_entry [OF aligned_page_add [OF assms(6)] assms(7,8)] by auto
  qed
  moreover have "leaf (mem s') pt x = leaf (mem s) pt x"
    if "x < MAXVA" "unat x < unat va \<or> unat va + 4096 * k \<le> unat x" for x
    unfolding updated_leaf [OF u] by (rule maps_outside [OF kb that(1) page_range [OF assms(2) that(2)]])
  ultimately show ?thesis using m r updated_table [OF u] by auto
qed

theorem mappages_translates_witness:
  "\<exists>r k s' xs'. mappages 0x80021000 0x3000 (4096 * of_nat 1) 0x80024000 (PTE_R OR PTE_U) empty_space = Inr (r, s') \<and>
    page_table s' 0x80021000 xs' \<and> (r = 0 \<and> k = 1 \<or> r = -1 \<and> k < 1 \<and> xs' = []) \<and>
    (\<forall>j<k. walkaddr 0x80021000 (0x3000 + 4096 * of_nat j) s' = Inr (0x80024000 + 4096 * of_nat j, s')) \<and>
    (\<forall>x. x < MAXVA \<longrightarrow> unat x < unat (0x3000 :: u64) \<or> unat (0x3000 :: u64) + PGSIZE * k \<le> unat x \<longrightarrow>
       leaf (mem s') 0x80021000 x = leaf (mem empty_space) 0x80021000 x)"
proof (rule mappages_translates [OF empty_space_table])
  have "\<forall>b\<in>page_bytes 0x80021000. mem empty_space b = 0"
    by (simp add: empty_space_def page_bytes_def putw_def)
  then show "\<forall>k<1. leaf (mem empty_space) 0x80021000 (0x3000 + 4096 * of_nat k) AND PTE_V = 0"
    by (simp add: empty_nodes)
qed simp_all

text \<open>
  C17: \<^verbatim>\<open>uvmunmap\<close> with \<^verbatim>\<open>do_free\<close> on pages that belong to the address space alone returns exactly the
  physical pages mapped in the range to the free list, leaves no valid entry in the range, and
  changes no entry outside it; holes in the range are skipped.
\<close>

theorem uvmunmap_frees:
  assumes "page_table s pt xs" "unat va mod PGSIZE = 0" "unat va + PGSIZE * n \<le> unat MAXVA" "own_pages s pt va n xs"
  shows "\<exists>s' ys. uvmunmap pt va (of_nat n) True s = Inr s' \<and> page_table s' pt (ys @ xs) \<and>
    set ys = freed_pages (mem s) pt va n \<and>
    (\<forall>k<n. leaf_page (mem s') pt (va + 4096 * of_nat k) = None) \<and>
    (\<forall>x. x < MAXVA \<longrightarrow> unat x < unat va \<or> unat va + PGSIZE * n \<le> unat x \<longrightarrow>
       leaf (mem s') pt x = leaf (mem s) pt x)"
proof -
  have "uvmunmap pt va (of_nat n) True s = uvmunmap_loop pt va (va + 4096 * of_nat n) True s"
    using assms(2) by (simp add: uvmunmap_def mult.commute)
  then show ?thesis using uvmunmap_loop_frees [OF assms(1) _ assms(2,4)] assms(3) by simp
qed

theorem uvmunmap_frees_witness:
  "\<exists>s' ys. uvmunmap 0x80021000 0 (of_nat 1) True one_page = Inr s' \<and>
    page_table s' 0x80021000 (ys @ []) \<and> set ys = {0x80024000} \<and>
    leaf_page (mem s') 0x80021000 0 = None"
proof -
  have lf: "leaf (mem one_page) 0x80021000 0 = PA2PTE 0x80024000 OR 0x17" using one_page_leaf [of 0] by simp
  then have lp: "leaf_page (mem one_page) 0x80021000 0 = Some 0x80024000"
    using PTE2PA_make [of "0x80024000" "0x17"] flag_and_make [of 1 "0x80024000" "0x17"]
    by (simp add: leaf_page_def)
  have "own_pages one_page 0x80021000 0 1 []"
    using lp one_page_nodes by (auto simp: own_pages_def one_page_def good_page_def)
  from uvmunmap_frees [OF one_page_table _ _ this] lp show ?thesis by (auto simp: freed_pages_def)
qed

end
