(* ===== verification/Vm_Copy.thy ===== *)
theory Vm_Copy
  imports Vm_Ops
begin

text \<open>
  \<^verbatim>\<open>copyin\<close> and \<^verbatim>\<open>copyout\<close> of \<^verbatim>\<open>kernel/vm.c\<close> on user memory: byte \<open>k\<close> of a user range is the byte of
  physical memory at \<open>uaddr\<close> of its address, whatever pages the range crosses.
\<close>

subsection \<open>User memory\<close>

definition uaddr :: "bytes \<Rightarrow> u64 \<Rightarrow> u64 \<Rightarrow> nat" where
  "uaddr m pt va = unat (PTE2PA (leaf m pt va)) + unat va mod 4096"

text \<open>
  A range of user memory whose pages are mapped for the user, and for writing if \<open>w\<close>, in pages that
  are neither tables nor free.
\<close>

definition user_byte :: "bool \<Rightarrow> kstate \<Rightarrow> u64 \<Rightarrow> u64 list \<Rightarrow> u64 \<Rightarrow> bool" where
  "user_byte w s pt xs va \<longleftrightarrow>
     (let e = leaf (mem s) pt va in
      e AND PTE_V \<noteq> 0 \<and> e AND PTE_U \<noteq> 0 \<and> (w \<longrightarrow> e AND PTE_W \<noteq> 0) \<and>
      good_page s (PTE2PA e) \<and> PTE2PA e \<notin> nodes (mem s) pt \<and> PTE2PA e \<notin> set xs)"

definition user_range :: "bool \<Rightarrow> kstate \<Rightarrow> u64 \<Rightarrow> u64 list \<Rightarrow> u64 \<Rightarrow> nat \<Rightarrow> bool" where
  "user_range w s pt xs va n \<longleftrightarrow>
     unat va + n \<le> 0x4000000000 \<and> (\<forall>k<n. user_byte w s pt xs (va + of_nat k))"

lemma unat_add_small: "unat (va :: u64) + k \<le> 0x4000000000 \<Longrightarrow> unat (va + of_nat k) = unat va + k"
proof -
  assume b: "unat va + k \<le> 0x4000000000"
  have e: "va + of_nat k = word_of_nat (unat va + k)" by simp
  show ?thesis unfolding e by (rule unat_of_nat_small) (use b in simp)
qed

lemma leaf_same_page: "same_page a b \<Longrightarrow> leaf m pt a = leaf m pt b"
  by (auto simp: same_page_def leaf_def split: option.split)

lemma same_block:
  assumes "(a :: nat) mod 4096 + k < 4096"
  shows "(a + k) div 4096 = a div 4096" "(a + k) mod 4096 = a mod 4096 + k"
proof -
  have e: "a + k = (a mod 4096 + k) + 4096 * (a div 4096)" using div_mult_mod_eq [of a 4096] by linarith
  have z: "(a mod 4096 + k) div 4096 = 0" "(a mod 4096 + k) mod 4096 = a mod 4096 + k" using assms by auto
  show "(a + k) div 4096 = a div 4096" by (subst e, subst div_mult_self2) (simp_all add: z)
  show "(a + k) mod 4096 = a mod 4096 + k" by (subst e, subst mod_mult_self2) (rule z)
qed

text \<open>The addresses of a range that are in the page of its first address.\<close>

lemma first_page:
  assumes "unat va + n \<le> 0x4000000000" "k < n" "unat va mod 4096 + k < 4096"
  shows "leaf m pt (va + of_nat k) = leaf m pt va" "uaddr m pt (va + of_nat k) = uaddr m pt va + k"
proof -
  have u: "unat (va + of_nat k) = unat va + k" using assms by (intro unat_add_small) simp
  have "va < MAXVA" "va + of_nat k < MAXVA" using u assms by (simp_all add: word_less_nat_alt)
  moreover note d = same_block [OF assms(3)]
  ultimately show l: "leaf m pt (va + of_nat k) = leaf m pt va"
    using u by (intro leaf_same_page) (simp add: same_page_iff)
  show "uaddr m pt (va + of_nat k) = uaddr m pt va + k" by (simp add: uaddr_def l u d)
qed

lemma user_range_MAXVA: "user_range w s pt xs va n \<Longrightarrow> 0 < n \<Longrightarrow> va < MAXVA"
  by (simp add: user_range_def word_less_nat_alt)

lemma user_range_first: "user_range w s pt xs va n \<Longrightarrow> 0 < n \<Longrightarrow> user_byte w s pt xs va"
  by (auto simp: user_range_def dest: spec [of _ 0])

lemma user_range_rest:
  assumes "user_range w s pt xs va n" "c \<le> n"
  shows "user_range w s pt xs (va + of_nat c) (n - c)"
proof -
  have "unat (va + of_nat c) = unat va + c" using assms by (intro unat_add_small) (simp add: user_range_def)
  moreover have "user_byte w s pt xs (va + of_nat c + of_nat k)" if "k < n - c" for k
  proof -
    have "c + k < n" using that by simp
    then have "user_byte w s pt xs (va + of_nat (c + k))" using assms(1) unfolding user_range_def by blast
    then show ?thesis by (simp add: add.assoc)
  qed
  ultimately show ?thesis using assms by (simp add: user_range_def)
qed

lemma page_start:
  assumes "va < MAXVA"
  shows "PGROUNDDOWN va < MAXVA" "leaf m pt (PGROUNDDOWN va) = leaf m pt va"
proof -
  show l: "PGROUNDDOWN va < MAXVA"
    using assms PGROUNDDOWN_le [of va] by (simp add: word_less_nat_alt)
  have "unat (PGROUNDDOWN va) div 4096 = unat va div 4096" by (simp add: unat_PGROUNDDOWN)
  then show "leaf m pt (PGROUNDDOWN va) = leaf m pt va"
    using l assms by (intro leaf_same_page) (simp add: same_page_iff)
qed

lemma walkaddr_user:
  assumes pt: "page_table s pt xs" and b: "user_byte w s pt xs va" and va: "va < MAXVA"
  shows "walkaddr pt (PGROUNDDOWN va) s = Inr (PTE2PA (leaf (mem s) pt va), s)"
    "PTE2PA (leaf (mem s) pt va) \<noteq> 0"
    "unat (PTE2PA (leaf (mem s) pt va) + (va - PGROUNDDOWN va)) = uaddr (mem s) pt va"
proof -
  have g: "good_page s (PTE2PA (leaf (mem s) pt va))" using b by (simp add: user_byte_def Let_def)
  show "walkaddr pt (PGROUNDDOWN va) s = Inr (PTE2PA (leaf (mem s) pt va), s)"
    using walkaddr_leaf [OF pt] page_start [OF va] b by (simp add: user_byte_def Let_def)
  show "PTE2PA (leaf (mem s) pt va) \<noteq> 0" using g by (simp add: good_page_def)
  have "unat (PTE2PA (leaf (mem s) pt va)) + 4096 \<le> 0x88000000" using good_page_bound [OF g] by simp
  moreover have "unat va mod 4096 < 4096" by simp
  ultimately have "unat (PTE2PA (leaf (mem s) pt va)) + unat va mod 4096 < 18446744073709551616" by linarith
  then show "unat (PTE2PA (leaf (mem s) pt va) + (va - PGROUNDDOWN va)) = uaddr (mem s) pt va"
    by (simp add: unat_plus_if' unat_page_offset uaddr_def)
qed

text \<open>The length of the first piece of a copy, and what follows it.\<close>

definition first_len :: "u64 \<Rightarrow> nat \<Rightarrow> nat" where
  "first_len va n = min n (4096 - unat va mod 4096)"

lemma first_len_bounds:
  "first_len va n \<le> n" "0 < n \<Longrightarrow> 0 < first_len va n" "k < first_len va n \<Longrightarrow> unat va mod 4096 + k < 4096"
proof -
  have m: "unat va mod 4096 < 4096" by simp
  show "first_len va n \<le> n" by (simp add: first_len_def)
  show "0 < n \<Longrightarrow> 0 < first_len va n" using m by (simp add: first_len_def)
  show "k < first_len va n \<Longrightarrow> unat va mod 4096 + k < 4096"
    unfolding first_len_def min_less_iff_conj by linarith
qed

lemma piece_first_len:
  assumes "n \<le> 0x4000000000"
  shows "unat (piece va (of_nat n)) = first_len va n" "of_nat n - piece va (of_nat n) = of_nat (n - first_len va n)"
proof -
  have n: "unat (of_nat n :: u64) = n" by (rule unat_of_nat_small) (use assms in simp)
  show u: "unat (piece va (of_nat n)) = first_len va n" by (simp add: unat_piece n first_len_def)
  have "piece va (of_nat n) = of_nat (first_len va n)" unfolding u [symmetric] by simp
  then show "of_nat n - piece va (of_nat n) = of_nat (n - first_len va n)"
    using first_len_bounds(1) [where va = va and n = n] by (simp add: of_nat_diff)
qed

lemma next_piece_start:
  assumes "first_len va n < n"
  shows "PGROUNDDOWN va + 4096 = va + of_nat (first_len va n)"
proof -
  have c: "first_len va n = 4096 - unat va mod 4096" using assms by (simp add: first_len_def min_def split: if_splits)
  have m: "unat va mod 4096 < 4096" by simp
  have "va - PGROUNDDOWN va = of_nat (unat va mod 4096)"
    unfolding unat_page_offset [symmetric] by simp
  moreover have "(of_nat (4096 - unat va mod 4096) :: u64) = 4096 - of_nat (unat va mod 4096)"
    using m by (simp add: of_nat_diff)
  ultimately show ?thesis unfolding c by (simp add: algebra_simps)
qed

subsection \<open>Copying in\<close>

lemma copyin_piece:
  assumes pt: "page_table s pt xs" and r: "user_range w s pt xs va n" and n: "0 < n"
  shows "copyin pt (Local b i) va (of_nat n) s =
    copyin pt (Local (copy_bytes b i (mem s) (uaddr (mem s) pt va) (first_len va n)) (i + first_len va n))
      (PGROUNDDOWN va + 4096) (of_nat (n - first_len va n)) s"
proof -
  have nb: "n \<le> 0x4000000000" using r by (simp add: user_range_def)
  then have un: "unat (of_nat n :: u64) = n" by (intro unat_of_nat_small) simp
  then have pos: "(0 :: u64) < of_nat n" using n by (simp add: word_less_nat_alt)
  note wu = walkaddr_user [OF pt user_range_first [OF r n] user_range_MAXVA [OF r n]]
  show ?thesis
    by (subst copyin.simps) (simp add: pos wu piece_first_len [OF nb] Let_def)
qed

lemma copyin_reads:
  assumes "page_table s pt xs" "user_range w s pt xs va n"
  shows "\<exists>b'. copyin pt (Local b i) va (of_nat n) s = Inr (0, Local b' (i + n), s) \<and>
    (\<forall>k<n. b' (i + k) = mem s (uaddr (mem s) pt (va + of_nat k))) \<and>
    (\<forall>j. j < i \<or> i + n \<le> j \<longrightarrow> b' j = b j)"
  using assms(2)
proof (induction n arbitrary: b i va rule: less_induct)
  case (less n)
  show ?case
  proof (cases "n = 0")
    case True
    then show ?thesis by (subst copyin.simps) (auto intro: exI [of _ b])
  next
    case False
    then have n: "0 < n" by simp
    define c where "c = first_len va n"
    define b1 where "b1 = copy_bytes b i (mem s) (uaddr (mem s) pt va) c"
    have c: "0 < c" "c \<le> n" using first_len_bounds(1,2) [where va = va and n = n] n by (simp_all add: c_def)
    have step: "copyin pt (Local b i) va (of_nat n) s =
        copyin pt (Local b1 (i + c)) (PGROUNDDOWN va + 4096) (of_nat (n - c)) s"
      unfolding b1_def c_def by (rule copyin_piece [OF assms(1) less.prems n])
    have nb: "unat va + n \<le> 0x4000000000" using less.prems by (simp add: user_range_def)
    have here: "b1 (i + k) = mem s (uaddr (mem s) pt (va + of_nat k))" if "k < c" for k
      using that first_page(2) [OF nb _ first_len_bounds(3) [where k = k and va = va and n = n]] c
      by (simp add: b1_def c_def copy_bytes_inside)
    obtain b' where b': "copyin pt (Local b1 (i + c)) (PGROUNDDOWN va + 4096) (of_nat (n - c)) s =
          Inr (0, Local b' (i + n), s)"
      "\<And>k. k < n - c \<Longrightarrow> b' (i + c + k) = mem s (uaddr (mem s) pt (va + of_nat (c + k)))"
      "\<And>j. j < i + c \<or> i + n \<le> j \<Longrightarrow> b' j = b1 j"
    proof (cases "c = n")
      case True
      have "copyin pt (Local b1 (i + c)) (PGROUNDDOWN va + 4096) (of_nat (n - c)) s = Inr (0, Local b1 (i + n), s)"
        by (subst copyin.simps) (simp add: True)
      then show ?thesis by (rule that) (simp_all add: True)
    next
      case False
      then have v: "PGROUNDDOWN va + 4096 = va + of_nat c"
        using next_piece_start [of va n] c by (simp add: c_def)
      have "n - c < n" using c n by simp
      from less.IH [OF this user_range_rest [OF less.prems c(2)], of b1 "i + c"] c that show ?thesis
        unfolding v by (auto simp: add.assoc)
    qed
    have "b' (i + k) = mem s (uaddr (mem s) pt (va + of_nat k))" if "k < n" for k
      using that here b'(2) [of "k - c"] b'(3) [of "i + k"] c by (cases "k < c") auto
    moreover have "b' j = b j" if "j < i \<or> i + n \<le> j" for j
      using that b'(3) [of j] c by (auto simp: b1_def copy_bytes_def)
    ultimately show ?thesis using step b'(1) by auto
  qed
qed

subsection \<open>Copying out\<close>

text \<open>Writing a page that is neither a table nor free leaves the page table as it is.\<close>

lemma user_write_keeps:
  assumes pt: "page_table s pt xs" and g: "good_page s p" "p \<notin> nodes (mem s) pt" "p \<notin> set xs"
    and out: "\<And>a. a \<notin> page_bytes p \<Longrightarrow> m' a = mem s a"
  shows "page_table (s\<lparr>mem := m'\<rparr>) pt xs" "leaf m' pt = leaf (mem s) pt" "nodes m' pt = nodes (mem s) pt"
proof -
  have agree: "m' b = mem s b" if q: "q \<in> nodes (mem s) pt \<or> q \<in> set xs" and b: "b \<in> page_bytes q" for q b
  proof (rule out)
    have "good_page s q" using q page_tableD(1,4) [OF pt] by (auto simp: free_list_def)
    moreover have "q \<noteq> p" using q g by auto
    ultimately show "b \<notin> page_bytes p" using g(1) b by (intro good_page_disjoint)
  qed
  note na = nodes_agree [of "mem s" pt m', OF agree [OF disjI1]]
  show l: "leaf m' pt = leaf (mem s) pt" using na(2) by (simp add: fun_eq_iff)
  show n: "nodes m' pt = nodes (mem s) pt" using na(1) by (auto simp: nodes_def)
  have "tree m' pt" using page_tableD(3) [OF pt] na(1) by (simp add: tree_def)
  moreover have "free_list (s\<lparr>mem := m'\<rparr>) xs"
    by (rule free_list_cong_pages [OF page_tableD(1) [OF pt]]) (use agree [OF disjI2] in auto)
  ultimately show "page_table (s\<lparr>mem := m'\<rparr>) pt xs"
    using page_tableD(2,4,5) [OF pt] n by (simp add: page_table_def good_page_def)
qed

lemma first_piece_in_page:
  assumes "uaddr m pt va \<le> a" "a < uaddr m pt va + first_len va n"
  shows "a \<in> page_bytes (PTE2PA (leaf m pt va))"
proof -
  have "a - uaddr m pt va < first_len va n" using assms by linarith
  from first_len_bounds(3) [OF this] assms(1) show ?thesis by (auto simp: uaddr_def page_bytes_def)
qed

lemma copyout_piece:
  assumes pt: "page_table s pt xs" and r: "user_range True s pt xs va n" and n: "0 < n"
  shows "copyout pt va (Local b i) (of_nat n) s =
    copyout pt (PGROUNDDOWN va + 4096) (Local b (i + first_len va n)) (of_nat (n - first_len va n))
      (s\<lparr>mem := copy_bytes (mem s) (uaddr (mem s) pt va) b i (first_len va n)\<rparr>)"
proof -
  have nb: "n \<le> 0x4000000000" using r by (simp add: user_range_def)
  then have un: "unat (of_nat n :: u64) = n" by (intro unat_of_nat_small) simp
  then have pos: "(0 :: u64) < of_nat n" using n by (simp add: word_less_nat_alt)
  have ub: "user_byte True s pt xs va" and va: "va < MAXVA"
    using user_range_first [OF r n] user_range_MAXVA [OF r n] .
  note wu = walkaddr_user [OF pt ub va]
  have nl: "\<not> MAXVA \<le> PGROUNDDOWN va" using page_start(1) [OF va] by (simp add: not_le)
  have e: "leaf (mem s) pt (PGROUNDDOWN va) AND PTE_V \<noteq> 0" "leaf (mem s) pt (PGROUNDDOWN va) AND PTE_W \<noteq> 0"
    using ub page_start(2) [OF va] by (simp_all add: user_byte_def Let_def)
  then obtain q where q: "node (mem s) pt (upper (PGROUNDDOWN va)) = Some q"
    by (cases "node (mem s) pt (upper (PGROUNDDOWN va))") (auto simp: leaf_def)
  show ?thesis
    by (subst copyout.simps)
      (simp add: pos nl wu walk_noalloc [OF pt page_start(1) [OF va]] q load_leaf [OF pt q] e
        piece_first_len [OF nb] Let_def)
qed

definition uaddrs :: "bytes \<Rightarrow> u64 \<Rightarrow> u64 \<Rightarrow> nat \<Rightarrow> nat set" where
  "uaddrs m pt va n = (\<lambda>k. uaddr m pt (va + of_nat k)) ` {..<n}"

text \<open>No byte of physical memory stands for two bytes of the range.\<close>

definition unaliased :: "bytes \<Rightarrow> u64 \<Rightarrow> u64 \<Rightarrow> nat \<Rightarrow> bool" where
  "unaliased m pt va n \<longleftrightarrow> inj_on (\<lambda>k. uaddr m pt (va + of_nat k)) {..<n}"

lemma unaliased_rest:
  assumes "unaliased m pt va n" "c \<le> n"
  shows "unaliased m pt (va + of_nat c) (n - c)"
    and "uaddrs m pt (va + of_nat c) (n - c) \<subseteq> uaddrs m pt va n"
    and "k < c \<Longrightarrow> uaddr m pt (va + of_nat k) \<notin> uaddrs m pt (va + of_nat c) (n - c)"
proof -
  have s: "va + of_nat c + of_nat j = va + of_nat (c + j)" for j by (simp add: add.assoc)
  have i: "a = b" if "a < n" "b < n" "uaddr m pt (va + of_nat a) = uaddr m pt (va + of_nat b)" for a b
    using inj_onD [OF assms(1) [unfolded unaliased_def], of a b] that by simp
  show "unaliased m pt (va + of_nat c) (n - c)"
    unfolding unaliased_def inj_on_def s
  proof (intro ballI impI)
    fix a b assume "a \<in> {..<n - c}" "b \<in> {..<n - c}"
      "uaddr m pt (va + of_nat (c + a)) = uaddr m pt (va + of_nat (c + b))"
    then have "c + a = c + b" using i [of "c + a" "c + b"] by (simp add: less_diff_conv add.commute)
    then show "a = b" by simp
  qed
  show "uaddrs m pt (va + of_nat c) (n - c) \<subseteq> uaddrs m pt va n"
  proof
    fix x assume "x \<in> uaddrs m pt (va + of_nat c) (n - c)"
    then obtain j where j: "j < n - c" "x = uaddr m pt (va + of_nat (c + j))" unfolding uaddrs_def s by auto
    then have "c + j < n" by linarith
    with j(2) show "x \<in> uaddrs m pt va n" unfolding uaddrs_def by blast
  qed
  show "uaddr m pt (va + of_nat k) \<notin> uaddrs m pt (va + of_nat c) (n - c)" if k: "k < c"
  proof
    assume "uaddr m pt (va + of_nat k) \<in> uaddrs m pt (va + of_nat c) (n - c)"
    then obtain j where j: "j < n - c" "uaddr m pt (va + of_nat k) = uaddr m pt (va + of_nat (c + j))"
      unfolding uaddrs_def s by auto
    have "c + j < n" "k < n" using j(1) k assms(2) by linarith+
    then have "k = c + j" using i [of k "c + j"] j(2) by blast
    then show False using k by simp
  qed
qed

lemma first_piece_written:
  assumes pt: "page_table s pt xs" and r: "user_range True s pt xs va n" and n: "0 < n"
    and m1: "m1 = copy_bytes (mem s) (uaddr (mem s) pt va) b i (first_len va n)"
  shows "page_table (s\<lparr>mem := m1\<rparr>) pt xs" "leaf m1 pt = leaf (mem s) pt" "nodes m1 pt = nodes (mem s) pt"
    and "k < first_len va n \<Longrightarrow> m1 (uaddr (mem s) pt (va + of_nat k)) = b (i + k)"
    and "a \<notin> uaddrs (mem s) pt va n \<Longrightarrow> m1 a = mem s a"
proof -
  let ?c = "first_len va n" and ?u = "uaddr (mem s) pt"
  let ?p = "PTE2PA (leaf (mem s) pt va)"
  have c: "0 < ?c" "?c \<le> n" using first_len_bounds(1,2) [where va = va and n = n] n by simp_all
  have nb: "unat va + n \<le> 0x4000000000" using r by (simp add: user_range_def)
  have ua: "?u (va + of_nat k) = ?u va + k" if "k < ?c" for k
    using first_page(2) [OF nb, of k] first_len_bounds(3) [where k = k and va = va and n = n] that c by simp
  have gp: "good_page s ?p" "?p \<notin> nodes (mem s) pt" "?p \<notin> set xs"
    using user_range_first [OF r n] by (simp_all add: user_byte_def Let_def)
  have same: "m1 a = mem s a" if "\<not> (?u va \<le> a \<and> a < ?u va + ?c)" for a
    using that by (auto simp: m1 copy_bytes_def)
  have out: "m1 a = mem s a" if "a \<notin> page_bytes ?p" for a
    using that first_piece_in_page [of "mem s" pt va a n] by (intro same) auto
  show "page_table (s\<lparr>mem := m1\<rparr>) pt xs" "leaf m1 pt = leaf (mem s) pt" "nodes m1 pt = nodes (mem s) pt"
    by (rule user_write_keeps [OF pt gp out]; assumption)+
  show "m1 (?u (va + of_nat k)) = b (i + k)" if "k < ?c" for k
    using that by (simp add: ua m1 copy_bytes_inside)
  show "m1 a = mem s a" if a: "a \<notin> uaddrs (mem s) pt va n" for a
  proof (intro same notI, elim conjE)
    assume l: "?u va \<le> a" "a < ?u va + ?c"
    then have "a - ?u va < ?c" by linarith
    from ua [OF this] have "a = ?u (va + of_nat (a - ?u va))" using l(1) by simp
    moreover have "a - ?u va < n" using \<open>a - ?u va < ?c\<close> c(2) by linarith
    ultimately have "a \<in> uaddrs (mem s) pt va n" unfolding uaddrs_def by blast
    with a show False ..
  qed
qed

lemma copyout_writes:
  assumes "page_table s pt xs" "user_range True s pt xs va n" "unaliased (mem s) pt va n"
  shows "\<exists>m'. copyout pt va (Local b i) (of_nat n) s = Inr (0, s\<lparr>mem := m'\<rparr>) \<and>
    page_table (s\<lparr>mem := m'\<rparr>) pt xs \<and> leaf m' pt = leaf (mem s) pt \<and> nodes m' pt = nodes (mem s) pt \<and>
    (\<forall>k<n. m' (uaddr (mem s) pt (va + of_nat k)) = b (i + k)) \<and>
    (\<forall>a. a \<notin> uaddrs (mem s) pt va n \<longrightarrow> m' a = mem s a)"
  using assms
proof (induction n arbitrary: i va s rule: less_induct)
  case (less n)
  show ?case
  proof (cases "n = 0")
    case True
    then show ?thesis using less.prems(1) by (subst copyout.simps) (auto intro!: exI [of _ "mem s"])
  next
    case False
    then have n: "0 < n" by simp
    define c where "c = first_len va n"
    define m1 where "m1 = copy_bytes (mem s) (uaddr (mem s) pt va) b i c"
    let ?s1 = "s\<lparr>mem := m1\<rparr>"
    have c: "0 < c" "c \<le> n" using first_len_bounds(1,2) [where va = va and n = n] n by (simp_all add: c_def)
    have step: "copyout pt va (Local b i) (of_nat n) s =
        copyout pt (PGROUNDDOWN va + 4096) (Local b (i + c)) (of_nat (n - c)) ?s1"
      unfolding m1_def c_def by (rule copyout_piece [OF less.prems(1,2) n])
    note one = first_piece_written [OF less.prems(1,2) n m1_def [unfolded c_def], folded c_def]
    have ukeep: "uaddr m1 pt = uaddr (mem s) pt" by (simp add: fun_eq_iff uaddr_def one(2))
    show ?thesis
    proof (cases "c = n")
      case True
      have "copyout pt (PGROUNDDOWN va + 4096) (Local b (i + c)) (of_nat (n - c)) ?s1 = Inr (0, ?s1)"
        by (subst copyout.simps) (simp add: True)
      then show ?thesis using step one True by (auto intro!: exI [of _ m1])
    next
      case False
      then have v: "PGROUNDDOWN va + 4096 = va + of_nat c"
        using next_piece_start [of va n] c by (simp add: c_def)
      have ur: "user_range True ?s1 pt xs (va + of_nat c) (n - c)"
        using user_range_rest [OF less.prems(2) c(2)] one by (simp add: user_range_def user_byte_def good_page_def)
      have ul: "unaliased (mem ?s1) pt (va + of_nat c) (n - c)"
        using unaliased_rest(1) [OF less.prems(3) c(2)] by (simp add: unaliased_def ukeep)
      have "n - c < n" using c n by simp
      from less.IH [OF this one(1) ur ul, of "i + c"] obtain m' where m':
        "copyout pt (va + of_nat c) (Local b (i + c)) (of_nat (n - c)) ?s1 = Inr (0, s\<lparr>mem := m'\<rparr>)"
        "page_table (s\<lparr>mem := m'\<rparr>) pt xs" "leaf m' pt = leaf (mem s) pt" "nodes m' pt = nodes (mem s) pt"
        "\<And>k. k < n - c \<Longrightarrow> m' (uaddr (mem s) pt (va + of_nat (c + k))) = b (i + c + k)"
        "\<And>a. a \<notin> uaddrs (mem s) pt (va + of_nat c) (n - c) \<Longrightarrow> m' a = m1 a"
        using one(2,3) ukeep by (auto simp: uaddrs_def add.assoc)
      have "m' (uaddr (mem s) pt (va + of_nat k)) = b (i + k)" if "k < n" for k
      proof (cases "k < c")
        case True
        then show ?thesis
          using m'(6) unaliased_rest(3) [OF less.prems(3) c(2) True] one(4) [OF True] by simp
      next
        case False
        then show ?thesis using m'(5) [of "k - c"] that by simp
      qed
      moreover have "m' a = mem s a" if a: "a \<notin> uaddrs (mem s) pt va n" for a
        using m'(6) [of a] one(5) [OF a] a unaliased_rest(2) [OF less.prems(3) c(2)] by auto
      ultimately show ?thesis using step m' v by (auto intro!: exI [of _ m'])
    qed
  qed
qed

text \<open>
  C18: \<^verbatim>\<open>copyout\<close> to a writable user range, whatever pages it crosses, succeeds, changes the bytes of the range
  only and keeps the page table; \<^verbatim>\<open>copyin\<close> from that range then returns the bytes that were copied out.
\<close>

theorem copyout_copyin:
  assumes pt: "page_table s pt xs" and r: "user_range True s pt xs va n" and u: "unaliased (mem s) pt va n"
  shows "\<exists>s' d'. copyout pt va (Local b i) (of_nat n) s = Inr (0, s') \<and>
    copyin pt (Local d j) va (of_nat n) s' = Inr (0, Local d' (j + n), s') \<and>
    (\<forall>k<n. d' (j + k) = b (i + k)) \<and>
    page_table s' pt xs \<and> leaf (mem s') pt = leaf (mem s) pt \<and>
    (\<forall>a. a \<notin> uaddrs (mem s) pt va n \<longrightarrow> mem s' a = mem s a)"
proof -
  obtain m' where m': "copyout pt va (Local b i) (of_nat n) s = Inr (0, s\<lparr>mem := m'\<rparr>)"
    "page_table (s\<lparr>mem := m'\<rparr>) pt xs" "leaf m' pt = leaf (mem s) pt" "nodes m' pt = nodes (mem s) pt"
    "\<And>k. k < n \<Longrightarrow> m' (uaddr (mem s) pt (va + of_nat k)) = b (i + k)"
    "\<And>a. a \<notin> uaddrs (mem s) pt va n \<Longrightarrow> m' a = mem s a"
    using copyout_writes [OF assms, of b i] by blast
  have "user_range True (s\<lparr>mem := m'\<rparr>) pt xs va n"
    using r m'(3,4) by (simp add: user_range_def user_byte_def good_page_def)
  from copyin_reads [OF m'(2) this, of d j] obtain d' where
    "copyin pt (Local d j) va (of_nat n) (s\<lparr>mem := m'\<rparr>) = Inr (0, Local d' (j + n), s\<lparr>mem := m'\<rparr>)"
    "\<And>k. k < n \<Longrightarrow> d' (j + k) = m' (uaddr m' pt (va + of_nat k))" by auto
  moreover have "uaddr m' pt = uaddr (mem s) pt" by (simp add: fun_eq_iff uaddr_def m'(3))
  ultimately show ?thesis
    using m' by (intro exI [of _ "s\<lparr>mem := m'\<rparr>"] exI [of _ d']) simp
qed

lemma one_page_range: "n \<le> 4096 \<Longrightarrow> user_range True one_page 0x80021000 [] 0 n"
proof -
  assume n: "n \<le> 4096"
  have "user_byte True one_page 0x80021000 [] (of_nat k)" if "k < n" for k
  proof -
    have u: "unat (of_nat k :: u64) = k" using that n by (intro unat_of_nat_small) simp
    then have "leaf (mem one_page) 0x80021000 (of_nat k) = PA2PTE 0x80024000 OR 0x17"
      using that n by (subst one_page_leaf) (simp_all add: word_less_nat_alt)
    then show ?thesis using one_page_nodes by (simp add: user_byte_def one_page_def good_page_def Let_def PA2PTE_def PTE2PA_def)
  qed
  then show ?thesis using n by (simp add: user_range_def)
qed

lemma one_page_unaliased: "n \<le> 4096 \<Longrightarrow> unaliased (mem one_page) 0x80021000 0 n"
proof -
  assume n: "n \<le> 4096"
  have "uaddr (mem one_page) 0x80021000 (0 + of_nat k) = uaddr (mem one_page) 0x80021000 0 + k" if "k < n" for k
    by (rule first_page(2) [where n = n]) (use n that in simp_all)
  then show ?thesis by (simp add: unaliased_def inj_on_def)
qed

theorem copyout_copyin_witness:
  "\<exists>s' d'. copyout 0x80021000 0 (Local (\<lambda>k. of_nat k) 0) (of_nat 5) one_page = Inr (0, s') \<and>
    copyin 0x80021000 (Local (\<lambda>_. 0) 0) 0 (of_nat 5) s' = Inr (0, Local d' 5, s') \<and> d' 4 = 4"
proof -
  from copyout_copyin [OF one_page_table one_page_range one_page_unaliased, of 5 "\<lambda>k. of_nat k" 0 "\<lambda>_. 0" 0]
  obtain s' d' where
    "copyout 0x80021000 0 (Local (\<lambda>k. of_nat k) 0) (of_nat 5) one_page = Inr (0, s')"
    "copyin 0x80021000 (Local (\<lambda>_. 0) 0) 0 (of_nat 5) s' = Inr (0, Local d' (0 + 5), s')"
    "\<And>k. k < 5 \<Longrightarrow> d' (0 + k) = of_nat (0 + k)" by auto
  then show ?thesis by (intro exI [of _ s'] exI [of _ d']) auto
qed

end
