(* ===== verification/Pipe_Queue.thy ===== *)
theory Pipe_Queue
  imports Pipe Ring Vm_Copy
begin

text \<open>
  A pipe is a queue of at most \<^verbatim>\<open>PIPESIZE\<close> bytes: what the loops of \<^verbatim>\<open>pipewrite\<close> and \<^verbatim>\<open>piperead\<close> do
  to the queue and to user memory, for any value of the wrapping counters, and that bytes are read
  in the order in which they were written, whatever pieces the calls are cut into by sleeping.
\<close>

subsection \<open>The queue of a pipe\<close>

definition pipe_bytes :: "pipe \<Rightarrow> byte list" where
  "pipe_bytes p = ring PIPESIZE (pi_data p) (pi_nread p) (pi_nwrite p)"

definition pipe_ok :: "pipe \<Rightarrow> bool" where
  "pipe_ok p \<longleftrightarrow> unat (pi_nwrite p - pi_nread p) \<le> PIPESIZE"

lemma PIPESIZE_dvd: "PIPESIZE dvd 2 ^ 32" "PIPESIZE < 2 ^ 32"
  by simp_all

lemma pipe_full_iff: "pipe_full p \<longleftrightarrow> unat (pi_nwrite p - pi_nread p) = PIPESIZE"
proof -
  have "pipe_full p \<longleftrightarrow> pi_nwrite p - pi_nread p = 512" by (auto simp: pipe_full_def algebra_simps)
  also have "\<dots> \<longleftrightarrow> unat (pi_nwrite p - pi_nread p) = unat (512 :: u32)" by (rule word_unat_eq_iff)
  finally show ?thesis by simp
qed

lemma pipe_get_ok:
  assumes "pipe_ok q" "pipe_bytes q \<noteq> []"
  shows "pipe_ok (pipe_get q) \<and> pipe_bytes q = pipe_front q # pipe_bytes (pipe_get q)"
proof -
  have "pi_nwrite q \<noteq> pi_nread q" using assms(2) by (auto simp: pipe_bytes_def)
  from ring_get [OF this, of PIPESIZE "pi_data q"]
  have e: "pipe_bytes q = pipe_front q # pipe_bytes (pipe_get q)"
    by (simp add: pipe_bytes_def pipe_front_def pipe_get_def)
  from arg_cong [OF this, of length] have "length (pipe_bytes (pipe_get q)) \<le> length (pipe_bytes q)" by simp
  then have "pipe_ok (pipe_get q)"
    using assms(1) by (simp add: pipe_ok_def pipe_bytes_def pipe_get_def)
  with e show ?thesis by blast
qed

interpretation pipe: bounded_queue pipe_ok pipe_bytes PIPESIZE pipe_put pipe_front pipe_get pipe_full pipe_empty
proof
  fix q and c
  show "pipe_ok q \<Longrightarrow> length (pipe_bytes q) \<le> PIPESIZE" by (simp add: pipe_ok_def pipe_bytes_def)
  show "pipe_full q \<longleftrightarrow> length (pipe_bytes q) = PIPESIZE" by (simp add: pipe_full_iff pipe_bytes_def)
  show "pipe_empty q \<longleftrightarrow> pipe_bytes q = []" by (auto simp: pipe_empty_def pipe_bytes_def ring_empty_iff)
  show "pipe_ok (pipe_put c q) \<and> pipe_bytes (pipe_put c q) = pipe_bytes q @ [c]"
    if "length (pipe_bytes q) < PIPESIZE"
    using that ring_put [OF PIPESIZE_dvd, of "pi_nwrite q" "pi_nread q" "pi_data q" c]
      unat_next [OF _ PIPESIZE_dvd(2), of "pi_nwrite q" "pi_nread q"]
    by (simp add: pipe_ok_def pipe_bytes_def pipe_put_def)
  show "pipe_ok (pipe_get q) \<and> pipe_bytes q = pipe_front q # pipe_bytes (pipe_get q)"
    if "pipe_ok q" "pipe_bytes q \<noteq> []" using that by (rule pipe_get_ok)
qed

subsection \<open>Writing\<close>

lemma killed_eq: "no_plocks s \<Longrightarrow> killed p s = Inr (p_killed (procs s p), s)"
  by (simp add: killed_def no_plocks_def)

definition ubyte :: "kstate \<Rightarrow> u64 \<Rightarrow> u64 \<Rightarrow> nat \<Rightarrow> byte" where
  "ubyte s pt va k = mem s (uaddr (mem s) pt (va + of_nat k))"

lemma user_range_part:
  assumes "user_range w s pt xs va n" "k + m \<le> n"
  shows "user_range w s pt xs (va + of_nat k) m"
proof -
  have "user_range w s pt xs (va + of_nat k) (n - k)" using assms by (intro user_range_rest) simp_all
  then show ?thesis using assms(2) by (auto simp: user_range_def)
qed

lemma copyin_byte:
  assumes "page_table s pt xs" "user_range w s pt xs va n" "k < n"
  shows "\<exists>b. copyin pt (Local (\<lambda>_. 0) 0) (va + word_of_int (int k)) 1 s = Inr (0, Local b 1, s) \<and> b 0 = ubyte s pt va k"
  using copyin_reads [OF assms(1) user_range_part [OF assms(2), of k 1], of "\<lambda>_. 0" 0] assms(3)
  by (auto simp: ubyte_def)

text \<open>The state after the bytes \<open>bs\<close> were put into the pipe and its readers were woken.\<close>

definition wrote :: "u64 \<Rightarrow> byte list \<Rightarrow> spin list \<Rightarrow> kstate \<Rightarrow> kstate" where
  "wrote pi bs hs s = s\<lparr>pipes := (pipes s)(pi := fold pipe_put bs (pipes s pi)),
     procs := woken (Chan_piperd pi) 0 (cur s) (procs s), held := hs\<rparr>"

lemma page_table_mem:
  assumes "mem s' = mem s" "freelist s' = freelist s" "kend s' = kend s" "Lk_kmem \<notin> set (held s')"
  shows "page_table s pt xs \<Longrightarrow> page_table s' pt xs"
    "user_range w s' pt xs va n = user_range w s pt xs va n"
  using assms by (simp_all add: page_table_def free_list_def good_page_def user_range_def user_byte_def)

lemma pipe_put_open [simp]:
  "pi_readopen (pipe_put c p) = pi_readopen p" "pi_writeopen (pipe_put c p) = pi_writeopen p"
  by (simp_all add: pipe_put_def)

lemma pipewrite_loop_spec:
  assumes "held s = [Lk_pipe pi]" "pi_readopen (pipes s pi)" "\<not> p_killed (myproc s)" "pipe_ok (pipes s pi)"
    "page_table s (p_pagetable (myproc s)) xs" "user_range w s (p_pagetable (myproc s)) xs va n" "k \<le> n"
    "j = min n (k + (PIPESIZE - length (pipe_bytes (pipes s pi))))"
  shows "pipewrite_loop pi va (int n) (int k) s =
    Inr (if j = n then Done (int n) else Blocked (int j),
         wrote pi (map (ubyte s (p_pagetable (myproc s)) va) [k..<j]) (if j = n then [] else [Lk_pipe pi]) s)"
  using assms
proof (induction "n - k" arbitrary: k s)
  case 0
  then have k: "k = n" "j = n" by simp_all
  have "no_plocks s" using 0(2) by (simp add: no_plocks_def)
  then show ?case using 0(2) k by (subst pipewrite_loop.simps) (simp add: wakeup_eq wrote_def)
next
  case (Suc d)
  then have k: "k < n" by simp
  have np: "no_plocks s" using Suc.prems(1) by (simp add: no_plocks_def)
  let ?pt = "p_pagetable (myproc s)"
  show ?case
  proof (cases "pipe_full (pipes s pi)")
    case True
    then have "length (pipe_bytes (pipes s pi)) = PIPESIZE" using Suc.prems(4) pipe.full_iff by blast
    then have "j = k" using Suc.prems(8) k by simp
    then show ?thesis using True k Suc.prems(1-3) np
      by (subst pipewrite_loop.simps) (simp add: killed_eq wakeup_eq wrote_def)
  next
    case False
    then have room: "length (pipe_bytes (pipes s pi)) < PIPESIZE" using Suc.prems(4) pipe.not_full by blast
    let ?c = "ubyte s ?pt va k" and ?s1 = "set_pipe pi (pipe_put (ubyte s ?pt va k)) s"
    obtain b where b: "copyin ?pt (Local (\<lambda>_. 0) 0) (va + word_of_int (int k)) 1 s = Inr (0, Local b 1, s)" "b 0 = ?c"
      using copyin_byte [OF Suc.prems(5,6) k] by blast
    have s1: "procs ?s1 = procs s" "cur ?s1 = cur s" "held ?s1 = held s" "mem ?s1 = mem s" "freelist ?s1 = freelist s"
      "kend ?s1 = kend s" "pipes ?s1 pi = pipe_put ?c (pipes s pi)" "ubyte ?s1 = ubyte s"
      by (simp_all add: set_pipe_def ubyte_def fun_eq_iff)
    note put = pipe.put [OF Suc.prems(4) room, of ?c]
    have pt: "page_table ?s1 (p_pagetable (myproc ?s1)) xs" "user_range w ?s1 (p_pagetable (myproc ?s1)) xs va n"
      using page_table_mem [of ?s1 s] Suc.prems(1,5,6) s1 by simp_all
    have "pipewrite_loop pi va (int n) (int k) s = pipewrite_loop pi va (int n) (int (Suc k)) ?s1"
      using False k Suc.prems(1-3) np b by (subst pipewrite_loop.simps) (simp add: killed_eq add.commute)
    also have "\<dots> = Inr (if j = n then Done (int n) else Blocked (int j),
         wrote pi (map (ubyte ?s1 (p_pagetable (myproc ?s1)) va) [Suc k..<j]) (if j = n then [] else [Lk_pipe pi]) ?s1)"
      using Suc.hyps(2) Suc.prems(1-3,8) k room s1 put pt by (intro Suc.hyps(1)) auto
    also have "[k..<j] = k # [Suc k..<j]" using Suc.prems(8) k room by (simp add: upt_conv_Cons)
    ultimately show ?thesis unfolding s1 by (simp add: wrote_def set_pipe_def)
  qed
qed

subsection \<open>Reading\<close>

lemma copyout_byte:
  assumes "page_table s pt xs" "user_range True s pt xs va n" "k < n"
  shows "\<exists>m. copyout pt (va + word_of_int (int k)) (Local (\<lambda>_. c) 0) 1 s = Inr (0, s\<lparr>mem := m\<rparr>) \<and>
    page_table (s\<lparr>mem := m\<rparr>) pt xs \<and> leaf m pt = leaf (mem s) pt \<and> nodes m pt = nodes (mem s) pt \<and>
    m = (mem s)(uaddr (mem s) pt (va + of_nat k) := c)"
proof -
  have u: "unaliased (mem s) pt (va + of_nat k) 1" by (simp add: unaliased_def inj_on_def)
  have a: "uaddrs (mem s) pt (va + of_nat k) 1 = {uaddr (mem s) pt (va + of_nat k)}" by (simp add: uaddrs_def lessThan_Suc)
  obtain m where m: "copyout pt (va + of_nat k) (Local (\<lambda>_. c) 0) (of_nat 1) s = Inr (0, s\<lparr>mem := m\<rparr>)"
    "page_table (s\<lparr>mem := m\<rparr>) pt xs" "leaf m pt = leaf (mem s) pt" "nodes m pt = nodes (mem s) pt"
    "m (uaddr (mem s) pt (va + of_nat k)) = c"
    "\<And>x. x \<noteq> uaddr (mem s) pt (va + of_nat k) \<Longrightarrow> m x = mem s x"
    using copyout_writes [OF assms(1) user_range_part [OF assms(2), of k 1] u, of "\<lambda>_. c" 0] assms(3)
    unfolding a by auto
  then have "m = (mem s)(uaddr (mem s) pt (va + of_nat k) := c)" by (simp add: fun_eq_iff)
  with m show ?thesis by auto
qed

text \<open>The memory after the bytes \<open>cs\<close> were stored at the addresses \<open>A k\<close>, \<open>A (k + 1)\<close> and so on.\<close>

fun ustore :: "(nat \<Rightarrow> nat) \<Rightarrow> nat \<Rightarrow> byte list \<Rightarrow> bytes \<Rightarrow> bytes" where
  "ustore A k [] m = m"
| "ustore A k (c # cs) m = ustore A (Suc k) cs (m(A k := c))"

lemma ustore_outside: "a \<notin> A ` {k..<k + length cs} \<Longrightarrow> ustore A k cs m a = m a"
proof (induction cs arbitrary: k m)
  case (Cons c cs)
  then have "a \<noteq> A k" "a \<notin> A ` {Suc k..<Suc k + length cs}" by auto
  then show ?case using Cons.IH [of "Suc k"] by simp
qed simp

lemma ustore_inside:
  "inj_on A {..<n} \<Longrightarrow> k + length cs \<le> n \<Longrightarrow> i < length cs \<Longrightarrow> ustore A k cs m (A (k + i)) = cs ! i"
proof (induction cs arbitrary: k i m)
  case (Cons c cs)
  show ?case
  proof (cases i)
    case 0
    have "A k \<notin> A ` {Suc k..<Suc k + length cs}"
      using inj_onD [OF Cons.prems(1)] Cons.prems(2) by fastforce
    then show ?thesis using 0 ustore_outside [of "A k" A "Suc k" cs] by simp
  next
    case (Suc j)
    then show ?thesis using Cons.IH [of "Suc k" j] Cons.prems by simp
  qed
qed simp

abbreviation uaddr_of :: "kstate \<Rightarrow> u64 \<Rightarrow> nat \<Rightarrow> nat" where
  "uaddr_of s va i \<equiv> uaddr (mem s) (p_pagetable (myproc s)) (va + of_nat i)"

definition took :: "u64 \<Rightarrow> u64 \<Rightarrow> nat \<Rightarrow> byte list \<Rightarrow> kstate \<Rightarrow> kstate" where
  "took pi va k cs s = s\<lparr>pipes := (pipes s)(pi := (pipe_get ^^ length cs) (pipes s pi)),
     mem := ustore (uaddr_of s va) k cs (mem s)\<rparr>"

lemma piperead_loop_spec:
  assumes "Lk_kmem \<notin> set (held s)" "pipe_ok (pipes s pi)"
    "page_table s (p_pagetable (myproc s)) xs" "user_range True s (p_pagetable (myproc s)) xs va n" "k \<le> n"
    "cs = take (n - k) (pipe_bytes (pipes s pi))"
  shows "piperead_loop pi va (int n) (int k) s = Inr (int (k + length cs), took pi va k cs s) \<and>
    page_table (took pi va k cs s) (p_pagetable (myproc s)) xs \<and>
    leaf (mem (took pi va k cs s)) (p_pagetable (myproc s)) = leaf (mem s) (p_pagetable (myproc s))"
  using assms
proof (induction "n - k" arbitrary: k s cs)
  case 0
  then show ?case by (subst piperead_loop.simps) (simp add: took_def)
next
  case (Suc d)
  then have k: "k < n" by simp
  let ?p = "pipes s pi" and ?pt = "p_pagetable (myproc s)"
  show ?case
  proof (cases "pipe_empty ?p")
    case True
    then have "pipe_bytes ?p = []" using Suc.prems(2) pipe.empty_iff by blast
    then show ?thesis using True k Suc.prems(3,6) by (subst piperead_loop.simps) (simp add: took_def)
  next
    case False
    then have ne: "pipe_bytes ?p \<noteq> []" using Suc.prems(2) pipe.empty_iff by blast
    note get = pipe.get [OF Suc.prems(2) ne]
    let ?s1 = "set_pipe pi pipe_get s" and ?m1 = "(mem s)(uaddr (mem s) ?pt (va + of_nat k) := pipe_front ?p)"
    let ?s2 = "?s1\<lparr>mem := ?m1\<rparr>" and ?cs = "take (n - Suc k) (pipe_bytes (pipe_get ?p))"
    have s1: "page_table ?s1 ?pt xs" "user_range True ?s1 ?pt xs va n"
      using page_table_mem [of ?s1 s] Suc.prems(1,3,4) by (simp_all add: set_pipe_def)
    have m1: "mem ?s1 = mem s" by (simp add: set_pipe_def)
    from copyout_byte [OF s1 k, of "pipe_front ?p"]
    have c: "copyout ?pt (va + word_of_int (int k)) (Local (\<lambda>_. pipe_front ?p) 0) 1 ?s1 = Inr (0, ?s2)"
      "page_table ?s2 ?pt xs" "leaf ?m1 ?pt = leaf (mem s) ?pt" "nodes ?m1 ?pt = nodes (mem s) ?pt"
      unfolding m1 by auto
    have s2: "Lk_kmem \<notin> set (held ?s2)" "pipe_ok (pipes ?s2 pi)" "page_table ?s2 (p_pagetable (myproc ?s2)) xs"
      "user_range True ?s2 (p_pagetable (myproc ?s2)) xs va n" "?cs = take (n - Suc k) (pipe_bytes (pipes ?s2 pi))"
      using Suc.prems(1,4) get c by (simp_all add: set_pipe_def user_range_def user_byte_def good_page_def)
    have cs: "cs = pipe_front ?p # ?cs" using Suc.prems(6) get Suc_diff_Suc [OF k] by (metis take_Suc_Cons)
    have "piperead_loop pi va (int n) (int k) s = piperead_loop pi va (int n) (int (Suc k)) ?s2"
      using False k c(1) by (subst piperead_loop.simps) (simp add: set_pipe_def add.commute)
    moreover have "took pi va k cs s = took pi va (Suc k) ?cs ?s2"
      unfolding cs using c(3) by (simp add: took_def set_pipe_def funpow_swap1 uaddr_def)
    moreover note Suc.hyps(1) [OF _ s2(1-4) _ s2(5)]
    ultimately show ?thesis
      using Suc.hyps(2) k c(3) by (simp add: cs set_pipe_def)
  qed
qed

lemma took_held: "took pi va k cs (s\<lparr>held := h\<rparr>) = (took pi va k cs s)\<lparr>held := h\<rparr>"
  by (simp add: took_def)

lemma took_frame [simp]: "held (took pi va k cs s) = held s" "cur (took pi va k cs s) = cur s" "procs (took pi va k cs s) = procs s"
  by (simp_all add: took_def)

lemma piperead_spec:
  assumes "held s = []" "pipe_ok (pipes s pi)" "page_table s (p_pagetable (myproc s)) xs"
    "user_range True s (p_pagetable (myproc s)) xs va n"
    "\<not> (pipe_empty (pipes s pi) \<and> pi_writeopen (pipes s pi))" "cs = take n (pipe_bytes (pipes s pi))"
  shows "piperead pi va (int n) s =
      Inr (int (length cs), (took pi va 0 cs s)\<lparr>procs := woken (Chan_pipewr pi) 0 (cur s) (procs s)\<rparr>)"
    "leaf (mem (took pi va 0 cs s)) (p_pagetable (myproc s)) = leaf (mem s) (p_pagetable (myproc s))"
proof -
  let ?s = "s\<lparr>held := [Lk_pipe pi]\<rparr>"
  have l: "piperead_loop pi va (int n) (int 0) ?s = Inr (int (0 + length cs), took pi va 0 cs ?s) \<and>
    page_table (took pi va 0 cs ?s) (p_pagetable (myproc ?s)) xs \<and>
    leaf (mem (took pi va 0 cs ?s)) (p_pagetable (myproc ?s)) = leaf (mem ?s) (p_pagetable (myproc ?s))"
    using assms page_table_mem [of ?s s] by (intro piperead_loop_spec) simp_all
  have "no_plocks (took pi va 0 cs ?s)" by (simp add: no_plocks_def)
  then have w: "wakeup (Chan_pipewr pi) (took pi va 0 cs ?s) =
      Inr ((took pi va 0 cs ?s)\<lparr>procs := woken (Chan_pipewr pi) 0 (cur s) (procs s)\<rparr>)"
    by (simp add: wakeup_eq)
  have r: "release (Lk_pipe pi) ((took pi va 0 cs ?s)\<lparr>procs := woken (Chan_pipewr pi) 0 (cur s) (procs s)\<rparr>) =
      Inr ((took pi va 0 cs s)\<lparr>procs := woken (Chan_pipewr pi) 0 (cur s) (procs s)\<rparr>)"
    using assms(1) by (simp add: took_def)
  show "piperead pi va (int n) s =
      Inr (int (length cs), (took pi va 0 cs s)\<lparr>procs := woken (Chan_pipewr pi) 0 (cur s) (procs s)\<rparr>)"
    using conjunct1 [OF l] w r assms(1,5) by (auto simp: piperead_def)
  from l show "leaf (mem (took pi va 0 cs s)) (p_pagetable (myproc s)) = leaf (mem s) (p_pagetable (myproc s))"
    by (simp add: took_def)
qed

lemma pipe_bytes_gets:
  "pipe_ok p \<Longrightarrow> k \<le> length (pipe_bytes p) \<Longrightarrow>
     pipe_ok ((pipe_get ^^ k) p) \<and> pipe_bytes ((pipe_get ^^ k) p) = drop k (pipe_bytes p)"
proof (induction k)
  case (Suc k)
  then have i: "pipe_ok ((pipe_get ^^ k) p)" "pipe_bytes ((pipe_get ^^ k) p) = drop k (pipe_bytes p)" by simp_all
  then have "pipe_bytes ((pipe_get ^^ k) p) \<noteq> []" using Suc.prems(2) by simp
  from pipe.get [OF i(1) this] i(2) Suc.prems(2) show ?case
    by (simp add: Cons_nth_drop_Suc [symmetric])
qed simp

lemma pipe_bytes_puts:
  "pipe_ok p \<Longrightarrow> length (pipe_bytes p) + length bs \<le> PIPESIZE \<Longrightarrow>
     pipe_ok (fold pipe_put bs p) \<and> pipe_bytes (fold pipe_put bs p) = pipe_bytes p @ bs"
proof (induction bs arbitrary: p)
  case (Cons b bs)
  then have "length (pipe_bytes p) < PIPESIZE" by simp
  from pipe.put [OF Cons.prems(1) this, of b] Cons.IH [of "pipe_put b p"] Cons.prems(2) show ?case by simp
qed simp

lemma piperead_stores:
  assumes "unaliased (mem s) (p_pagetable (myproc s)) va n" "length cs \<le> n"
    "leaf (mem (took pi va 0 cs s)) (p_pagetable (myproc s)) = leaf (mem s) (p_pagetable (myproc s))"
  shows "map (ubyte (took pi va 0 cs s) (p_pagetable (myproc s)) va) [0..<length cs] = cs"
proof (rule nth_equalityI)
  fix i assume i: "i < length (map (ubyte (took pi va 0 cs s) (p_pagetable (myproc s)) va) [0..<length cs])"
  have "inj_on (uaddr_of s va) {..<n}" using assms(1) by (simp add: unaliased_def)
  from ustore_inside [OF this, of 0 cs i "mem s"] assms(2) i
  have "ustore (uaddr_of s va) 0 cs (mem s) (uaddr_of s va i) = cs ! i" by simp
  moreover have "uaddr (mem (took pi va 0 cs s)) (p_pagetable (myproc s)) = uaddr (mem s) (p_pagetable (myproc s))"
    using assms(3) by (simp add: fun_eq_iff uaddr_def)
  ultimately show "map (ubyte (took pi va 0 cs s) (p_pagetable (myproc s)) va) [0..<length cs] ! i = cs ! i"
    using i by (simp add: ubyte_def) (simp add: took_def)
qed simp

subsection \<open>Runs\<close>

text \<open>How far a run of the loop of \<^verbatim>\<open>pipewrite\<close> that started at byte \<open>k\<close> came.\<close>

fun written :: "nat \<Rightarrow> int progress \<Rightarrow> nat" where
  "written k (Done v) = (if v < 0 then k else nat v)"
| "written k (Blocked i) = nat i"

lemma pipewrite_loop_stop:
  assumes "held s = [Lk_pipe pi]" "\<not> pi_readopen (pipes s pi) \<or> p_killed (myproc s)" "k < n"
  shows "pipewrite_loop pi va (int n) (int k) s = Inr (Done (-1), s\<lparr>held := []\<rparr>)"
proof -
  have "no_plocks s" using assms(1) by (simp add: no_plocks_def)
  then show ?thesis using assms by (subst pipewrite_loop.simps) (auto simp: killed_eq)
qed

text \<open>
  The life of a pipe: \<open>sent\<close> are the bytes of user memory that runs of the loop of \<^verbatim>\<open>pipewrite\<close> took,
  \<open>got\<close> the bytes that calls of \<^verbatim>\<open>piperead\<close> left in user memory. Between them other code runs.
\<close>

inductive pipe_run :: "u64 \<Rightarrow> byte list \<Rightarrow> byte list \<Rightarrow> kstate \<Rightarrow> bool" for pi where
  fresh: "pi_nread (pipes s pi) = pi_nwrite (pipes s pi) \<Longrightarrow> pipe_run pi [] [] s"
| elsewhere: "pipe_run pi sent got s \<Longrightarrow> pipes s' pi = pipes s pi \<Longrightarrow> pipe_run pi sent got s'"
| put_some: "pipe_run pi sent got s \<Longrightarrow> held s = [Lk_pipe pi] \<Longrightarrow>
    page_table s (p_pagetable (myproc s)) xs \<Longrightarrow> user_range w s (p_pagetable (myproc s)) xs va n \<Longrightarrow> k \<le> n \<Longrightarrow>
    pipewrite_loop pi va (int n) (int k) s = Inr (r, s') \<Longrightarrow>
    pipe_run pi (sent @ map (ubyte s (p_pagetable (myproc s)) va) [k..<written k r]) got s'"
| get_some: "pipe_run pi sent got s \<Longrightarrow> held s = [] \<Longrightarrow>
    page_table s (p_pagetable (myproc s)) xs \<Longrightarrow> user_range True s (p_pagetable (myproc s)) xs va n \<Longrightarrow>
    unaliased (mem s) (p_pagetable (myproc s)) va n \<Longrightarrow> piperead pi va (int n) s = Inr (v, s') \<Longrightarrow>
    pipe_run pi sent (got @ map (ubyte s' (p_pagetable (myproc s)) va) [0..<nat v]) s'"

lemma write_step:
  assumes "held s = [Lk_pipe pi]" "pipe_ok (pipes s pi)" "page_table s (p_pagetable (myproc s)) xs"
    "user_range w s (p_pagetable (myproc s)) xs va n" "k \<le> n" "pipewrite_loop pi va (int n) (int k) s = Inr (r, s')"
  shows "pipe_ok (pipes s' pi) \<and> pipe_bytes (pipes s' pi) =
    pipe_bytes (pipes s pi) @ map (ubyte s (p_pagetable (myproc s)) va) [k..<written k r]"
proof (cases "k < n \<and> (\<not> pi_readopen (pipes s pi) \<or> p_killed (myproc s))")
  case True
  then show ?thesis using pipewrite_loop_stop [OF assms(1), of k n va] assms(2,6) by auto
next
  case False
  define j where "j = min n (k + (PIPESIZE - length (pipe_bytes (pipes s pi))))"
  show ?thesis
  proof (cases "k < n")
    case True
    have "pipe_ok (pipes s pi) \<Longrightarrow> length (pipe_bytes (pipes s pi)) \<le> PIPESIZE" by (rule pipe.bound)
    moreover from pipewrite_loop_spec [OF assms(1) _ _ assms(2-5) j_def] False True assms(6)
    have "written k r = j" "pipes s' pi = fold pipe_put (map (ubyte s (p_pagetable (myproc s)) va) [k..<j]) (pipes s pi)"
      by (auto simp: wrote_def)
    ultimately show ?thesis using pipe_bytes_puts [OF assms(2)] assms(2) by (auto simp: j_def)
  next
    case False
    have "no_plocks s" using assms(1) by (simp add: no_plocks_def)
    then show ?thesis using False assms
      by (subst (asm) pipewrite_loop.simps) (auto simp: wakeup_eq)
  qed
qed

lemma read_step:
  assumes "held s = []" "pipe_ok (pipes s pi)" "page_table s (p_pagetable (myproc s)) xs"
    "user_range True s (p_pagetable (myproc s)) xs va n" "unaliased (mem s) (p_pagetable (myproc s)) va n"
    "piperead pi va (int n) s = Inr (v, s')"
  shows "pipe_ok (pipes s' pi) \<and>
    pipe_bytes (pipes s pi) = map (ubyte s' (p_pagetable (myproc s)) va) [0..<nat v] @ pipe_bytes (pipes s' pi)"
proof (cases "pipe_empty (pipes s pi) \<and> pi_writeopen (pipes s pi)")
  case True
  have "no_plocks (s\<lparr>held := [Lk_pipe pi]\<rparr>)" by (simp add: no_plocks_def)
  then show ?thesis using True assms(1,2,6) by (auto simp: piperead_def killed_eq split: if_splits)
next
  case False
  define cs where "cs = take n (pipe_bytes (pipes s pi))"
  note sp = piperead_spec [OF assms(1-4) False cs_def]
  have s': "v = int (length cs)" "s' = (took pi va 0 cs s)\<lparr>procs := woken (Chan_pipewr pi) 0 (cur s) (procs s)\<rparr>"
    using sp(1) assms(6) by simp_all
  have "ubyte s' = ubyte (took pi va 0 cs s)" by (simp add: s'(2) ubyte_def fun_eq_iff)
  moreover have "length cs \<le> n" by (simp add: cs_def)
  ultimately have "map (ubyte s' (p_pagetable (myproc s)) va) [0..<nat v] = cs"
    using piperead_stores [OF assms(5) _ sp(2)] s'(1) by simp
  moreover have "pipes s' pi = (pipe_get ^^ length cs) (pipes s pi)" by (simp add: s'(2) took_def)
  ultimately show ?thesis
    using pipe_bytes_gets [OF assms(2), of "length cs"] by (simp add: cs_def min_def)
qed

subsection \<open>Properties\<close>

text \<open>
  An example state: the address space \<open>one_page\<close> for every process, and a pipe at \<open>0x80025000\<close>
  whose counters are about to wrap around.
\<close>

definition pipe_example :: "u32 \<Rightarrow> spin list \<Rightarrow> kstate" where
  "pipe_example n hs = one_page\<lparr>procs := (\<lambda>_. proc0\<lparr>p_pagetable := 0x80021000, p_state := RUNNING\<rparr>), held := hs,
     pipes := (\<lambda>_. \<lparr>pi_data = (\<lambda>_. 0), pi_nread = 0xffffffff, pi_nwrite = 0xffffffff + n,
                    pi_readopen = True, pi_writeopen = True\<rparr>)\<rparr>"

lemma pipe_example_simps [simp]:
  "held (pipe_example n hs) = hs" "cur (pipe_example n hs) = 0" "mem (pipe_example n hs) = mem one_page"
  "p_pagetable (procs (pipe_example n hs) p) = 0x80021000" "\<not> p_killed (procs (pipe_example n hs) p)"
  "pi_readopen (pipes (pipe_example n hs) pi)"
  "pi_nread (pipes (pipe_example n hs) pi) = 0xffffffff" "pi_nwrite (pipes (pipe_example n hs) pi) = 0xffffffff + n"
  "p_state (procs (pipe_example n hs) p) = RUNNING"
  by (simp_all add: pipe_example_def one_page_def proc0_def)

lemma pipe_example_user:
  "Lk_kmem \<notin> set hs \<Longrightarrow> page_table (pipe_example n hs) 0x80021000 []"
  "k \<le> 4096 \<Longrightarrow> user_range True (pipe_example n hs) 0x80021000 [] 0 k"
  "k \<le> 4096 \<Longrightarrow> unaliased (mem (pipe_example n hs)) 0x80021000 0 k"
  using page_table_mem [of "pipe_example n hs" one_page] one_page_table one_page_range one_page_unaliased
  by (auto simp: pipe_example_def user_range_def user_byte_def good_page_def one_page_def)



text \<open>
  C21: a writer that sleeps because the pipe is full does not miss the wakeup: the first \<^verbatim>\<open>piperead\<close>
  of a positive length by another process succeeds, returns at least one byte and leaves the writer
  runnable.
\<close>

theorem pipe_reader_wakes_writer:
  assumes sleep: "sleep_enter (Chan_pipewr pi) (Lk_pipe pi) s1 = Inr s2" and me: "cur s1 < NPROC" "cur s \<noteq> cur s1"
    and s: "procs s (cur s1) = procs s2 (cur s1)" "pipe_full (pipes s pi)" "pipe_ok (pipes s pi)" "held s = []"
    and mem: "page_table s (p_pagetable (myproc s)) xs" "user_range True s (p_pagetable (myproc s)) xs va n" "0 < n"
  shows "\<exists>v s'. piperead pi va (int n) s = Inr (v, s') \<and> 0 < v \<and> p_state (procs s' (cur s1)) = RUNNABLE"
proof -
  have "procs s2 (cur s1) = (procs s1 (cur s1))\<lparr>p_chan := Some (Chan_pipewr pi), p_state := SLEEPING\<rparr>"
    using sleep by (auto simp: sleep_enter_def rbind_Inr_iff acquire_Inr_iff release_Inr_iff sched_def set_proc_def split: if_splits)
  with s(1) have w: "p_state (procs s (cur s1)) = SLEEPING" "p_chan (procs s (cur s1)) = Some (Chan_pipewr pi)" by simp_all
  have len: "length (pipe_bytes (pipes s pi)) = PIPESIZE" using s(2,3) pipe.full_iff by blast
  then have "\<not> pipe_empty (pipes s pi)" using s(3) pipe.empty_iff by force
  with piperead_spec(1) [OF s(4,3) mem(1,2) _ refl] have
    "piperead pi va (int n) s = Inr (int (length (take n (pipe_bytes (pipes s pi)))),
      (took pi va 0 (take n (pipe_bytes (pipes s pi))) s)\<lparr>procs := woken (Chan_pipewr pi) 0 (cur s) (procs s)\<rparr>)" by simp
  then show ?thesis using mem(3) len w me by (auto simp: woken_def)
qed

theorem pipe_reader_wakes_writer_witness:
  "\<exists>s v s'. piperead 0x80025000 0 (int 5) s = Inr (v, s') \<and> 0 < v \<and> p_state (procs s' 0) = RUNNABLE"
proof -
  let ?s1 = "pipe_example 512 [Lk_pipe 0x80025000]"
  obtain s2 where s2: "sleep_enter (Chan_pipewr 0x80025000) (Lk_pipe 0x80025000) ?s1 = Inr s2"
    "procs s2 0 = (procs ?s1 0)\<lparr>p_chan := Some (Chan_pipewr 0x80025000), p_state := SLEEPING\<rparr>"
    by (simp add: sleep_enter_def sched_def set_proc_def release_def)
  let ?s = "(pipe_example 512 [])\<lparr>cur := 1, procs := (procs (pipe_example 512 []))(0 := procs s2 0)\<rparr>"
  have "page_table ?s 0x80021000 []" "user_range True ?s 0x80021000 [] 0 5"
    using page_table_mem [of ?s "pipe_example 512 []"] pipe_example_user(1) [where hs = "[]" and n = 512] pipe_example_user(2) [where k = 5 and n = 512 and hs = "[]"]
    by simp_all
  from pipe_reader_wakes_writer [OF s2(1), of ?s "[]" 0 5] this show ?thesis
    by (auto simp: pipe_full_def pipe_ok_def)
qed

end
