(* ===== verification/Console_Line.thy ===== *)
theory Console_Line
  imports Console Pipe_Queue
begin

text \<open>
  The line discipline of the console. The buffer with its three counters is a queue of committed
  input, from \<^verbatim>\<open>r\<close> to \<^verbatim>\<open>w\<close>, followed by the line under edit, from \<^verbatim>\<open>w\<close> to \<^verbatim>\<open>e\<close>. The keyboard handler
  refines a function on these two lists, and \<^verbatim>\<open>consoleread\<close> takes committed input up to the end of
  a line.
\<close>

subsection \<open>The abstract console\<close>

definition cons_queue :: "kstate \<Rightarrow> byte list" where
  "cons_queue s = ring INPUT_BUF_SIZE (cons_buf s) (cons_r s) (cons_w s)"

definition cons_line :: "kstate \<Rightarrow> byte list" where
  "cons_line s = ring INPUT_BUF_SIZE (cons_buf s) (cons_w s) (cons_e s)"

definition cons_ok :: "kstate \<Rightarrow> bool" where
  "cons_ok s \<longleftrightarrow> unat (cons_w s - cons_r s) \<le> unat (cons_e s - cons_r s) \<and>
     unat (cons_e s - cons_r s) \<le> INPUT_BUF_SIZE \<and> 10 \<notin> set (cons_line s)"

text \<open>What a key does: \<open>q\<close> is the committed input, \<open>l\<close> the line under edit.\<close>

definition key :: "int \<Rightarrow> byte list \<times> byte list \<Rightarrow> byte list \<times> byte list" where
  "key c = (\<lambda>(q, l).
     if c = ctrl_U then (q, [])
     else if c = ctrl_H \<or> c = 0x7f then (q, butlast l)
     else if c \<noteq> 0 \<and> length (q @ l) < INPUT_BUF_SIZE then
       let c' = (if c = 13 then 10 else c); l' = l @ [word_of_int c'] in
       if c' = 10 \<or> c' = ctrl_D \<or> length (q @ l') = INPUT_BUF_SIZE then (q @ l', []) else (q, l')
     else (q, l))"

subsection \<open>The counters\<close>

lemma BUF_dvd: "INPUT_BUF_SIZE dvd 2 ^ 32" "INPUT_BUF_SIZE < 2 ^ 32"
  by simp_all

lemma unat_between:
  assumes "unat (m - r :: u32) \<le> unat (w - r)"
  shows "unat (w - m) = unat (w - r) - unat (m - r)"
proof -
  have "w - m = (w - r) - (m - r)" by simp
  then show ?thesis using assms by (simp only: unat_sub word_le_nat_alt)
qed

lemma cons_all:
  assumes "cons_ok s"
  shows "ring INPUT_BUF_SIZE (cons_buf s) (cons_r s) (cons_e s) = cons_queue s @ cons_line s"
    "length (cons_queue s @ cons_line s) = unat (cons_e s - cons_r s)"
    "unat (cons_e s - cons_w s) = unat (cons_e s - cons_r s) - unat (cons_w s - cons_r s)"
proof -
  have le: "unat (cons_w s - cons_r s) \<le> unat (cons_e s - cons_r s)" using assms by (simp add: cons_ok_def)
  show a: "ring INPUT_BUF_SIZE (cons_buf s) (cons_r s) (cons_e s) = cons_queue s @ cons_line s"
    unfolding cons_queue_def cons_line_def by (rule ring_append [OF le])
  show "length (cons_queue s @ cons_line s) = unat (cons_e s - cons_r s)" unfolding a [symmetric] by simp
  show "unat (cons_e s - cons_w s) = unat (cons_e s - cons_r s) - unat (cons_w s - cons_r s)"
    by (rule unat_between [OF le])
qed

lemma cons_line_nil: "cons_line s = [] \<longleftrightarrow> cons_e s = cons_w s"
  by (simp add: cons_line_def ring_empty_iff)

lemma cons_last:
  assumes "cons_e s \<noteq> cons_w s"
  shows "cons_at (cons_e s - 1) s = last (cons_line s)"
proof -
  obtain k where k: "unat (cons_e s - cons_w s) = Suc k" "k = unat (cons_e s - 1 - cons_w s)"
    using unat_prev [OF assms] by blast
  then have "cons_w s + of_nat k = cons_e s - 1" by simp
  then show ?thesis using k(1) by (simp add: cons_line_def cons_at_def ring_def)
qed

subsection \<open>Echo\<close>

lemma consputc_eq: "consputc c s = s\<lparr>uart_out := uart_out (consputc c s)\<rparr>"
  by (simp add: consputc_def uartputc_sync_def)

lemma consputc_frame [simp]:
  "cons_buf (consputc c s) = cons_buf s" "cons_r (consputc c s) = cons_r s" "cons_w (consputc c s) = cons_w s"
  "cons_e (consputc c s) = cons_e s" "held (consputc c s) = held s" "cur (consputc c s) = cur s"
  "procs (consputc c s) = procs s" "mem (consputc c s) = mem s"
  by (simp_all add: consputc_def uartputc_sync_def)

subsection \<open>Erasing\<close>

lemma erase_one:
  assumes "cons_ok s" "cons_e s \<noteq> cons_w s"
  defines "s' \<equiv> consputc BACKSPACE (s\<lparr>cons_e := cons_e s - 1\<rparr>)"
  shows "cons_ok s'" "cons_queue s' = cons_queue s" "cons_line s' = butlast (cons_line s)"
proof -
  show l: "cons_line s' = butlast (cons_line s)"
    unfolding cons_line_def s'_def using ring_unput [OF assms(2)] by simp
  show "cons_queue s' = cons_queue s" by (simp add: cons_queue_def s'_def)
  have le: "unat (cons_w s - cons_r s) \<le> unat (cons_e s - cons_r s)" "unat (cons_e s - cons_r s) \<le> 128"
    "10 \<notin> set (cons_line s)" using assms(1) by (simp_all add: cons_ok_def)
  have ne: "cons_e s \<noteq> cons_r s"
  proof
    assume "cons_e s = cons_r s"
    then have "cons_w s - cons_r s = 0" using le(1) by (simp add: unat_eq_0)
    then show False using assms(2) \<open>cons_e s = cons_r s\<close> by simp
  qed
  have "unat (cons_w s - cons_r s) \<noteq> unat (cons_e s - cons_r s)"
    using assms(2) by (metis diff_add_cancel word_unat_eq_iff)
  with le(1,2) unat_prev [OF ne] have "unat (cons_w s - cons_r s) \<le> unat (cons_e s - 1 - cons_r s)"
    "unat (cons_e s - 1 - cons_r s) \<le> 128" by linarith+
  then show "cons_ok s'"
    using le(3) l by (auto simp: cons_ok_def s'_def dest: in_set_butlastD)
qed

lemma kill_line_spec:
  "cons_ok s \<Longrightarrow> cons_ok (kill_line s) \<and> cons_queue (kill_line s) = cons_queue s \<and> cons_line (kill_line s) = [] \<and>
     held (kill_line s) = held s \<and> procs (kill_line s) = procs s"
proof (induction s rule: kill_line.induct)
  case (1 s)
  show ?case
  proof (cases "cons_e s = cons_w s")
    case True
    then show ?thesis using 1 by (subst (1 2 3 4 5) kill_line.simps) (simp add: cons_line_nil)
  next
    case False
    let ?s = "consputc BACKSPACE (s\<lparr>cons_e := cons_e s - 1\<rparr>)"
    have "cons_at (cons_e s - 1) s \<noteq> 10"
      using 1(2) cons_last [OF False] False by (metis cons_line_nil cons_ok_def last_in_set)
    then have "kill_line s = kill_line ?s" using False by (subst kill_line.simps) simp
    with 1(1) [OF _ erase_one(1) [OF 1(2) False]] erase_one(2) [OF 1(2) False] False
      \<open>cons_at (cons_e s - 1) s \<noteq> 10\<close> show ?thesis by simp
  qed
qed

subsection \<open>Typing\<close>

lemma ring_prefix:
  assumes "unat (m - r) \<le> unat (w - r)"
  shows "ring n d r m = take (unat (m - r)) (ring n d r w)"
  using ring_append [OF assms, of n d] by simp

lemma store_one:
  fixes c :: int
  assumes ok: "cons_ok s" and room: "length (cons_queue s @ cons_line s) < INPUT_BUF_SIZE"
  defines "s' \<equiv> cons_store c (consputc c s)"
  shows "cons_queue s' = cons_queue s" "cons_line s' = cons_line s @ [word_of_int c]"
    "unat (cons_e s' - cons_r s') = Suc (length (cons_queue s @ cons_line s))"
    "unat (cons_w s' - cons_r s') \<le> unat (cons_e s' - cons_r s')"
proof -
  let ?b = "(cons_buf s)(unat (cons_e s) mod INPUT_BUF_SIZE := word_of_int c)"
  have f: "cons_buf s' = ?b" "cons_r s' = cons_r s" "cons_w s' = cons_w s" "cons_e s' = cons_e s + 1"
    by (simp_all add: s'_def cons_store_def)
  have er: "unat (cons_e s - cons_r s) < INPUT_BUF_SIZE" using room unfolding cons_all(2) [OF ok] .
  have le: "unat (cons_w s - cons_r s) \<le> unat (cons_e s - cons_r s)" using ok by (simp add: cons_ok_def)
  have ew: "unat (cons_e s - cons_w s) < INPUT_BUF_SIZE" using er cons_all(3) [OF ok] by simp
  have n: "unat (cons_e s + 1 - cons_r s) = Suc (unat (cons_e s - cons_r s))" by (rule unat_next [OF er BUF_dvd(2)])
  show "unat (cons_e s' - cons_r s') = Suc (length (cons_queue s @ cons_line s))"
    unfolding f n cons_all(2) [OF ok] ..
  show "unat (cons_w s' - cons_r s') \<le> unat (cons_e s' - cons_r s')" unfolding f n using le by simp
  show "cons_line s' = cons_line s @ [word_of_int c]"
    unfolding cons_line_def f by (rule ring_put [OF BUF_dvd ew])
  have "ring INPUT_BUF_SIZE ?b (cons_r s) (cons_w s) =
      take (unat (cons_w s - cons_r s)) (ring INPUT_BUF_SIZE ?b (cons_r s) (cons_e s + 1))"
    using le n by (intro ring_prefix) simp
  also have "\<dots> = take (unat (cons_w s - cons_r s)) (cons_queue s @ cons_line s @ [word_of_int c])"
    by (simp only: ring_put [OF BUF_dvd er] cons_all(1) [OF ok] append_assoc)
  also have "\<dots> = cons_queue s" by (simp add: cons_queue_def)
  finally show "cons_queue s' = cons_queue s" by (simp only: cons_queue_def f)
qed

lemma commit_line:
  assumes "unat (cons_w s - cons_r s) \<le> unat (cons_e s - cons_r s)" "unat (cons_e s - cons_r s) \<le> INPUT_BUF_SIZE"
  shows "cons_ok (s\<lparr>cons_w := cons_e s, procs := p\<rparr>)" "cons_line (s\<lparr>cons_w := cons_e s, procs := p\<rparr>) = []"
    "cons_queue (s\<lparr>cons_w := cons_e s, procs := p\<rparr>) = cons_queue s @ cons_line s"
  using assms ring_append [OF assms(1), of INPUT_BUF_SIZE "cons_buf s"]
  by (simp_all add: cons_ok_def cons_line_def cons_queue_def)

lemma cons_views_held [simp]:
  "cons_ok (s\<lparr>held := h\<rparr>) = cons_ok s" "cons_queue (s\<lparr>held := h\<rparr>) = cons_queue s" "cons_line (s\<lparr>held := h\<rparr>) = cons_line s"
  by (simp_all add: cons_ok_def cons_queue_def cons_line_def)

lemma byte_newline: "0 \<le> c \<Longrightarrow> c < 256 \<Longrightarrow> (word_of_int c :: byte) = 10 \<Longrightarrow> c = 10"
proof -
  assume "0 \<le> c" "c < 256" "(word_of_int c :: byte) = 10"
  then have "uint (word_of_int c :: byte) = 10" by simp
  then show "c = 10" using \<open>0 \<le> c\<close> \<open>c < 256\<close> by (simp add: uint_word_of_int_eq take_bit_int_eq_self)
qed

lemma typed_key:
  assumes ok: "cons_ok s" and h: "held s = []" and c: "0 \<le> c" "c < 256" "c \<noteq> ctrl_P"
    and n: "c \<noteq> ctrl_U" "\<not> (c = ctrl_H \<or> c = 0x7f)"
  shows "\<exists>s'. consoleintr c s = Inr s' \<and> cons_ok s' \<and> held s' = [] \<and>
    (cons_queue s', cons_line s') = key c (cons_queue s, cons_line s) \<and>
    (cons_queue s' = cons_queue s \<or> procs s' = woken Chan_cons 0 (cur s) (procs s))"
proof (cases "c \<noteq> 0 \<and> length (cons_queue s @ cons_line s) < INPUT_BUF_SIZE")
  case False
  then have "\<not> (c \<noteq> 0 \<and> unat (cons_e s - cons_r s) < INPUT_BUF_SIZE)" unfolding cons_all(2) [OF ok] .
  then have "consoleintr c s = Inr s" using n c(3) h by (auto simp: consoleintr_def)
  moreover have "key c (cons_queue s, cons_line s) = (cons_queue s, cons_line s)"
    using False n by (auto simp: key_def)
  ultimately show ?thesis using ok h by simp
next
  case True
  define c' where "c' = (if c = 13 then 10 else c)"
  define s1 where "s1 = cons_store c' (consputc c' (s\<lparr>held := [Lk_cons]\<rparr>))"
  have room: "length (cons_queue (s\<lparr>held := [Lk_cons]\<rparr>) @ cons_line (s\<lparr>held := [Lk_cons]\<rparr>)) < INPUT_BUF_SIZE"
    using True by simp
  have ok1: "cons_ok (s\<lparr>held := [Lk_cons]\<rparr>)" using ok by simp
  note st = store_one [OF ok1 room, of c', folded s1_def, simplified]
  have f: "held s1 = [Lk_cons]" "procs s1 = procs s" "cur s1 = cur s" by (simp_all add: s1_def cons_store_def)
  have er: "unat (cons_e s1 - cons_r s1) \<le> INPUT_BUF_SIZE" using st(3) True by simp
  let ?commit = "c' = 10 \<or> c' = ctrl_D \<or> unat (cons_e s1 - cons_r s1) = INPUT_BUF_SIZE"
  have k: "key c (cons_queue s, cons_line s) =
      (if ?commit then (cons_queue s @ cons_line s1, []) else (cons_queue s, cons_line s1))"
    using True n st(2,3) by (simp add: key_def Let_def c'_def)
  have i: "consoleintr c s = rbind (if ?commit then wakeup Chan_cons (s1\<lparr>cons_w := cons_e s1\<rparr>) else Inr s1) (release Lk_cons)"
    using True n c(3) h unfolding cons_all(2) [OF ok] by (simp add: consoleintr_def Let_def s1_def c'_def)
  show ?thesis
  proof (cases ?commit)
    case True
    have "no_plocks (s1\<lparr>cons_w := cons_e s1\<rparr>)" using f by (simp add: no_plocks_def)
    from this have "consoleintr c s = Inr (s1\<lparr>cons_w := cons_e s1, procs := woken Chan_cons 0 (cur s) (procs s), held := []\<rparr>)"
      unfolding i if_P [OF True] by (simp add: wakeup_eq f)
    moreover have "key c (cons_queue s, cons_line s) = (cons_queue s @ cons_line s1, [])" unfolding k if_P [OF True] ..
    ultimately show ?thesis using commit_line [OF st(4) er] st(1) by simp
  next
    case False
    have int: "consoleintr c s = Inr (s1\<lparr>held := []\<rparr>)" unfolding i if_not_P [OF False] by (simp add: f)
    have "c' \<noteq> 10" using False by simp
    moreover have "0 \<le> c'" "c' < 256" using c(1,2) by (simp_all add: c'_def)
    ultimately have "word_of_int c' \<noteq> (10 :: byte)" by (rule contrapos_nn [OF _ byte_newline])
    then have "cons_ok s1" using ok st(2,4) er by (simp add: cons_ok_def)
    moreover have "key c (cons_queue s, cons_line s) = (cons_queue s, cons_line s1)" unfolding k if_not_P [OF False] ..
    ultimately show ?thesis using st(1) int by simp
  qed
qed

subsection \<open>Reading a line\<close>

definition line_read :: "u64 \<Rightarrow> nat \<Rightarrow> byte list \<Rightarrow> kstate \<Rightarrow> kstate" where
  "line_read va k cs s = s\<lparr>cons_r := cons_r s + of_nat (length cs), mem := ustore (uaddr_of s va) k cs (mem s), held := []\<rparr>"

lemma cons_queue_Cons:
  assumes "cons_queue s = c # q"
  shows "cons_r s \<noteq> cons_w s" "cons_at (cons_r s) s = c" "cons_queue (s\<lparr>cons_r := cons_r s + 1, mem := m\<rparr>) = q"
proof -
  show ne: "cons_r s \<noteq> cons_w s" using assms by (auto simp: cons_queue_def)
  from ring_get [OF ne [symmetric], of INPUT_BUF_SIZE "cons_buf s"] assms
  show "cons_at (cons_r s) s = c" "cons_queue (s\<lparr>cons_r := cons_r s + 1, mem := m\<rparr>) = q"
    by (simp_all add: cons_queue_def cons_at_def)
qed

text \<open>One byte that is neither \<^verbatim>\<open>^D\<close> nor a failed copy.\<close>

lemma consoleread_byte:
  assumes q: "cons_queue s = c # q" and c: "c \<noteq> 4" and h: "held s = [Lk_cons]"
    and pt: "page_table s (p_pagetable (myproc s)) xs" and r: "user_range True s (p_pagetable (myproc s)) xs va n" and k: "k < n"
  defines "s1 \<equiv> s\<lparr>cons_r := cons_r s + 1, mem := (mem s)(uaddr_of s va k := c)\<rparr>"
  shows "consoleread_loop (int n) (User (va + of_nat k)) (int (n - k)) s =
      (if c = 10 then Inr (Done (int (Suc k)), s1\<lparr>held := []\<rparr>)
       else consoleread_loop (int n) (User (va + of_nat (Suc k))) (int (n - Suc k)) s1)"
    "page_table s1 (p_pagetable (myproc s1)) xs" "leaf (mem s1) (p_pagetable (myproc s)) = leaf (mem s) (p_pagetable (myproc s))"
    "user_range True s1 (p_pagetable (myproc s1)) xs va n"
proof -
  let ?s = "s\<lparr>cons_r := cons_r s + 1\<rparr>"
  have "page_table ?s (p_pagetable (myproc s)) xs" "user_range True ?s (p_pagetable (myproc s)) xs va n"
    using page_table_mem [of ?s s] pt r h by simp_all
  from copyout_byte [OF this k, of c]
  have o: "copyout (p_pagetable (myproc s)) (va + of_nat k) (Local (\<lambda>_. c) 0) 1 ?s = Inr (0, s1)"
    and p: "page_table s1 (p_pagetable (myproc s)) xs" "leaf (mem s1) (p_pagetable (myproc s)) = leaf (mem s) (p_pagetable (myproc s))"
      "nodes (mem s1) (p_pagetable (myproc s)) = nodes (mem s) (p_pagetable (myproc s))"
    by (auto simp: s1_def)
  have "uint c \<noteq> 4" using c by (metis word_of_int_uint word_of_int_numeral)
  show "page_table s1 (p_pagetable (myproc s1)) xs" "leaf (mem s1) (p_pagetable (myproc s)) = leaf (mem s) (p_pagetable (myproc s))"
    using p by (simp_all add: s1_def)
  show "user_range True s1 (p_pagetable (myproc s1)) xs va n"
    using r p by (simp add: user_range_def user_byte_def good_page_def s1_def)
  show "consoleread_loop (int n) (User (va + of_nat k)) (int (n - k)) s =
      (if c = 10 then Inr (Done (int (Suc k)), s1\<lparr>held := []\<rparr>)
       else consoleread_loop (int n) (User (va + of_nat (Suc k))) (int (n - Suc k)) s1)"
    using cons_queue_Cons [OF q] k o h \<open>uint c \<noteq> 4\<close>
    by (subst consoleread_loop.simps) (simp add: s1_def of_nat_diff algebra_simps)
qed

lemma consoleread_loop_line:
  assumes "cons_queue s = line @ 10 # rest" "4 \<notin> set line" "10 \<notin> set line" "held s = [Lk_cons]"
    "page_table s (p_pagetable (myproc s)) xs" "user_range True s (p_pagetable (myproc s)) xs va n" "k + length line < n"
  shows "consoleread_loop (int n) (User (va + of_nat k)) (int (n - k)) s =
      Inr (Done (int (k + Suc (length line))), line_read va k (line @ [10]) s) \<and>
    cons_queue (line_read va k (line @ [10]) s) = rest \<and>
    leaf (mem (line_read va k (line @ [10]) s)) (p_pagetable (myproc s)) = leaf (mem s) (p_pagetable (myproc s))"
  using assms
proof (induction line arbitrary: k s)
  case Nil
  then have q: "cons_queue s = 10 # rest" and k: "k < n" by simp_all
  note b = consoleread_byte [OF q _ Nil.prems(4-6) k]
  have "line_read va k ([] @ [10]) s = s\<lparr>cons_r := cons_r s + 1, mem := (mem s)(uaddr_of s va k := 10), held := []\<rparr>"
    by (simp add: line_read_def)
  then show ?case using b(1,3) cons_queue_Cons(3) [OF q] by (simp add: fun_upd_def)
next
  case (Cons c line)
  let ?s = "s\<lparr>cons_r := cons_r s + 1, mem := (mem s)(uaddr_of s va k := c)\<rparr>"
  have q: "cons_queue s = c # (line @ 10 # rest)" using Cons.prems(1) by simp
  have k: "k < n" "c \<noteq> 4" "c \<noteq> 10" using Cons.prems(2,3,7) by auto
  note b = consoleread_byte [OF q k(2) Cons.prems(4-6) k(1)]
  have ih: "cons_queue ?s = line @ 10 # rest" "held ?s = [Lk_cons]" "4 \<notin> set line" "10 \<notin> set line" "Suc k + length line < n"
    using cons_queue_Cons(3) [OF q] Cons.prems by auto
  have "line_read va k ((c # line) @ [10]) s = line_read va (Suc k) (line @ [10]) ?s"
    using b(3) by (simp add: line_read_def uaddr_def algebra_simps)
  then show ?case using Cons.IH [OF ih(1,3,4,2) b(2,4) ih(5)] b(1,3) k(3) by (simp add: fun_upd_def)
qed

text \<open>
  C22: the keyboard handler implements the line discipline. For every key but the one that lists the
  processes, it moves the committed input and the line under edit as \<open>key\<close> says, keeps
  \<^verbatim>\<open>r <= w <= e <= r + INPUT_BUF_SIZE\<close> on the wrapping counters, leaves no newline in the line under
  edit, and when it commits the line it wakes the readers.
\<close>

theorem consoleintr_line_discipline:
  assumes ok: "cons_ok s" and h: "held s = []" and c: "0 \<le> c" "c < 256" "c \<noteq> ctrl_P"
  shows "\<exists>s'. consoleintr c s = Inr s' \<and> cons_ok s' \<and> held s' = [] \<and>
    (cons_queue s', cons_line s') = key c (cons_queue s, cons_line s) \<and>
    (cons_queue s' = cons_queue s \<or> procs s' = woken Chan_cons 0 (cur s) (procs s))"
proof -
  let ?s = "s\<lparr>held := [Lk_cons]\<rparr>"
  have ok': "cons_ok ?s" using ok by simp
  consider "c = ctrl_U" | "c = ctrl_H \<or> c = 0x7f" | "c \<noteq> ctrl_U" "\<not> (c = ctrl_H \<or> c = 0x7f)" by blast
  then show ?thesis
  proof cases
    case 1
    have "held (kill_line ?s) = [Lk_cons]" using kill_line_spec [OF ok'] by simp
    then have "consoleintr c s = Inr ((kill_line ?s)\<lparr>held := []\<rparr>)"
      using 1 h by (simp add: consoleintr_def)
    then show ?thesis using kill_line_spec [OF ok'] 1 by (simp add: key_def)
  next
    case 2
    let ?s' = "if cons_e s \<noteq> cons_w s then consputc BACKSPACE (?s\<lparr>cons_e := cons_e ?s - 1\<rparr>) else ?s"
    have "consoleintr c s = Inr (?s'\<lparr>held := []\<rparr>)" using 2 h by (auto simp: consoleintr_def)
    moreover have "key c (cons_queue s, cons_line s) = (cons_queue s, butlast (cons_line s))"
      using 2 by (auto simp: key_def)
    moreover have "butlast (cons_line s) = cons_line s" if "cons_e s = cons_w s"
      using that cons_line_nil [of s] by simp
    ultimately show ?thesis using erase_one [OF ok'] ok by simp
  next
    case 3
    then show ?thesis using typed_key [OF ok h c] by blast
  qed
qed

theorem consoleintr_line_discipline_witness:
  "\<exists>s'. consoleintr 0x61 (kstate0 0x80020000 (\<lambda>_ _. 0)) = Inr s' \<and> cons_line s' = [0x61] \<and> cons_queue s' = []"
  using consoleintr_line_discipline [of "kstate0 0x80020000 (\<lambda>_ _. 0)" "0x61"]
  by (auto simp: cons_ok_def cons_line_def cons_queue_def key_def)

text \<open>
  C23: when a whole line is in the committed input, \<^verbatim>\<open>consoleread\<close> with room for it does not sleep: it
  returns the length of the line, with its newline the last byte, the line is in user memory, and
  the input after it stays for the next read.
\<close>

theorem consoleread_returns_line:
  assumes q: "cons_queue s = line @ 10 # rest" and l: "4 \<notin> set line" "10 \<notin> set line" "length line < n" and h: "held s = []"
    and pt: "page_table s (p_pagetable (myproc s)) xs" and r: "user_range True s (p_pagetable (myproc s)) xs va n"
    and u: "unaliased (mem s) (p_pagetable (myproc s)) va n"
  shows "\<exists>s'. consoleread (User va) (int n) s = Inr (int (Suc (length line)), s') \<and> cons_queue s' = rest \<and>
    map (ubyte s' (p_pagetable (myproc s)) va) [0..<Suc (length line)] = line @ [10]"
proof -
  let ?s = "s\<lparr>held := [Lk_cons]\<rparr>" and ?cs = "line @ [10]"
  let ?s' = "line_read va 0 ?cs s"
  have "page_table ?s (p_pagetable (myproc ?s)) xs" "user_range True ?s (p_pagetable (myproc ?s)) xs va n"
    using page_table_mem [of ?s s] pt r h by simp_all
  from consoleread_loop_line [OF _ l(1,2) _ this, of rest 0] q l(3)
  have loop: "consoleread_loop (int n) (User va) (int n) ?s = Inr (Done (int (Suc (length line))), ?s')"
    and q': "cons_queue ?s' = rest" and lf: "leaf (mem ?s') (p_pagetable (myproc s)) = leaf (mem s) (p_pagetable (myproc s))"
    by (auto simp: line_read_def)
  have "ubyte ?s' (p_pagetable (myproc s)) va i = ?cs ! i" if "i < length ?cs" for i
  proof -
    have "uaddr (mem ?s') (p_pagetable (myproc s)) = uaddr (mem s) (p_pagetable (myproc s))"
      using lf by (simp add: fun_eq_iff uaddr_def)
    moreover have "ustore (uaddr_of s va) 0 ?cs (mem s) (uaddr_of s va (0 + i)) = ?cs ! i"
      using u l(3) that by (intro ustore_inside [of _ n]) (simp_all add: unaliased_def)
    ultimately show ?thesis by (simp add: ubyte_def) (simp add: line_read_def)
  qed
  then have "map (ubyte ?s' (p_pagetable (myproc s)) va) [0..<Suc (length line)] = ?cs"
    by (intro nth_equalityI) (simp_all del: upt_Suc)
  with loop q' h show ?thesis by (simp add: consoleread_def)
qed

text \<open>A console with the line \<^verbatim>\<open>hi\<close> in its buffer, across the end of the array.\<close>

definition console_example :: kstate where
  "console_example = (pipe_example 0 [])\<lparr>cons_buf := (\<lambda>_. 0)(127 := 0x68, 0 := 0x69, 1 := 10),
     cons_r := 127, cons_w := 130, cons_e := 130\<rparr>"

theorem consoleread_returns_line_witness:
  "\<exists>s'. consoleread (User 0) (int 100) console_example = Inr (int 3, s') \<and> cons_queue s' = [] \<and>
    map (ubyte s' 0x80021000 0) [0..<3] = [0x68, 0x69, 10]"
proof -
  have q: "cons_queue console_example = [0x68, 0x69] @ 10 # []"
    by (simp add: cons_queue_def console_example_def ring_def upt_rec)
  have pt: "p_pagetable (myproc console_example) = 0x80021000" by (simp add: console_example_def)
  have "page_table console_example 0x80021000 []" "user_range True console_example 0x80021000 [] 0 100"
    "unaliased (mem console_example) 0x80021000 0 100"
    using page_table_mem [of console_example "pipe_example 0 []"] pipe_example_user(1) [where hs = "[]" and n = 0]
      pipe_example_user(2,3) [where k = 100 and n = 0 and hs = "[]"]
    by (simp_all add: console_example_def)
  from consoleread_returns_line [OF q _ _ _ _ this [folded pt]] show ?thesis
    by (auto simp: pt console_example_def numeral_3_eq_3)
qed

end
