(* ===== verification/Vm_Frame.thy ===== *)
theory Vm_Frame
  imports Vm
begin

text \<open>
  The operations of the page allocator and of \<^verbatim>\<open>kernel/vm.c\<close> that return change nothing but the bytes
  of memory and the head of the free list: not the process table, the locks, the caches or the disk.
\<close>

subsection \<open>States that differ in memory\<close>

definition other :: "kstate \<Rightarrow> kstate" where
  "other s = s\<lparr>mem := (\<lambda>_. 0), freelist := 0\<rparr>"

definition mem_only :: "kstate \<Rightarrow> kstate \<Rightarrow> bool" where
  "mem_only s s' \<longleftrightarrow> other s' = other s"

lemma other_updates [simp]:
  "other (s\<lparr>mem := m\<rparr>) = other s" "other (s\<lparr>freelist := f\<rparr>) = other s"
  "other (store64 a v s) = other s" "other (zero_page p s) = other s" "other (copy_page d p s) = other s"
  by (simp_all add: other_def store64_def zero_page_def copy_page_def)

lemma mem_only_refl [simp]: "mem_only s s"
  by (simp add: mem_only_def)

lemma mem_only_trans [trans]: "mem_only s s1 \<Longrightarrow> mem_only s1 s2 \<Longrightarrow> mem_only s s2"
  by (simp add: mem_only_def)

lemma other_fields:
  assumes "other s' = other s"
  shows "procs s' = procs s" "held s' = held s" "cur s' = cur s" "nextpid s' = nextpid s" "kend s' = kend s"
    "pipes s' = pipes s" "tframes s' = tframes s" "itable s' = itable s" "ftable s' = ftable s" "bufs s' = bufs s"
    "klog s' = klog s" "disk s' = disk s" "dwrites s' = dwrites s" "initproc s' = initproc s" "sb s' = sb s" "ticks s' = ticks s"
proof -
  note e = assms [unfolded other_def]
  show "procs s' = procs s" using arg_cong [OF e, of procs] by simp
  show "held s' = held s" using arg_cong [OF e, of held] by simp
  show "cur s' = cur s" using arg_cong [OF e, of cur] by simp
  show "nextpid s' = nextpid s" using arg_cong [OF e, of nextpid] by simp
  show "kend s' = kend s" using arg_cong [OF e, of kend] by simp
  show "pipes s' = pipes s" using arg_cong [OF e, of pipes] by simp
  show "tframes s' = tframes s" using arg_cong [OF e, of tframes] by simp
  show "itable s' = itable s" using arg_cong [OF e, of itable] by simp
  show "ftable s' = ftable s" using arg_cong [OF e, of ftable] by simp
  show "bufs s' = bufs s" using arg_cong [OF e, of bufs] by simp
  show "klog s' = klog s" using arg_cong [OF e, of klog] by simp
  show "disk s' = disk s" using arg_cong [OF e, of disk] by simp
  show "dwrites s' = dwrites s" using arg_cong [OF e, of dwrites] by simp
  show "initproc s' = initproc s" using arg_cong [OF e, of initproc] by simp
  show "sb s' = sb s" using arg_cong [OF e, of sb] by simp
  show "ticks s' = ticks s" using arg_cong [OF e, of ticks] by simp
qed

lemmas mem_only_fields = other_fields [OF mem_only_def [THEN iffD1]]

subsection \<open>The operations\<close>

named_theorems frame \<open>what an operation that returned has changed\<close>

lemma kalloc_frame [frame]: "kalloc s = Inr (p, s') \<Longrightarrow> other s' = other s"
  by (auto simp: kalloc_def rbind_Inr_iff acquire_Inr_iff release_Inr_iff Let_def other_def)

lemma kfree_frame [frame]: "kfree p s = Inr s' \<Longrightarrow> other s' = other s"
  by (auto simp: kfree_def rbind_Inr_iff acquire_Inr_iff release_Inr_iff Let_def other_def split: if_splits)

lemma walk_loop_frame: "walk_loop l pt va alloc s = Inr (p, s') \<Longrightarrow> other s' = other s"
proof (induction l arbitrary: pt s)
  case (Suc l)
  then show ?case
    by (auto simp: Let_def rbind_Inr_iff dest!: kalloc_frame split: if_splits)
qed simp

lemma walk_frame [frame]: "walk pt va alloc s = Inr (p, s') \<Longrightarrow> other s' = other s"
  by (auto simp: walk_def dest: walk_loop_frame split: if_splits)

lemma walkaddr_frame [frame]: "walkaddr pt va s = Inr (p, s') \<Longrightarrow> other s' = other s"
  by (auto simp: walkaddr_def rbind_Inr_iff dest!: walk_frame split: if_splits)

lemma mappages_loop_frame: "mappages_loop k pt a e pa perm s = Inr (r, s') \<Longrightarrow> other s' = other s"
proof (induction k arbitrary: a pa s)
  case (Suc k)
  then show ?case
    by (auto simp: Let_def rbind_Inr_iff dest!: walk_frame split: if_splits)
qed simp

lemma mappages_frame [frame]: "mappages pt va sz pa perm s = Inr (r, s') \<Longrightarrow> other s' = other s"
  by (auto simp: mappages_def dest: mappages_loop_frame split: if_splits)

lemma uvmcreate_frame [frame]: "uvmcreate s = Inr (p, s') \<Longrightarrow> other s' = other s"
  by (auto simp: uvmcreate_def rbind_Inr_iff dest!: kalloc_frame split: if_splits)

lemma uvmunmap_loop_frame: "uvmunmap_loop pt a b f s = Inr s' \<Longrightarrow> other s' = other s"
proof (induction pt a b f s rule: uvmunmap_loop.induct)
  case (1 pt a b f s)
  show ?case
  proof (cases "a < b")
    case False
    then show ?thesis using 1(3) by (subst (asm) uvmunmap_loop.simps) simp
  next
    case True
    then obtain pte s1 where w: "walk pt a False s = Inr (pte, s1)" and e: "other s1 = other s"
      using 1(3) by (subst (asm) uvmunmap_loop.simps) (auto simp: rbind_Inr_iff dest: walk_frame)
    show ?thesis
    proof (cases "pte = 0 \<or> load64 pte s1 AND PTE_V = 0")
      case c: True
      then have "uvmunmap_loop pt (a + 4096) b f s1 = Inr s'"
        using 1(3) True w by (subst (asm) uvmunmap_loop.simps) simp
      then show ?thesis using 1(1) [OF True w refl c] e by simp
    next
      case c: False
      then obtain s2 where s2: "(if f then kfree (PTE2PA (load64 pte s1)) s1 else Inr s1) = Inr s2"
        "uvmunmap_loop pt (a + 4096) b f (store64 pte 0 s2) = Inr s'"
        using 1(3) True w by (subst (asm) uvmunmap_loop.simps) (auto simp: rbind_Inr_iff)
      then have "other s2 = other s1" by (auto dest: kfree_frame split: if_splits)
      then show ?thesis using 1(2) [OF True w refl c s2(1) s2(2)] e by simp
    qed
  qed
qed

lemma uvmunmap_frame [frame]: "uvmunmap pt va n f s = Inr s' \<Longrightarrow> other s' = other s"
  by (auto simp: uvmunmap_def dest: uvmunmap_loop_frame split: if_splits)

lemma uvmdealloc_frame [frame]: "uvmdealloc pt o' n s = Inr (r, s') \<Longrightarrow> other s' = other s"
  by (auto simp: uvmdealloc_def rbind_Inr_iff Let_def dest: uvmunmap_frame split: if_splits)

lemma rfold_frame:
  assumes "\<And>x a b. f x a = Inr b \<Longrightarrow> other b = other a" "rfold f xs s = Inr s'"
  shows "other s' = other s"
  using assms(2)
proof (induction xs arbitrary: s)
  case (Cons x xs)
  then obtain s1 where "f x s = Inr s1" "rfold f xs s1 = Inr s'" by (auto simp: rbind_Inr_iff)
  then show ?case using Cons.IH assms(1) by metis
qed simp

lemma freewalk_frame [frame]: "freewalk d pt s = Inr s' \<Longrightarrow> other s' = other s"
proof (induction d arbitrary: pt s s')
  case (Suc d)
  let ?f = "\<lambda>i s. let at = pt + 8 * of_nat i; pte = load64 at s in
      if pte AND PTE_V \<noteq> 0 \<and> pte AND (PTE_R OR PTE_W OR PTE_X) = 0 then
        rbind (freewalk d (PTE2PA pte) s) (\<lambda>s. Inr (store64 at 0 s))
      else if pte AND PTE_V \<noteq> 0 then Inl (Panic ''freewalk: leaf'') else Inr s"
  have f: "?f i a = Inr b \<Longrightarrow> other b = other a" for i a b
    by (auto simp: Let_def rbind_Inr_iff dest!: Suc.IH split: if_splits)
  obtain s1 where s1: "rfold ?f [0..<512] s = Inr s1" "kfree pt s1 = Inr s'"
    using Suc.prems [unfolded freewalk.simps rbind_Inr_iff] by (elim exE conjE)
  have "other s1 = other s" by (rule rfold_frame [OF f s1(1)])
  with kfree_frame [OF s1(2)] show ?case by (rule trans)
qed simp

lemma uvmfree_frame [frame]: "uvmfree pt sz s = Inr s' \<Longrightarrow> other s' = other s"
  by (auto simp: uvmfree_def rbind_Inr_iff dest!: freewalk_frame uvmunmap_frame split: if_splits)

lemma uvmalloc_loop_frame: "uvmalloc_loop pt a o' n x s = Inr (r, s') \<Longrightarrow> other s' = other s"
proof (induction pt a o' n x s rule: uvmalloc_loop.induct)
  case (1 pt a o' n x s)
  show ?case
  proof (cases "a < n")
    case False
    then show ?thesis using 1(2) by (subst (asm) uvmalloc_loop.simps) simp
  next
    case True
    then obtain pg s1 where k: "kalloc s = Inr (pg, s1)"
      using 1(2) by (subst (asm) uvmalloc_loop.simps) (auto simp: rbind_Inr_iff)
    show ?thesis
    proof (cases "pg = 0")
      case c: True
      then show ?thesis using 1(2) True k
        by (subst (asm) uvmalloc_loop.simps) (auto simp: rbind_Inr_iff dest!: kalloc_frame uvmdealloc_frame)
    next
      case c: False
      then obtain m s2 where m: "mappages pt a 4096 pg (PTE_R OR PTE_U OR x) (zero_page pg s1) = Inr (m, s2)"
        using 1(2) True k by (subst (asm) uvmalloc_loop.simps) (auto simp: rbind_Inr_iff)
      have e: "other s2 = other s" using kalloc_frame [OF k] mappages_frame [OF m] by simp
      show ?thesis
      proof (cases "m \<noteq> 0")
        case m0: True
        then show ?thesis using 1(2) True k c m e
          by (subst (asm) uvmalloc_loop.simps) (auto simp: rbind_Inr_iff dest!: kfree_frame uvmdealloc_frame)
      next
        case m0: False
        then have "uvmalloc_loop pt (a + 4096) o' n x s2 = Inr (r, s')"
          using 1(2) True k c m by (subst (asm) uvmalloc_loop.simps) simp
        then show ?thesis using 1(1) [OF True k refl c m refl m0] e by simp
      qed
    qed
  qed
qed

lemma uvmalloc_frame [frame]: "uvmalloc pt o' n x s = Inr (r, s') \<Longrightarrow> other s' = other s"
  by (auto simp: uvmalloc_def dest: uvmalloc_loop_frame split: if_splits)

lemma uvmcopy_err_frame: "uvmcopy_err new i s = Inr (r, s') \<Longrightarrow> other s' = other s"
  by (auto simp: uvmcopy_err_def rbind_Inr_iff dest: uvmunmap_frame)

lemma uvmcopy_loop_frame: "uvmcopy_loop old new i sz s = Inr (r, s') \<Longrightarrow> other s' = other s"
proof (induction old new i sz s rule: uvmcopy_loop.induct)
  case (1 old new i sz s)
  show ?case
  proof (cases "i < sz")
    case False
    then show ?thesis using 1(3) by (subst (asm) uvmcopy_loop.simps) simp
  next
    case True
    then obtain pte s1 where w: "walk old i False s = Inr (pte, s1)"
      using 1(3) by (subst (asm) uvmcopy_loop.simps) (auto simp: rbind_Inr_iff)
    let ?e = "load64 pte s1"
    show ?thesis
    proof (cases "pte = 0 \<or> ?e AND PTE_V = 0")
      case c: True
      then have "uvmcopy_loop old new (i + 4096) sz s1 = Inr (r, s')"
        using 1(3) True w by (subst (asm) uvmcopy_loop.simps) simp
      then show ?thesis using 1(1) [OF True w refl c] walk_frame [OF w] by simp
    next
      case c: False
      then obtain pg s2 where k: "kalloc s1 = Inr (pg, s2)"
        using 1(3) True w by (subst (asm) uvmcopy_loop.simps) (auto simp: rbind_Inr_iff)
      have e2: "other s2 = other s" using kalloc_frame [OF k] walk_frame [OF w] by simp
      show ?thesis
      proof (cases "pg = 0")
        case p: True
        then show ?thesis using 1(3) True w c k e2
          by (subst (asm) uvmcopy_loop.simps) (auto dest!: uvmcopy_err_frame)
      next
        case p: False
        then obtain m s3 where m: "mappages new i 4096 pg (PTE_FLAGS ?e) (copy_page pg (PTE2PA ?e) s2) = Inr (m, s3)"
          using 1(3) True w c k by (subst (asm) uvmcopy_loop.simps) (auto simp: rbind_Inr_iff)
        have e3: "other s3 = other s" using e2 mappages_frame [OF m] by simp
        show ?thesis
        proof (cases "m \<noteq> 0")
          case m0: True
          then show ?thesis using 1(3) True w c k p m e3
            by (subst (asm) uvmcopy_loop.simps) (auto simp: rbind_Inr_iff dest!: kfree_frame uvmcopy_err_frame)
        next
          case m0: False
          then have "uvmcopy_loop old new (i + 4096) sz s3 = Inr (r, s')"
            using 1(3) True w c k p m by (subst (asm) uvmcopy_loop.simps) simp
          then show ?thesis using 1(2) [OF True w refl c refl refl k refl p m refl m0] e3 by simp
        qed
      qed
    qed
  qed
qed

lemma uvmcopy_frame [frame]: "uvmcopy old new sz s = Inr (r, s') \<Longrightarrow> other s' = other s"
  by (simp add: uvmcopy_def uvmcopy_loop_frame)

lemma uvmclear_frame [frame]: "uvmclear pt va s = Inr s' \<Longrightarrow> other s' = other s"
  by (auto simp: uvmclear_def rbind_Inr_iff dest!: walk_frame split: if_splits)

lemma ismapped_frame [frame]: "ismapped pt va s = Inr (b, s') \<Longrightarrow> other s' = other s"
  by (auto simp: ismapped_def rbind_Inr_iff dest!: walk_frame split: if_splits)

lemma vmfault_frame [frame]:
  assumes "vmfault pt va s = Inr (p, s')"
  shows "other s' = other s"
proof (cases "va \<ge> p_sz (myproc s)")
  case True
  then show ?thesis using assms by (simp add: vmfault_def)
next
  case False
  let ?va = "PGROUNDDOWN va"
  obtain m s1 where m: "ismapped pt ?va s = Inr (m, s1)"
    using assms False by (auto simp: vmfault_def Let_def rbind_Inr_iff)
  show ?thesis
  proof (cases m)
    case True
    then show ?thesis using assms False m ismapped_frame [OF m] by (simp add: vmfault_def)
  next
    case nm: False
    obtain pg s2 where k: "kalloc s1 = Inr (pg, s2)"
      using assms False m nm by (auto simp: vmfault_def Let_def rbind_Inr_iff)
    have e2: "other s2 = other s" using ismapped_frame [OF m] kalloc_frame [OF k] by simp
    show ?thesis
    proof (cases "pg = 0")
      case True
      then show ?thesis using assms False m nm k e2 by (simp add: vmfault_def)
    next
      case p: False
      then obtain r s3 where r: "mappages (p_pagetable (myproc s2)) ?va 4096 pg (PTE_W OR PTE_U OR PTE_R) (zero_page pg s2) = Inr (r, s3)"
        using assms False m nm k by (auto simp: vmfault_def Let_def rbind_Inr_iff)
      have e3: "other s3 = other s" using e2 mappages_frame [OF r] by simp
      show ?thesis using assms False m nm k p r e3
        by (cases "r = 0") (auto simp: vmfault_def rbind_Inr_iff dest!: kfree_frame)
    qed
  qed
qed

end
