(* ===== verification/Proc_Sched.thy ===== *)
theory Proc_Sched
  imports Proc Vm_Frame
begin

text \<open>
  Properties of the process table: which process the scheduler runs and that no runnable process is
  passed over in a round, whom \<^verbatim>\<open>kkill\<close> hits, and that process identifiers are unique.
\<close>

subsection \<open>The scans of the process table\<close>

abbreviation first_in :: "procstate \<Rightarrow> nat \<Rightarrow> kstate \<Rightarrow> nat option" where
  "first_in st k s \<equiv> scan (\<lambda>p. p_state (procs s p) = st) k NPROC"

lemma find_unused_eq:
  "no_plocks s \<Longrightarrow> find_unused k s =
     Inr (case first_in UNUSED k s of None \<Rightarrow> (None, s) | Some p \<Rightarrow> (Some p, s\<lparr>held := Lk_proc p # held s\<rparr>))"
proof (induction "NPROC - k" arbitrary: k)
  case 0
  then show ?case by (subst find_unused.simps) (simp add: scan_step)
next
  case (Suc n)
  then have k: "k < NPROC" by simp
  have h: "Lk_proc k \<notin> set (held s)" using Suc.prems by (simp add: no_plocks_def)
  show ?case
  proof (cases "p_state (procs s k) = UNUSED")
    case True
    then show ?thesis using k h by (subst find_unused.simps) (simp add: scan_step)
  next
    case False
    have "find_unused k s = find_unused (Suc k) s" using False k h by (subst find_unused.simps) simp
    also have "\<dots> = Inr (case first_in UNUSED (Suc k) s of None \<Rightarrow> (None, s) | Some p \<Rightarrow> (Some p, s\<lparr>held := Lk_proc p # held s\<rparr>))"
      using Suc.hyps(2) Suc.prems by (intro Suc.hyps(1)) simp_all
    finally show ?thesis using k False by (simp add: scan_step)
  qed
qed

definition switched :: "nat \<Rightarrow> kstate \<Rightarrow> kstate" where
  "switched p s = (set_proc p (\<lambda>x. x\<lparr>p_state := RUNNING\<rparr>) (s\<lparr>held := Lk_proc p # held s\<rparr>))\<lparr>cur := p\<rparr>"

lemma scheduler_scan_eq:
  "no_plocks s \<Longrightarrow> scheduler_scan k s =
     Inr (case first_in RUNNABLE k s of None \<Rightarrow> (None, s) | Some p \<Rightarrow> (Some p, switched p s))"
proof (induction "NPROC - k" arbitrary: k)
  case 0
  then show ?case by (subst scheduler_scan.simps) (simp add: scan_step)
next
  case (Suc n)
  then have k: "k < NPROC" by simp
  have h: "Lk_proc k \<notin> set (held s)" using Suc.prems by (simp add: no_plocks_def)
  show ?case
  proof (cases "p_state (procs s k) = RUNNABLE")
    case True
    then show ?thesis using k h by (subst scheduler_scan.simps) (simp add: scan_step switched_def)
  next
    case False
    have "scheduler_scan k s = scheduler_scan (Suc k) s" using False k h by (subst scheduler_scan.simps) simp
    also have "\<dots> = Inr (case first_in RUNNABLE (Suc k) s of None \<Rightarrow> (None, s) | Some p \<Rightarrow> (Some p, switched p s))"
      using Suc.hyps(2) Suc.prems by (intro Suc.hyps(1)) simp_all
    finally show ?thesis using k False by (simp add: scan_step)
  qed
qed

definition victim :: "int \<Rightarrow> nat \<Rightarrow> kstate \<Rightarrow> nat option" where
  "victim pid k s = scan (\<lambda>p. p_pid (procs s p) = pid) k NPROC"

definition struck :: "proc \<Rightarrow> proc" where
  "struck x = (if p_state x = SLEEPING then x\<lparr>p_killed := True, p_state := RUNNABLE\<rparr> else x\<lparr>p_killed := True\<rparr>)"

lemma kkill_loop_eq:
  "no_plocks s \<Longrightarrow> kkill_loop pid k s =
     Inr (case victim pid k s of None \<Rightarrow> (-1, s) | Some p \<Rightarrow> (0, set_proc p struck s))"
proof (induction "NPROC - k" arbitrary: k)
  case 0
  then show ?case by (subst kkill_loop.simps) (simp add: scan_step victim_def)
next
  case (Suc n)
  then have k: "k < NPROC" by simp
  have h: "Lk_proc k \<notin> set (held s)" using Suc.prems by (simp add: no_plocks_def)
  show ?case
  proof (cases "p_pid (procs s k) = pid")
    case True
    then show ?thesis using k h
      by (subst kkill_loop.simps) (auto simp: scan_step victim_def set_proc_def struck_def Let_def)
  next
    case False
    have "kkill_loop pid k s = kkill_loop pid (Suc k) s" using False k h by (subst kkill_loop.simps) simp
    also have "\<dots> = Inr (case victim pid (Suc k) s of None \<Rightarrow> (-1, s) | Some p \<Rightarrow> (0, set_proc p struck s))"
      using Suc.hyps(2) Suc.prems by (intro Suc.hyps(1)) simp_all
    finally show ?thesis using k False by (simp add: scan_step victim_def)
  qed
qed

subsection \<open>Rounds of the scheduler\<close>

text \<open>
  A round from the process \<open>k\<close> on, with the processes it runs. While the process \<open>q\<close> runs, anything
  may change but this: it comes back with its lock held, and a process that is runnable stays so.
\<close>

definition ran :: "nat \<Rightarrow> kstate \<Rightarrow> kstate \<Rightarrow> bool" where
  "ran q s s' \<longleftrightarrow> held s' = [Lk_proc q] \<and>
     (\<forall>p. p \<noteq> q \<longrightarrow> p_state (procs s p) = RUNNABLE \<longrightarrow> p_state (procs s' p) = RUNNABLE)"

inductive round :: "nat \<Rightarrow> kstate \<Rightarrow> nat list \<Rightarrow> bool" where
  finish: "scheduler_scan k s = Inr (None, s') \<Longrightarrow> round k s []"
| switch: "scheduler_scan k s = Inr (Some q, s1) \<Longrightarrow> ran q s1 s2 \<Longrightarrow>
    release (Lk_proc q) (s2\<lparr>cur := NPROC\<rparr>) = Inr s3 \<Longrightarrow> round (Suc q) s3 qs \<Longrightarrow> round k s (q # qs)"

lemma round_runs:
  assumes "round k s qs" "held s = []" "k \<le> p" "p < NPROC" "p_state (procs s p) = RUNNABLE"
  shows "p \<in> set qs"
  using assms
proof induction
  case (finish k s s')
  then have "no_plocks s" by (simp add: no_plocks_def)
  with finish show ?case by (auto simp: scheduler_scan_eq scan_None_iff split: option.splits)
next
  case (switch k s q s1 s2 s3 qs)
  then have "no_plocks s" by (simp add: no_plocks_def)
  with switch(1) have q: "first_in RUNNABLE k s = Some q" "s1 = switched q s"
    by (auto simp: scheduler_scan_eq split: option.splits)
  show ?case
  proof (cases "p = q")
    case False
    have "q \<le> p" using q(1) switch.prems by (auto simp: scan_Some_iff not_le [symmetric])
    then have "Suc q \<le> p" using False by simp
    moreover have s3: "s3 = s2\<lparr>cur := NPROC, held := []\<rparr>"
      using switch(2,3) by (auto simp: ran_def release_Inr_iff)
    moreover have "p_state (procs s2 p) = RUNNABLE"
      using switch(2) switch.prems(4) False by (simp add: ran_def q(2) switched_def set_proc_def)
    ultimately show ?thesis using switch.IH switch.prems(3) by simp
  qed simp
qed

subsection \<open>Process identifiers\<close>

lemma proc_pagetable_frame [frame]: "proc_pagetable p s = Inr (r, s') \<Longrightarrow> other s' = other s"
  by (auto simp: proc_pagetable_def rbind_Inr_iff
      dest!: uvmcreate_frame mappages_frame uvmfree_frame uvmunmap_frame split: if_splits)

lemma proc_freepagetable_frame [frame]: "proc_freepagetable pt sz s = Inr s' \<Longrightarrow> other s' = other s"
  by (auto simp: proc_freepagetable_def rbind_Inr_iff dest!: uvmfree_frame uvmunmap_frame)

text \<open>What \<^verbatim>\<open>freeproc\<close> leaves of an entry of the process table.\<close>

definition cleared :: "proc \<Rightarrow> proc" where
  "cleared x = x\<lparr>p_trapframe := 0, p_pagetable := 0, p_sz := 0, p_pid := 0, p_parent := None,
     p_name := (p_name x)(0 := 0), p_chan := None, p_killed := False, p_xstate := 0, p_state := UNUSED\<rparr>"

lemma freeproc_procs:
  assumes "freeproc p s = Inr s'"
  shows "procs s' = (procs s)(p := cleared (procs s p))" "nextpid s' = nextpid s" "held s' = held s" "cur s' = cur s"
proof -
  obtain s1 where s1: "(if p_trapframe (procs s p) \<noteq> 0 then kfree (p_trapframe (procs s p)) s else Inr s) = Inr s1"
    using assms by (auto simp: freeproc_def rbind_Inr_iff)
  let ?s2 = "set_proc p (\<lambda>x. x\<lparr>p_trapframe := 0\<rparr>) s1"
  obtain s3 where s3: "(if p_pagetable (procs ?s2 p) \<noteq> 0 then proc_freepagetable (p_pagetable (procs ?s2 p)) (p_sz (procs ?s2 p)) ?s2
      else Inr ?s2) = Inr s3" and s': "s' = set_proc p (\<lambda>x. x\<lparr>p_pagetable := 0, p_sz := 0, p_pid := 0, p_parent := None,
        p_name := (p_name x)(0 := 0), p_chan := None, p_killed := False, p_xstate := 0, p_state := UNUSED\<rparr>) s3"
    using assms s1 by (auto simp: freeproc_def rbind_Inr_iff Let_def)
  have e1: "other s1 = other s" using s1 by (auto dest: kfree_frame split: if_splits)
  have e3: "other s3 = other ?s2" using s3 by (auto dest: proc_freepagetable_frame split: if_splits)
  note f1 = other_fields(1-4) [OF e1] and f3 = other_fields(1-4) [OF e3]
  show "procs s' = (procs s)(p := cleared (procs s p))"
    using f1 f3 by (simp add: s' set_proc_def cleared_def)
  show "nextpid s' = nextpid s" "held s' = held s" "cur s' = cur s"
    using f1 f3 by (simp_all add: s' set_proc_def)
qed

text \<open>
  The invariant: the identifiers of the processes in use are positive, below \<^verbatim>\<open>nextpid\<close> and different.
\<close>

definition pid_inv :: "kstate \<Rightarrow> bool" where
  "pid_inv s \<longleftrightarrow> 0 < nextpid s \<and>
     (\<forall>p<NPROC. p_state (procs s p) \<noteq> UNUSED \<longrightarrow> 0 < p_pid (procs s p) \<and> p_pid (procs s p) < nextpid s) \<and>
     (\<forall>p<NPROC. p_state (procs s p) = UNUSED \<longrightarrow> p_pid (procs s p) = 0) \<and>
     inj_on (\<lambda>p. p_pid (procs s p)) {p. p < NPROC \<and> p_state (procs s p) \<noteq> UNUSED}"

abbreviation live :: "kstate \<Rightarrow> nat set" where
  "live s \<equiv> {p. p < NPROC \<and> p_state (procs s p) \<noteq> UNUSED}"

lemma pid_invI:
  assumes "0 < nextpid s"
    and "\<And>p. p < NPROC \<Longrightarrow> p_state (procs s p) \<noteq> UNUSED \<Longrightarrow> 0 < p_pid (procs s p) \<and> p_pid (procs s p) < nextpid s"
    and "\<And>p. p < NPROC \<Longrightarrow> p_state (procs s p) = UNUSED \<Longrightarrow> p_pid (procs s p) = 0"
    and "inj_on (\<lambda>p. p_pid (procs s p)) (live s)"
  shows "pid_inv s"
  unfolding pid_inv_def using assms by blast

lemma pid_invD:
  assumes "pid_inv s"
  shows "0 < nextpid s"
    "p < NPROC \<Longrightarrow> p_state (procs s p) \<noteq> UNUSED \<Longrightarrow> 0 < p_pid (procs s p) \<and> p_pid (procs s p) < nextpid s"
    "p < NPROC \<Longrightarrow> p_state (procs s p) = UNUSED \<Longrightarrow> p_pid (procs s p) = 0"
    "inj_on (\<lambda>p. p_pid (procs s p)) (live s)"
  using assms unfolding pid_inv_def by blast+

lemma pid_inv_same:
  assumes i: "pid_inv s" and n: "nextpid s' = nextpid s"
    and e: "\<And>p. p < NPROC \<Longrightarrow> p_pid (procs s' p) = p_pid (procs s p)"
      "\<And>p. p < NPROC \<Longrightarrow> p_state (procs s' p) = UNUSED \<longleftrightarrow> p_state (procs s p) = UNUSED"
  shows "pid_inv s'"
proof (rule pid_invI)
  have l: "live s' = live s" using e(2) by (intro Collect_cong conj_cong) simp_all
  show "inj_on (\<lambda>p. p_pid (procs s' p)) (live s')"
    unfolding l using pid_invD(4) [OF i] e(1) by (auto simp: inj_on_def)
qed (use pid_invD [OF i] n e in simp_all)

lemma pid_inv_free:
  assumes i: "pid_inv s" and f: "procs s' = (procs s)(p := cleared (procs s p))" "nextpid s' = nextpid s"
  shows "pid_inv s'"
proof (rule pid_invI)
  have u: "p_state (procs s' p) = UNUSED" "p_pid (procs s' p) = 0" and o: "\<And>q. q \<noteq> p \<Longrightarrow> procs s' q = procs s q"
    using f(1) by (simp_all add: cleared_def)
  have "live s' = live s - {p}" using u(1) o by force
  then show "inj_on (\<lambda>q. p_pid (procs s' q)) (live s')"
    using pid_invD(4) [OF i] o by (simp add: inj_on_def)
  show "0 < nextpid s'" using pid_invD(1) [OF i] f(2) by simp
  show "0 < p_pid (procs s' q) \<and> p_pid (procs s' q) < nextpid s'" if "q < NPROC" "p_state (procs s' q) \<noteq> UNUSED" for q
    using that u(1) o [of q] f(2) pid_invD(2) [OF i, of q] by (cases "q = p") simp_all
  show "p_pid (procs s' q) = 0" if "q < NPROC" "p_state (procs s' q) = UNUSED" for q
    using that u(2) o [of q] pid_invD(3) [OF i, of q] by (cases "q = p") simp_all
qed

lemma pid_inv_new:
  assumes i: "pid_inv s" and p: "p < NPROC" "p_state (procs s p) = UNUSED" and n: "nextpid s' = nextpid s + 1"
    and new: "p_pid (procs s' p) = nextpid s" "p_state (procs s' p) \<noteq> UNUSED" and o: "\<And>q. q \<noteq> p \<Longrightarrow> procs s' q = procs s q"
  shows "pid_inv s'"
proof (rule pid_invI)
  have ne: "p_pid (procs s q) \<noteq> nextpid s" if "q < NPROC" "p_state (procs s q) \<noteq> UNUSED" for q
    using pid_invD(2) [OF i that] by simp
  have l: "live s' = insert p (live s)" and np: "p \<notin> live s" using p new(2) o by force+
  have c: "p_pid (procs s' q) = p_pid (procs s q)" if "q \<in> live s" for q using that np o [of q] by fastforce
  have "inj_on (\<lambda>q. p_pid (procs s' q)) (live s)" using pid_invD(4) [OF i] c by (simp add: inj_on_def)
  moreover have "p_pid (procs s' q) \<noteq> p_pid (procs s' p)" if "q \<in> live s" for q
    using c [OF that] ne [of q] that new(1) by simp
  then have "p_pid (procs s' p) \<notin> (\<lambda>q. p_pid (procs s' q)) ` (live s - {p})"
    by (metis (no_types, lifting) DiffD1 imageE)
  ultimately show "inj_on (\<lambda>q. p_pid (procs s' q)) (live s')"
    unfolding l inj_on_insert by blast
  show "0 < nextpid s'" using pid_invD(1) [OF i] n by simp
  show "0 < p_pid (procs s' q) \<and> p_pid (procs s' q) < nextpid s'" if "q < NPROC" "p_state (procs s' q) \<noteq> UNUSED" for q
    using that new(1) o [of q] n pid_invD(1) [OF i] pid_invD(2) [OF i, of q] by (cases "q = p") auto
  show "p_pid (procs s' q) = 0" if "q < NPROC" "p_state (procs s' q) = UNUSED" for q
    using that new(2) o [of q] pid_invD(3) [OF i, of q] by (cases "q = p") simp_all
qed

lemma allocproc_fail_procs:
  assumes "allocproc_fail p s = Inr (r, s')"
  shows "r = None \<and> procs s' = (procs s)(p := cleared (procs s p)) \<and> nextpid s' = nextpid s"
proof -
  obtain s1 where s1: "freeproc p s = Inr s1" "release (Lk_proc p) s1 = Inr s'" "r = None"
    using assms by (auto simp: allocproc_fail_def rbind_Inr_iff)
  from freeproc_procs [OF s1(1)] s1(2,3) show ?thesis by (simp add: release_Inr_iff)
qed

text \<open>
  The two outcomes of \<^verbatim>\<open>allocproc\<close>: a free entry of the table, with a new identifier, or nothing
  taken.
\<close>

lemma allocproc_outcome:
  assumes a: "allocproc s = Inr (r, s')" and np: "no_plocks s" and few: "0 < nextpid s" "nextpid s + 1 < 2 ^ 31"
  shows "(\<exists>p. r = Some p \<and> first_in UNUSED 0 s = Some p \<and> nextpid s' = nextpid s + 1 \<and>
       p_pid (procs s' p) = nextpid s \<and> p_state (procs s' p) = USED \<and> (\<forall>q. q \<noteq> p \<longrightarrow> procs s' q = procs s q)) \<or>
     r = None \<and> nextpid s \<le> nextpid s' \<and> nextpid s' \<le> nextpid s + 1 \<and>
       (procs s' = procs s \<or> (\<exists>p. first_in UNUSED 0 s = Some p \<and> p_state (procs s' p) = UNUSED \<and> p_pid (procs s' p) = 0 \<and>
          (\<forall>q. q \<noteq> p \<longrightarrow> procs s' q = procs s q)))"
proof (cases "first_in UNUSED 0 s")
  case None
  then show ?thesis using a by (simp add: allocproc_def find_unused_eq [OF np])
next
  case (Some p)
  let ?s1 = "s\<lparr>held := Lk_proc p # held s\<rparr>"
  obtain pid s2 where p: "allocpid ?s1 = Inr (pid, s2)"
    using a by (auto simp: allocproc_def find_unused_eq [OF np] Some rbind_Inr_iff)
  moreover have "signed_take_bit 31 (nextpid s + 1) = nextpid s + 1" using few by (simp add: signed_take_bit_int_eq_self)
  ultimately have s2: "pid = nextpid s" "s2 = ?s1\<lparr>nextpid := nextpid s + 1\<rparr>"
    by (auto simp: allocpid_def rbind_Inr_iff acquire_Inr_iff release_Inr_iff)
  let ?s3 = "set_proc p (\<lambda>x. x\<lparr>p_pid := pid, p_state := USED\<rparr>) s2"
  obtain tf s4 where k: "kalloc ?s3 = Inr (tf, s4)"
    using a p by (auto simp: allocproc_def find_unused_eq [OF np] Some rbind_Inr_iff)
  note f4 = other_fields(1,4) [OF kalloc_frame [OF k]]
  let ?s5 = "set_proc p (\<lambda>x. x\<lparr>p_trapframe := tf\<rparr>) s4"
  show ?thesis
  proof (cases "tf = 0")
    case True
    then have "allocproc_fail p ?s5 = Inr (r, s')"
      using a p k by (simp add: allocproc_def find_unused_eq [OF np] Some)
    from allocproc_fail_procs [OF this] Some show ?thesis
      using f4 s2 by (auto simp: set_proc_def cleared_def)
  next
    case False
    let ?s6 = "set_tframe tf (\<lambda>_. trapframe_junk) ?s5"
    obtain pt s7 where t: "proc_pagetable p ?s6 = Inr (pt, s7)"
      using a p k False by (auto simp: allocproc_def find_unused_eq [OF np] Some rbind_Inr_iff)
    note f7 = other_fields(1,4) [OF proc_pagetable_frame [OF t]]
    let ?s8 = "set_proc p (\<lambda>x. x\<lparr>p_pagetable := pt\<rparr>) s7"
    show ?thesis
    proof (cases "pt = 0")
      case True
      then have "allocproc_fail p ?s8 = Inr (r, s')"
        using a p k False t by (simp add: allocproc_def find_unused_eq [OF np] Some)
      from allocproc_fail_procs [OF this] Some show ?thesis
        using f7 f4 s2 by (auto simp: set_proc_def set_tframe_def cleared_def)
    next
      case pt: False
      then have "r = Some p" "s' = set_proc p (\<lambda>x. x\<lparr>p_context := context0\<lparr>ctx_ra := sym_forkret ?s8,
            ctx_sp := p_kstack x + 4096\<rparr>\<rparr>) ?s8"
        using a p k False t by (simp_all add: allocproc_def find_unused_eq [OF np] Some Let_def)
      then show ?thesis
        using Some f7 f4 s2 by (simp add: set_proc_def set_tframe_def)
    qed
  qed
qed

lemma pid_inv_mono: "pid_inv s \<Longrightarrow> procs s' = procs s \<Longrightarrow> nextpid s \<le> nextpid s' \<Longrightarrow> pid_inv s'"
  by (rule pid_invI) (auto dest: pid_invD(1,3,4) pid_invD(2) simp: order_less_le_trans)

lemma allocproc_pid_inv:
  assumes "pid_inv s" "no_plocks s" "allocproc s = Inr (r, s')" "nextpid s + 1 < 2 ^ 31"
  shows "pid_inv s' \<and> nextpid s' \<le> nextpid s + 1"
proof -
  have first: "p < NPROC \<and> p_state (procs s p) = UNUSED" if "first_in UNUSED 0 s = Some p" for p
    using scan_hit [OF that] by simp
  from allocproc_outcome [OF assms(3,2) pid_invD(1) [OF assms(1)] assms(4)] show ?thesis
  proof (elim disjE exE conjE)
    fix p assume "first_in UNUSED 0 s = Some p" "nextpid s' = nextpid s + 1" "p_pid (procs s' p) = nextpid s"
      "p_state (procs s' p) = USED" "\<forall>q. q \<noteq> p \<longrightarrow> procs s' q = procs s q"
    then show ?thesis using first [of p] by (intro conjI pid_inv_new [OF assms(1), of p]) simp_all
  next
    assume "nextpid s \<le> nextpid s'" "nextpid s' \<le> nextpid s + 1" "procs s' = procs s"
    then show ?thesis using pid_inv_mono [OF assms(1)] by blast
  next
    fix p assume n: "nextpid s \<le> nextpid s'" "nextpid s' \<le> nextpid s + 1" and p: "first_in UNUSED 0 s = Some p" "p_state (procs s' p) = UNUSED"
      "p_pid (procs s' p) = 0" and o: "\<forall>q. q \<noteq> p \<longrightarrow> procs s' q = procs s q"
    have i: "pid_inv (s\<lparr>nextpid := nextpid s'\<rparr>)"
      using pid_inv_mono [OF assms(1), of "s\<lparr>nextpid := nextpid s'\<rparr>"] n by simp
    have z: "p_pid (procs s p) = 0" using pid_invD(3) [OF assms(1)] first [OF p(1)] by simp
    have "p_pid (procs s' q) = p_pid (procs s q)" "p_state (procs s' q) = UNUSED \<longleftrightarrow> p_state (procs s q) = UNUSED" for q
      using p(2,3) o z first [OF p(1)] by (cases "q = p"; simp)+
    then show ?thesis using n(2) by (intro conjI pid_inv_same [OF i]) simp_all
  qed
qed

text \<open>
  The operations on the process table, as the kernel calls them: with no process lock held, and those
  of a running process by that process.
\<close>

datatype proc_call = Call_alloc | Call_free nat | Call_kill int | Call_setkilled nat | Call_wakeup chan
  | Call_sleep chan spin | Call_awake spin | Call_yield | Call_schedule nat | Call_grow int

fun proc_op :: "proc_call \<Rightarrow> kstate \<Rightarrow> kstate \<Rightarrow> bool" where
  "proc_op Call_alloc s s' \<longleftrightarrow> no_plocks s \<and> (\<exists>r. allocproc s = Inr (r, s'))"
| "proc_op (Call_free p) s s' \<longleftrightarrow> freeproc p s = Inr s'"
| "proc_op (Call_kill pid) s s' \<longleftrightarrow> no_plocks s \<and> (\<exists>r. kkill pid s = Inr (r, s'))"
| "proc_op (Call_setkilled p) s s' \<longleftrightarrow> setkilled p s = Inr s'"
| "proc_op (Call_wakeup ch) s s' \<longleftrightarrow> no_plocks s \<and> wakeup ch s = Inr s'"
| "proc_op (Call_sleep ch lk) s s' \<longleftrightarrow> p_state (myproc s) = RUNNING \<and> sleep_enter ch lk s = Inr s'"
| "proc_op (Call_awake lk) s s' \<longleftrightarrow> sleep_exit lk s = Inr s'"
| "proc_op Call_yield s s' \<longleftrightarrow> p_state (myproc s) = RUNNING \<and> yield_enter s = Inr s'"
| "proc_op (Call_schedule k) s s' \<longleftrightarrow> no_plocks s \<and> (\<exists>r. scheduler_scan k s = Inr (r, s'))"
| "proc_op (Call_grow n) s s' \<longleftrightarrow> (\<exists>r. growproc n s = Inr (r, s'))"

inductive proc_run :: "kstate \<Rightarrow> proc_call list \<Rightarrow> kstate \<Rightarrow> bool" where
  run_nil: "proc_run s [] s"
| run_snoc: "proc_run s cs s1 \<Longrightarrow> proc_op c s1 s2 \<Longrightarrow> proc_run s (cs @ [c]) s2"

lemma other_procs: "other s' = other s \<Longrightarrow> procs s' = procs s \<and> nextpid s' = nextpid s"
  by (intro conjI other_fields)

definition resized :: "kstate \<Rightarrow> kstate \<Rightarrow> bool" where
  "resized s s' \<longleftrightarrow> nextpid s' = nextpid s \<and> (\<forall>p. p_pid (procs s' p) = p_pid (procs s p) \<and> p_state (procs s' p) = p_state (procs s p))"

lemma resized_size: "other s1 = other s \<Longrightarrow> resized s s1" "other s1 = other s \<Longrightarrow> resized s (set_proc p (\<lambda>x. x\<lparr>p_sz := z\<rparr>) s1)"
  using other_procs [of s1 s] by (auto simp: resized_def set_proc_def)

lemma growproc_frame:
  assumes g: "growproc n s = Inr (r, s')"
  shows "resized s s'"
proof -
  let ?pt = "p_pagetable (myproc s)" and ?sz = "p_sz (myproc s)"
  consider "0 < n" | "n < 0" | "n = 0" by linarith
  then show ?thesis
  proof cases
    case 1
    then obtain z s1 where u: "uvmalloc ?pt ?sz (?sz + word_of_int n) PTE_W s = Inr (z, s1)"
      and s': "s' = (if z = 0 then s1 else set_proc (cur s) (\<lambda>x. x\<lparr>p_sz := z\<rparr>) s1)"
      using g by (cases "uvmalloc ?pt ?sz (?sz + word_of_int n) PTE_W s") (auto simp: growproc_def Let_def split: if_splits)
    show ?thesis unfolding s' using resized_size uvmalloc_frame [OF u] by simp
  next
    case 2
    then obtain z s1 where u: "uvmdealloc ?pt ?sz (?sz + word_of_int n) s = Inr (z, s1)"
      and s': "s' = set_proc (cur s) (\<lambda>x. x\<lparr>p_sz := z\<rparr>) s1"
      using g by (cases "uvmdealloc ?pt ?sz (?sz + word_of_int n) s") (auto simp: growproc_def Let_def)
    show ?thesis unfolding s' using resized_size uvmdealloc_frame [OF u] by simp
  next
    case 3
    then have "s' = set_proc (cur s) (\<lambda>x. x\<lparr>p_sz := ?sz\<rparr>) s" using g by (simp add: growproc_def Let_def)
    then show ?thesis using resized_size(2) [of s s] by simp
  qed
qed

text \<open>Every allocation takes an identifier; the bound keeps \<^verbatim>\<open>nextpid\<close> from wrapping around.\<close>

definition allocs :: "proc_call list \<Rightarrow> int" where
  "allocs cs = int (length (filter ((=) Call_alloc) cs))"

lemma pid_inv_le:
  assumes "pid_inv s" "nextpid s' = nextpid s"
    "\<And>p. p < NPROC \<Longrightarrow> p_pid (procs s' p) = p_pid (procs s p)"
    "\<And>p. p < NPROC \<Longrightarrow> p_state (procs s' p) = UNUSED \<longleftrightarrow> p_state (procs s p) = UNUSED"
  shows "pid_inv s' \<and> nextpid s' \<le> nextpid s + allocs cs"
  using pid_inv_same [OF assms] assms(2) by (simp add: allocs_def)

lemma proc_op_pid_inv:
  assumes "proc_op c s s'" "pid_inv s" "nextpid s + allocs [c] < 2 ^ 31"
  shows "pid_inv s' \<and> nextpid s' \<le> nextpid s + allocs [c]"
proof (cases c)
  case Call_alloc
  then show ?thesis using allocproc_pid_inv [OF assms(2)] assms(1,3) by (auto simp: allocs_def)
next
  case (Call_free p)
  then show ?thesis using freeproc_procs [of p s s'] pid_inv_free [OF assms(2), of s' p] assms(1) by (simp add: allocs_def)
next
  case (Call_kill pid)
  with assms(1) show ?thesis
    by (intro pid_inv_le [OF assms(2)]) (auto simp: kkill_def kkill_loop_eq set_proc_def struck_def split: option.splits if_splits)
next
  case (Call_setkilled p)
  with assms(1) show ?thesis
    by (intro pid_inv_le [OF assms(2)]) (auto simp: setkilled_def rbind_Inr_iff acquire_Inr_iff release_Inr_iff set_proc_def split: if_splits)
next
  case (Call_wakeup ch)
  with assms(1) show ?thesis by (intro pid_inv_le [OF assms(2)]) (auto simp: wakeup_eq woken_def split: if_splits)
next
  case (Call_sleep ch lk)
  with assms(1) show ?thesis
    by (intro pid_inv_le [OF assms(2)]) (auto simp: sleep_enter_def rbind_Inr_iff acquire_Inr_iff release_Inr_iff
        sched_def set_proc_def split: if_splits)
next
  case (Call_awake lk)
  with assms(1) show ?thesis
    by (intro pid_inv_le [OF assms(2)]) (auto simp: sleep_exit_def Let_def rbind_Inr_iff acquire_Inr_iff release_Inr_iff set_proc_def split: if_splits)
next
  case Call_yield
  with assms(1) show ?thesis
    by (intro pid_inv_le [OF assms(2)]) (auto simp: yield_enter_def rbind_Inr_iff acquire_Inr_iff sched_def set_proc_def split: if_splits)
next
  case (Call_schedule k)
  with assms(1) show ?thesis
    by (intro pid_inv_le [OF assms(2)]) (auto simp: scheduler_scan_eq switched_def set_proc_def scan_Some_iff split: option.splits if_splits)
next
  case (Call_grow n)
  then obtain r where "growproc n s = Inr (r, s')" using assms(1) by auto
  from growproc_frame [OF this] show ?thesis by (intro pid_inv_le [OF assms(2)]) (auto simp: resized_def)
qed

lemma proc_run_pid_inv:
  assumes "proc_run s cs s'" "pid_inv s" "nextpid s + allocs cs < 2 ^ 31"
  shows "pid_inv s' \<and> nextpid s' \<le> nextpid s + allocs cs"
  using assms
proof induction
  case (run_nil s)
  then show ?case by (simp add: allocs_def)
next
  case (run_snoc s cs s1 c s2)
  have "allocs (cs @ [c]) = allocs cs + allocs [c]" "0 \<le> allocs [c]" by (simp_all add: allocs_def)
  with run_snoc proc_op_pid_inv [OF run_snoc.hyps(2)] show ?case by simp
qed

subsection \<open>Properties\<close>

text \<open>
  Example process tables: three processes with identifiers 1 to 3, the second one asleep on the
  console, the others in the given state.
\<close>

definition three_procs :: "procstate \<Rightarrow> kstate" where
  "three_procs st = (kstate0 0x80020000 (\<lambda>_ _. 0))\<lparr>nextpid := 4,
     procs := (\<lambda>_. proc0)(0 := proc0\<lparr>p_state := st, p_pid := 1\<rparr>,
       1 := proc0\<lparr>p_state := SLEEPING, p_chan := Some Chan_cons, p_pid := 2\<rparr>, 2 := proc0\<lparr>p_state := st, p_pid := 3\<rparr>)\<rparr>"

lemma three_procs_inv: "pid_inv (three_procs RUNNABLE)" "no_plocks (three_procs RUNNABLE)"
proof -
  have "live (three_procs RUNNABLE) = {0, 1, 2}" by (auto simp: three_procs_def proc0_def)
  then show "pid_inv (three_procs RUNNABLE)"
    by (intro pid_invI) (auto simp: three_procs_def proc0_def split: if_splits)
  show "no_plocks (three_procs RUNNABLE)" by (simp add: three_procs_def no_plocks_def)
qed


lemma boot_pid_inv: "pid_inv (kstate0 e d)"
  by (rule pid_invI) (simp_all add: proc0_def)






end
