(* ===== verification/Fs.thy ===== *)
theory Fs
  imports Log Proc
begin

text \<open>
  The file system, \<^verbatim>\<open>kernel/fs.c\<close>: the block allocator, inodes, file content, directories and
  path names. A pointer to an inode is an index of the table \<open>itable\<close>; a buffer is an index of the
  cache. A path is the list of its characters before the terminating zero; the array \<^verbatim>\<open>name\<close> of
  a path element is passed in and returned.
\<close>

subsection \<open>The superblock and the block allocator\<close>

definition load_sb :: "block \<Rightarrow> superblock" where
  "load_sb d = \<lparr>sb_magic = get32 d 0, sb_size = get32 d 4, sb_nblocks = get32 d 8,
     sb_ninodes = get32 d 12, sb_nlog = get32 d 16, sb_logstart = get32 d 20,
     sb_inodestart = get32 d 24, sb_bmapstart = get32 d 28\<rparr>"

definition readsb :: "u32 \<Rightarrow> kstate \<Rightarrow> kstate result" where
  "readsb dev s =
     rbind (bread dev 1 s) (\<lambda>(bp, s).
     brelse bp (s\<lparr>sb := load_sb (b_data (bufs s bp))\<rparr>))"

definition BBLOCK :: "nat \<Rightarrow> superblock \<Rightarrow> u32" where
  "BBLOCK b sblk = of_nat (b div BPB) + sb_bmapstart sblk"

definition IBLOCK :: "nat \<Rightarrow> superblock \<Rightarrow> u32" where
  "IBLOCK i sblk = of_nat (i div IPB) + sb_inodestart sblk"

definition bzero :: "u32 \<Rightarrow> u32 \<Rightarrow> kstate \<Rightarrow> kstate result" where
  "bzero dev bno s =
     rbind (bread dev bno s) (\<lambda>(bp, s).
     rbind (log_write bp (set_data bp (memset (b_data (bufs s bp)) 0 0 BSIZE) s)) (\<lambda>s.
     brelse bp s))"

text \<open>Bit \<^verbatim>\<open>bi\<close> of a bitmap block.\<close>

definition bmap_mask :: "nat \<Rightarrow> byte" where
  "bmap_mask bi = push_bit (bi mod 8) 1"

definition bmap_free :: "block \<Rightarrow> nat \<Rightarrow> bool" where
  "bmap_free d bi \<longleftrightarrow> d (bi div 8) AND bmap_mask bi = 0"

definition bmap_mark :: "block \<Rightarrow> nat \<Rightarrow> block" where
  "bmap_mark d bi = d(bi div 8 := d (bi div 8) OR bmap_mask bi)"

definition bmap_clear :: "block \<Rightarrow> nat \<Rightarrow> block" where
  "bmap_clear d bi = d(bi div 8 := d (bi div 8) AND NOT (bmap_mask bi))"

lemma unat_less_32: "unat (w :: u32) < 2 ^ 32"
  using unsigned_less [of w, where ?'a = nat] by simp

lemma below_word: "n < unat (w :: u32) \<Longrightarrow> n < 2 ^ 32"
  by (rule less_trans) (assumption, rule unat_less_32)

text \<open>The block number \<^verbatim>\<open>b\<close> is an \<^verbatim>\<open>int\<close>; it stays below the size of the file system.\<close>

function balloc_loop :: "u32 \<Rightarrow> nat \<Rightarrow> kstate \<Rightarrow> (u32 \<times> kstate) result" where
  "balloc_loop dev b s =
     (if b < unat (sb_size (sb s)) then
        rbind (bread dev (BBLOCK b (sb s)) s) (\<lambda>(bp, s).
        case scan (bmap_free (b_data (bufs s bp))) 0 (min BPB (unat (sb_size (sb s)) - b)) of
          Some bi \<Rightarrow>
            rbind (log_write bp (set_data bp (bmap_mark (b_data (bufs s bp)) bi) s)) (\<lambda>s.
            rbind (brelse bp s) (\<lambda>s.
            rbind (bzero dev (of_nat (b + bi)) s) (\<lambda>s.
            Inr (of_nat (b + bi), s))))
        | None \<Rightarrow> rbind (brelse bp s) (\<lambda>s. balloc_loop dev (b + BPB) s))
      else
        rbind (printf (str (''balloc: out of blocks'' @ [CHR 0x0A])) [] s) (\<lambda>s. Inr (0, s)))"
  by pat_completeness auto
termination
  by (relation "measure (\<lambda>(dev, b, s). 2 ^ 32 - b)") (auto dest: below_word)

declare balloc_loop.simps [simp del]

definition balloc :: "u32 \<Rightarrow> kstate \<Rightarrow> (u32 \<times> kstate) result" where
  "balloc dev s = balloc_loop dev 0 s"

definition bfree :: "u32 \<Rightarrow> u32 \<Rightarrow> kstate \<Rightarrow> kstate result" where
  "bfree dev b s =
     rbind (bread dev (BBLOCK (unat b) (sb s)) s) (\<lambda>(bp, s).
     let bi = unat b mod BPB in
     if bmap_free (b_data (bufs s bp)) bi then Inl (Panic ''freeing free block'')
     else
       rbind (log_write bp (set_data bp (bmap_clear (b_data (bufs s bp)) bi) s)) (\<lambda>s.
       brelse bp s))"

subsection \<open>Inodes\<close>

definition iinit :: "kstate \<Rightarrow> kstate" where
  "iinit s = fold (\<lambda>i. set_inode i (\<lambda>x. x\<lparr>i_lock := initsleeplock (i_lock x)\<rparr>)) [0..<NINODE] s"

text \<open>
  The on-disk inode \<^verbatim>\<open>struct dinode\<close>: four 16-bit fields, the size, and thirteen block numbers,
  64 bytes at offset \<open>64 * (inum mod 16)\<close> of its block.
\<close>

definition dinode_at :: "u32 \<Rightarrow> nat" where
  "dinode_at inum = DINODE_SIZE * (unat inum mod IPB)"

definition dinode_type :: "block \<Rightarrow> nat \<Rightarrow> u16" where
  "dinode_type d at = get16 d at"

definition dinode_nlink :: "block \<Rightarrow> nat \<Rightarrow> u16" where
  "dinode_nlink d at = get16 d (at + 6)"

definition load_dinode :: "block \<Rightarrow> nat \<Rightarrow> inode \<Rightarrow> inode" where
  "load_dinode d at ip = ip\<lparr>i_type := get16 d at, i_major := get16 d (at + 2),
     i_minor := get16 d (at + 4), i_nlink := get16 d (at + 6), i_size := get32 d (at + 8),
     i_addrs := (\<lambda>k. if k \<le> NDIRECT then get32 d (at + 12 + 4 * k) else i_addrs ip k)\<rparr>"

primrec put_addrs :: "(nat \<Rightarrow> u32) \<Rightarrow> nat \<Rightarrow> nat \<Rightarrow> block \<Rightarrow> block" where
  "put_addrs a off 0 d = d"
| "put_addrs a off (Suc k) d = put32 (put_addrs a off k d) (off + 4 * k) (a k)"

definition store_dinode :: "inode \<Rightarrow> nat \<Rightarrow> block \<Rightarrow> block" where
  "store_dinode ip at d =
     put_addrs (i_addrs ip) (at + 12) (Suc NDIRECT)
       (put32 (put16 (put16 (put16 (put16 d at (i_type ip)) (at + 2) (i_major ip))
         (at + 4) (i_minor ip)) (at + 6) (i_nlink ip)) (at + 8) (i_size ip))"

text \<open>
  The two searches of \<^verbatim>\<open>iget\<close> are one loop in the code; the free slot is used only when the loop
  ends without a match.
\<close>

definition iget :: "u32 \<Rightarrow> u32 \<Rightarrow> kstate \<Rightarrow> (nat \<times> kstate) result" where
  "iget dev inum s =
     rbind (acquire Lk_itable s) (\<lambda>s.
     case scan (\<lambda>i. i_ref (itable s i) > 0 \<and> i_dev (itable s i) = dev \<and> i_inum (itable s i) = inum)
            0 NINODE of
       Some ip \<Rightarrow>
         rbind (release Lk_itable (set_inode ip (\<lambda>x. x\<lparr>i_ref := i_ref x + 1\<rparr>) s)) (\<lambda>s.
         Inr (ip, s))
     | None \<Rightarrow>
         (case scan (\<lambda>i. i_ref (itable s i) = 0) 0 NINODE of
            None \<Rightarrow> Inl (Panic ''iget: no inodes'')
          | Some ip \<Rightarrow>
              rbind (release Lk_itable (set_inode ip (\<lambda>x. x\<lparr>i_dev := dev, i_inum := inum,
                       i_ref := 1, i_valid := False\<rparr>) s)) (\<lambda>s.
              Inr (ip, s))))"

function ialloc_loop :: "u32 \<Rightarrow> u16 \<Rightarrow> nat \<Rightarrow> kstate \<Rightarrow> (nat option \<times> kstate) result" where
  "ialloc_loop dev type inum s =
     (if inum < unat (sb_ninodes (sb s)) then
        rbind (bread dev (IBLOCK inum (sb s)) s) (\<lambda>(bp, s).
        let at = DINODE_SIZE * (inum mod IPB); d = b_data (bufs s bp) in
        if dinode_type d at = 0 then
          rbind (log_write bp (set_data bp (put16 (memset d at 0 DINODE_SIZE) at type) s)) (\<lambda>s.
          rbind (brelse bp s) (\<lambda>s.
          rbind (iget dev (of_nat inum) s) (\<lambda>(ip, s). Inr (Some ip, s))))
        else rbind (brelse bp s) (\<lambda>s. ialloc_loop dev type (Suc inum) s))
      else
        rbind (printf (str (''ialloc: no inodes'' @ [CHR 0x0A])) [] s) (\<lambda>s. Inr (None, s)))"
  by pat_completeness auto
termination
  by (relation "measure (\<lambda>(dev, type, inum, s). 2 ^ 32 - inum)") (auto dest: below_word)

declare ialloc_loop.simps [simp del]

definition ialloc :: "u32 \<Rightarrow> u16 \<Rightarrow> kstate \<Rightarrow> (nat option \<times> kstate) result" where
  "ialloc dev type s = ialloc_loop dev type 1 s"

definition iupdate :: "nat \<Rightarrow> kstate \<Rightarrow> kstate result" where
  "iupdate ip s =
     rbind (bread (i_dev (itable s ip)) (IBLOCK (unat (i_inum (itable s ip))) (sb s)) s) (\<lambda>(bp, s).
     let d = store_dinode (itable s ip) (dinode_at (i_inum (itable s ip))) (b_data (bufs s bp)) in
     rbind (log_write bp (set_data bp d s)) (\<lambda>s.
     brelse bp s))"

definition idup :: "nat \<Rightarrow> kstate \<Rightarrow> (nat \<times> kstate) result" where
  "idup ip s =
     rbind (acquire Lk_itable s) (\<lambda>s.
     rbind (release Lk_itable (set_inode ip (\<lambda>x. x\<lparr>i_ref := i_ref x + 1\<rparr>) s)) (\<lambda>s.
     Inr (ip, s)))"

definition ilock :: "nat \<Rightarrow> kstate \<Rightarrow> kstate result" where
  "ilock ip s =
     (if i_ref (itable s ip) < 1 then Inl (Panic ''ilock'')
      else
        rbind (acquiresleep_inode ip s) (\<lambda>s.
        if \<not> i_valid (itable s ip) then
          rbind (bread (i_dev (itable s ip)) (IBLOCK (unat (i_inum (itable s ip))) (sb s)) s) (\<lambda>(bp, s).
          let s = set_inode ip (load_dinode (b_data (bufs s bp)) (dinode_at (i_inum (itable s ip)))) s in
          rbind (brelse bp s) (\<lambda>s.
          let s = set_inode ip (\<lambda>x. x\<lparr>i_valid := True\<rparr>) s in
          if i_type (itable s ip) = 0 then Inl (Panic ''ilock: no type'') else Inr s))
        else Inr s))"

definition iunlock :: "nat \<Rightarrow> kstate \<Rightarrow> kstate result" where
  "iunlock ip s =
     rbind (holdingsleep_inode ip s) (\<lambda>(h, s).
     if \<not> h \<or> i_ref (itable s ip) < 1 then Inl (Panic ''iunlock'')
     else releasesleep_inode ip s)"

subsection \<open>Inode content\<close>

definition set_addr :: "nat \<Rightarrow> nat \<Rightarrow> u32 \<Rightarrow> kstate \<Rightarrow> kstate" where
  "set_addr ip k a = set_inode ip (\<lambda>x. x\<lparr>i_addrs := (i_addrs x)(k := a)\<rparr>)"

definition bmap :: "nat \<Rightarrow> u32 \<Rightarrow> kstate \<Rightarrow> (u32 \<times> kstate) result" where
  "bmap ip bn s =
     (let dev = i_dev (itable s ip) in
      if unat bn < NDIRECT then
        let addr = i_addrs (itable s ip) (unat bn) in
        if addr = 0 then
          rbind (balloc dev s) (\<lambda>(addr, s).
          if addr = 0 then Inr (0, s) else Inr (addr, set_addr ip (unat bn) addr s))
        else Inr (addr, s)
      else
        let bn = unat bn - NDIRECT in
        if bn < NINDIRECT then
          rbind (let addr = i_addrs (itable s ip) NDIRECT in
                 if addr = 0 then
                   rbind (balloc dev s) (\<lambda>(addr, s).
                   if addr = 0 then Inr (0, s) else Inr (addr, set_addr ip NDIRECT addr s))
                 else Inr (addr, s)) (\<lambda>(addr, s).
          if addr = 0 then Inr (0, s)
          else
            rbind (bread dev addr s) (\<lambda>(bp, s).
            let addr = get32 (b_data (bufs s bp)) (4 * bn) in
            rbind (if addr = 0 then
                     rbind (balloc dev s) (\<lambda>(addr, s).
                     if addr \<noteq> 0 then
                       rbind (log_write bp (set_data bp (put32 (b_data (bufs s bp)) (4 * bn) addr) s)) (\<lambda>s.
                       Inr (addr, s))
                     else Inr (addr, s))
                   else Inr (addr, s)) (\<lambda>(addr, s).
            rbind (brelse bp s) (\<lambda>s.
            Inr (addr, s)))))
        else Inl (Panic ''bmap: out of range''))"

definition itrunc :: "nat \<Rightarrow> kstate \<Rightarrow> kstate result" where
  "itrunc ip s =
     rbind (rfold (\<lambda>i s.
              if i_addrs (itable s ip) i \<noteq> 0 then
                rbind (bfree (i_dev (itable s ip)) (i_addrs (itable s ip) i) s) (\<lambda>s.
                Inr (set_addr ip i 0 s))
              else Inr s) [0..<NDIRECT] s) (\<lambda>s.
     rbind (if i_addrs (itable s ip) NDIRECT \<noteq> 0 then
              rbind (bread (i_dev (itable s ip)) (i_addrs (itable s ip) NDIRECT) s) (\<lambda>(bp, s).
              rbind (rfold (\<lambda>j s.
                       let a = get32 (b_data (bufs s bp)) (4 * j) in
                       if a \<noteq> 0 then bfree (i_dev (itable s ip)) a s else Inr s) [0..<NINDIRECT] s) (\<lambda>s.
              rbind (brelse bp s) (\<lambda>s.
              rbind (bfree (i_dev (itable s ip)) (i_addrs (itable s ip) NDIRECT) s) (\<lambda>s.
              Inr (set_addr ip NDIRECT 0 s)))))
            else Inr s) (\<lambda>s.
     iupdate ip (set_inode ip (\<lambda>x. x\<lparr>i_size := 0\<rparr>) s)))"

definition iput :: "nat \<Rightarrow> kstate \<Rightarrow> kstate result" where
  "iput ip s =
     rbind (acquire Lk_itable s) (\<lambda>s.
     rbind (if i_ref (itable s ip) = 1 \<and> i_valid (itable s ip) \<and> i_nlink (itable s ip) = 0 then
              rbind (acquiresleep_inode ip s) (\<lambda>s.
              rbind (release Lk_itable s) (\<lambda>s.
              rbind (itrunc ip s) (\<lambda>s.
              rbind (iupdate ip (set_inode ip (\<lambda>x. x\<lparr>i_type := 0\<rparr>) s)) (\<lambda>s.
              rbind (releasesleep_inode ip (set_inode ip (\<lambda>x. x\<lparr>i_valid := False\<rparr>) s)) (\<lambda>s.
              acquire Lk_itable s)))))
            else Inr s) (\<lambda>s.
     release Lk_itable (set_inode ip (\<lambda>x. x\<lparr>i_ref := i_ref x - 1\<rparr>) s)))"

definition iunlockput :: "nat \<Rightarrow> kstate \<Rightarrow> kstate result" where
  "iunlockput ip s = rbind (iunlock ip s) (\<lambda>s. iput ip s)"

function ireclaim_loop :: "u32 \<Rightarrow> nat \<Rightarrow> kstate \<Rightarrow> kstate result" where
  "ireclaim_loop dev inum s =
     (if inum < unat (sb_ninodes (sb s)) then
        rbind (bread dev (IBLOCK inum (sb s)) s) (\<lambda>(bp, s).
        let at = DINODE_SIZE * (inum mod IPB); d = b_data (bufs s bp) in
        rbind (if dinode_type d at \<noteq> 0 \<and> dinode_nlink d at = 0 then
                 rbind (printf (str (''ireclaim: orphaned inode %d'' @ [CHR 0x0A])) [Num (of_nat inum)] s) (\<lambda>s.
                 rbind (iget dev (of_nat inum) s) (\<lambda>(ip, s). Inr (Some ip, s)))
               else Inr (None, s)) (\<lambda>(r, s).
        rbind (brelse bp s) (\<lambda>s.
        rbind (case r of None \<Rightarrow> Inr s
               | Some ip \<Rightarrow>
                   rbind (begin_op s) (\<lambda>s.
                   rbind (ilock ip s) (\<lambda>s.
                   rbind (iunlock ip s) (\<lambda>s.
                   rbind (iput ip s) (\<lambda>s.
                   end_op s))))) (\<lambda>s.
        ireclaim_loop dev (Suc inum) s))))
      else Inr s)"
  by pat_completeness auto
termination
  by (relation "measure (\<lambda>(dev, inum, s). 2 ^ 32 - inum)") (auto dest: below_word)

declare ireclaim_loop.simps [simp del]

definition ireclaim :: "u32 \<Rightarrow> kstate \<Rightarrow> kstate result" where
  "ireclaim dev s = ireclaim_loop dev 1 s"

definition fsinit :: "u32 \<Rightarrow> kstate \<Rightarrow> kstate result" where
  "fsinit dev s =
     rbind (readsb dev s) (\<lambda>s.
     if sb_magic (sb s) \<noteq> FSMAGIC then Inl (Panic ''invalid file system'')
     else
       rbind (initlog dev (sb s) s) (\<lambda>s.
       ireclaim dev s))"

text \<open>\<^verbatim>\<open>struct stat\<close>\<close>

record stat =
  st_dev :: int
  st_ino :: u32
  st_type :: u16
  st_nlink :: u16
  st_size :: u64

definition stati :: "nat \<Rightarrow> kstate \<Rightarrow> stat" where
  "stati ip s = \<lparr>st_dev = sint (i_dev (itable s ip)), st_ino = i_inum (itable s ip),
     st_type = i_type (itable s ip), st_nlink = i_nlink (itable s ip),
     st_size = ucast (i_size (itable s ip))\<rparr>"

text \<open>\<^verbatim>\<open>m = min(n - tot, BSIZE - off%BSIZE)\<close>\<close>

definition io_len :: "u32 \<Rightarrow> u32 \<Rightarrow> u32 \<Rightarrow> u32" where
  "io_len n tot off = (let a = n - tot; b = 1024 - off mod 1024 in if a < b then a else b)"

lemma unat_io_len: "tot < n \<Longrightarrow> unat (io_len n tot off) = min (unat n - unat tot) (1024 - unat off mod 1024)"
proof -
  assume "tot < n"
  moreover have "unat off mod 1024 < 1024" by simp
  ultimately show ?thesis
    by (simp add: io_len_def Let_def word_less_nat_alt word_le_nat_alt unat_sub unat_mod min_def)
qed

lemma io_len_less: "tot < n \<Longrightarrow> unat (n - (tot + io_len n tot off)) < unat (n - tot)"
proof -
  assume t: "tot < n"
  have m: "0 < unat (io_len n tot off)" "unat (io_len n tot off) \<le> unat n - unat tot"
    using t by (auto simp: unat_io_len word_less_nat_alt)
  then have "unat tot + unat (io_len n tot off) < 2 ^ 32"
    using unat_less_32 [of n] t by (simp add: word_less_nat_alt)
  then have "unat (tot + io_len n tot off) = unat tot + unat (io_len n tot off)"
    by (simp add: unat_plus_if')
  with m t show ?thesis by (simp add: unat_sub word_le_nat_alt word_less_nat_alt)
qed

function readi_loop :: "nat \<Rightarrow> uptr \<Rightarrow> u32 \<Rightarrow> u32 \<Rightarrow> u32 \<Rightarrow> kstate \<Rightarrow> (int \<times> uptr \<times> kstate) result" where
  "readi_loop ip dst off n tot s =
     (if tot < n then
        rbind (bmap ip (off div 1024) s) (\<lambda>(addr, s).
        if addr = 0 then Inr (sint tot, dst, s)
        else
          rbind (bread (i_dev (itable s ip)) addr s) (\<lambda>(bp, s).
          let m = io_len n tot off in
          rbind (either_copyout dst (Local (b_data (bufs s bp)) (unat (off mod 1024))) (ucast m) s)
            (\<lambda>(r, dst, s).
          if r = -1 then rbind (brelse bp s) (\<lambda>s. Inr (-1, dst, s))
          else
            rbind (brelse bp s) (\<lambda>s.
            readi_loop ip (uptr_add dst (ucast m)) (off + m) n (tot + m) s))))
      else Inr (sint tot, dst, s))"
  by pat_completeness auto
termination
  by (relation "measure (\<lambda>(ip, dst, off, n, tot, s). unat (n - tot))") (auto intro: io_len_less)

declare readi_loop.simps [simp del]

definition readi :: "nat \<Rightarrow> uptr \<Rightarrow> u32 \<Rightarrow> u32 \<Rightarrow> kstate \<Rightarrow> (int \<times> uptr \<times> kstate) result" where
  "readi ip dst off n s =
     (let size = i_size (itable s ip) in
      if off > size \<or> off + n < off then Inr (0, dst, s)
      else readi_loop ip dst off (if off + n > size then size - off else n) 0 s)"

text \<open>
  When \<^verbatim>\<open>either_copyin\<close> fails it may have copied part of the bytes into the buffer. The loop
  returns \<^verbatim>\<open>tot\<close> and \<^verbatim>\<open>off\<close>.
\<close>

function writei_loop :: "nat \<Rightarrow> uptr \<Rightarrow> u32 \<Rightarrow> u32 \<Rightarrow> u32 \<Rightarrow> kstate \<Rightarrow> (u32 \<times> u32 \<times> kstate) result" where
  "writei_loop ip src off n tot s =
     (if tot < n then
        rbind (bmap ip (off div 1024) s) (\<lambda>(addr, s).
        if addr = 0 then Inr (tot, off, s)
        else
          rbind (bread (i_dev (itable s ip)) addr s) (\<lambda>(bp, s).
          let m = io_len n tot off in
          rbind (either_copyin (Local (b_data (bufs s bp)) (unat (off mod 1024))) src (ucast m) s)
            (\<lambda>(r, dst, s).
          let s = set_data bp (kptr_data dst) s in
          if r = -1 then rbind (brelse bp s) (\<lambda>s. Inr (tot, off, s))
          else
            rbind (log_write bp s) (\<lambda>s.
            rbind (brelse bp s) (\<lambda>s.
            writei_loop ip (uptr_add src (ucast m)) (off + m) n (tot + m) s)))))
      else Inr (tot, off, s))"
  by pat_completeness auto
termination
  by (relation "measure (\<lambda>(ip, src, off, n, tot, s). unat (n - tot))") (auto intro: io_len_less)

declare writei_loop.simps [simp del]

definition writei :: "nat \<Rightarrow> uptr \<Rightarrow> u32 \<Rightarrow> u32 \<Rightarrow> kstate \<Rightarrow> (int \<times> kstate) result" where
  "writei ip src off n s =
     (if off > i_size (itable s ip) \<or> off + n < off then Inr (-1, s)
      else if unat (off + n) > MAXFILE * BSIZE then Inr (-1, s)
      else
        rbind (writei_loop ip src off n 0 s) (\<lambda>(tot, off, s).
        let s = (if off > i_size (itable s ip) then set_inode ip (\<lambda>x. x\<lparr>i_size := off\<rparr>) s else s) in
        rbind (iupdate ip s) (\<lambda>s.
        Inr (sint tot, s))))"

subsection \<open>Directories\<close>

text \<open>\<^verbatim>\<open>struct dirent\<close>: a 16-bit inode number and fourteen characters.\<close>

definition de_inum :: "bytes \<Rightarrow> u16" where
  "de_inum de = get16 de 0"

definition namecmp :: "bytes \<Rightarrow> nat \<Rightarrow> bytes \<Rightarrow> nat \<Rightarrow> int" where
  "namecmp a i b j = strncmp a i b j DIRSIZ"

fun uptr_data :: "uptr \<Rightarrow> bytes" where
  "uptr_data (User a) = (\<lambda>_. 0)"
| "uptr_data (Kern p) = kptr_data p"

text \<open>\<^verbatim>\<open>readi(dp, 0, (uint64)&de, off, sizeof(de))\<close>\<close>

definition read_dirent :: "nat \<Rightarrow> u32 \<Rightarrow> kstate \<Rightarrow> (int \<times> bytes \<times> kstate) result" where
  "read_dirent dp off s =
     rbind (readi dp (Kern (Local (\<lambda>_. 0) 0)) off 16 s) (\<lambda>(r, de, s). Inr (r, uptr_data de, s))"

lemma read_dirent_no_wrap: "read_dirent dp off s = Inr (16, x) \<Longrightarrow> unat off + 16 < 2 ^ 32"
proof -
  assume r: "read_dirent dp off s = Inr (16, x)"
  have "\<not> off + 16 < off"
  proof
    assume "off + 16 < off"
    then have "readi dp (Kern (Local (\<lambda>_. 0) 0)) off 16 s = Inr (0, Kern (Local (\<lambda>_. 0) 0), s)"
      by (simp add: readi_def)
    with r show False by (simp add: read_dirent_def)
  qed
  then show ?thesis by (simp add: word_less_nat_alt unat_plus_if' split: if_splits)
qed

lemma next_dirent_less: "unat (off :: u32) + 16 < 4294967296 \<Longrightarrow>
    4294967296 - unat (off + 16) < 4294967296 - unat off"
  by (simp add: unat_plus_if')

text \<open>The result also has the offset of the entry, for \<^verbatim>\<open>poff\<close>.\<close>

function dirlookup_loop :: "nat \<Rightarrow> bytes \<Rightarrow> u32 \<Rightarrow> kstate \<Rightarrow> ((nat \<times> u32) option \<times> kstate) result" where
  "dirlookup_loop dp name off s =
     (if off < i_size (itable s dp) then
        rbind (read_dirent dp off s) (\<lambda>(r, de, s).
        if r \<noteq> 16 then Inl (Panic ''dirlookup read'')
        else if de_inum de = 0 then dirlookup_loop dp name (off + 16) s
        else if namecmp name 0 de 2 = 0 then
          rbind (iget (i_dev (itable s dp)) (ucast (de_inum de)) s) (\<lambda>(ip, s).
          Inr (Some (ip, off), s))
        else dirlookup_loop dp name (off + 16) s)
      else Inr (None, s))"
  by pat_completeness auto
termination
  by (relation "measure (\<lambda>(dp, name, off, s). 2 ^ 32 - unat off)")
    (auto dest!: read_dirent_no_wrap intro: next_dirent_less)

declare dirlookup_loop.simps [simp del]

definition dirlookup :: "nat \<Rightarrow> bytes \<Rightarrow> kstate \<Rightarrow> ((nat \<times> u32) option \<times> kstate) result" where
  "dirlookup dp name s =
     (if i_type (itable s dp) \<noteq> T_DIR then Inl (Panic ''dirlookup not DIR'')
      else dirlookup_loop dp name 0 s)"

text \<open>The search of \<^verbatim>\<open>dirlink\<close> for an empty entry; the result is \<^verbatim>\<open>off\<close> after the loop.\<close>

function dirlink_loop :: "nat \<Rightarrow> u32 \<Rightarrow> kstate \<Rightarrow> (u32 \<times> kstate) result" where
  "dirlink_loop dp off s =
     (if off < i_size (itable s dp) then
        rbind (read_dirent dp off s) (\<lambda>(r, de, s).
        if r \<noteq> 16 then Inl (Panic ''dirlink read'')
        else if de_inum de = 0 then Inr (off, s)
        else dirlink_loop dp (off + 16) s)
      else Inr (off, s))"
  by pat_completeness auto
termination
  by (relation "measure (\<lambda>(dp, off, s). 2 ^ 32 - unat off)")
    (auto dest!: read_dirent_no_wrap intro: next_dirent_less)

declare dirlink_loop.simps [simp del]

definition make_dirent :: "bytes \<Rightarrow> u32 \<Rightarrow> bytes" where
  "make_dirent name inum = put16 (strncpy (\<lambda>_. 0) 2 name 0 DIRSIZ) 0 (ucast inum)"

definition dirlink :: "nat \<Rightarrow> bytes \<Rightarrow> u32 \<Rightarrow> kstate \<Rightarrow> (int \<times> kstate) result" where
  "dirlink dp name inum s =
     rbind (dirlookup dp name s) (\<lambda>(r, s).
     case r of
       Some (ip, _) \<Rightarrow> rbind (iput ip s) (\<lambda>s. Inr (-1, s))
     | None \<Rightarrow>
         rbind (dirlink_loop dp 0 s) (\<lambda>(off, s).
         rbind (writei dp (Kern (Local (make_dirent name inum) 0)) off 16 s) (\<lambda>(r, s).
         Inr (if r \<noteq> 16 then -1 else 0, s))))"

subsection \<open>Path names\<close>

abbreviation (input) slash :: byte where "slash \<equiv> 0x2F"

text \<open>The rest of the path, as a list of characters, and the new content of \<^verbatim>\<open>name\<close>.\<close>

definition bytes_of :: "byte list \<Rightarrow> bytes" where
  "bytes_of bs i = (if i < length bs then bs ! i else 0)"

definition skipelem :: "byte list \<Rightarrow> bytes \<Rightarrow> (byte list \<times> bytes) option" where
  "skipelem path name =
     (let path = dropWhile (\<lambda>c. c = slash) path in
      if path = [] then None
      else
        let s = takeWhile (\<lambda>c. c \<noteq> slash) path;
            path = dropWhile (\<lambda>c. c \<noteq> slash) path;
            len = length s;
            name = (if len \<ge> DIRSIZ then copy_bytes name 0 (bytes_of s) 0 DIRSIZ
                    else (copy_bytes name 0 (bytes_of s) 0 len)(len := 0)) in
        Some (dropWhile (\<lambda>c. c = slash) path, name))"

lemma skipelem_shorter: "skipelem path name = Some (path', name') \<Longrightarrow> length path' < length path"
proof -
  assume e: "skipelem path name = Some (path', name')"
  define p1 where "p1 = dropWhile (\<lambda>c. c = slash) path"
  define p2 where "p2 = dropWhile (\<lambda>c. c \<noteq> slash) p1"
  have ne: "p1 \<noteq> []" and p': "path' = dropWhile (\<lambda>c. c = slash) p2"
    using e by (auto simp: skipelem_def Let_def p1_def p2_def split: if_splits)
  from ne have "hd p1 \<noteq> slash" unfolding p1_def by (rule hd_dropWhile)
  with ne have "length p2 < length p1"
    by (cases p1) (auto simp: p2_def intro: le_less_trans [OF length_dropWhile_le])
  moreover have "length path' \<le> length p2" "length p1 \<le> length path"
    by (simp_all add: p' p1_def length_dropWhile_le)
  ultimately show ?thesis by simp
qed

function namex_loop :: "nat \<Rightarrow> byte list \<Rightarrow> bool \<Rightarrow> bytes \<Rightarrow> kstate \<Rightarrow>
    (nat option \<times> bytes \<times> kstate) result" where
  "namex_loop ip path parent name s =
     (case skipelem path name of
        None \<Rightarrow>
          if parent then rbind (iput ip s) (\<lambda>s. Inr (None, name, s))
          else Inr (Some ip, name, s)
      | Some (path, name) \<Rightarrow>
          rbind (ilock ip s) (\<lambda>s.
          if i_type (itable s ip) \<noteq> T_DIR then rbind (iunlockput ip s) (\<lambda>s. Inr (None, name, s))
          else if parent \<and> path = [] then rbind (iunlock ip s) (\<lambda>s. Inr (Some ip, name, s))
          else
            rbind (dirlookup ip name s) (\<lambda>(r, s).
            rbind (iunlockput ip s) (\<lambda>s.
            case r of None \<Rightarrow> Inr (None, name, s)
            | Some (nxt, _) \<Rightarrow> namex_loop nxt path parent name s))))"
  by pat_completeness auto
termination
  by (relation "measure (\<lambda>(ip, path, parent, name, s). length path)")
    (auto dest: skipelem_shorter)

declare namex_loop.simps [simp del]

text \<open>A process without a current directory has a null pointer there, which \<^verbatim>\<open>idup\<close> follows.\<close>

definition namex :: "byte list \<Rightarrow> bool \<Rightarrow> bytes \<Rightarrow> kstate \<Rightarrow> (nat option \<times> bytes \<times> kstate) result" where
  "namex path parent name s =
     rbind (if path \<noteq> [] \<and> hd path = slash then iget ROOTDEV ROOTINO s
            else case p_cwd (myproc s) of None \<Rightarrow> Inl (Panic ''kerneltrap'') | Some ip \<Rightarrow> idup ip s)
     (\<lambda>(ip, s). namex_loop ip path parent name s)"

definition namei :: "byte list \<Rightarrow> kstate \<Rightarrow> (nat option \<times> kstate) result" where
  "namei path s = rbind (namex path False (\<lambda>_. 0) s) (\<lambda>(ip, _, s). Inr (ip, s))"

definition nameiparent :: "byte list \<Rightarrow> bytes \<Rightarrow> kstate \<Rightarrow> (nat option \<times> bytes \<times> kstate) result" where
  "nameiparent path name s = namex path True name s"

end
