(* ===== verification/File.thy ===== *)
theory File
  imports Fs Console
begin

text \<open>
  Open files, \<^verbatim>\<open>kernel/file.c\<close>, and \<^verbatim>\<open>pipealloc\<close> of \<^verbatim>\<open>kernel/pipe.c\<close>. A pointer to an open file
  is an index of the table \<open>ftable\<close>. The one device of the kernel is the console.
\<close>

subsection \<open>Definitions\<close>

definition set_file :: "nat \<Rightarrow> (kfile \<Rightarrow> kfile) \<Rightarrow> kstate \<Rightarrow> kstate" where
  "set_file f g s = s\<lparr>ftable := (ftable s)(f := g (ftable s f))\<rparr>"

definition filealloc :: "kstate \<Rightarrow> (nat option \<times> kstate) result" where
  "filealloc s =
     rbind (acquire Lk_ftable s) (\<lambda>s.
     case scan (\<lambda>f. f_ref (ftable s f) = 0) 0 NFILE of
       Some f \<Rightarrow>
         rbind (release Lk_ftable (set_file f (\<lambda>x. x\<lparr>f_ref := 1\<rparr>) s)) (\<lambda>s. Inr (Some f, s))
     | None \<Rightarrow> rbind (release Lk_ftable s) (\<lambda>s. Inr (None, s)))"

definition filedup :: "nat \<Rightarrow> kstate \<Rightarrow> (nat \<times> kstate) result" where
  "filedup f s =
     rbind (acquire Lk_ftable s) (\<lambda>s.
     if f_ref (ftable s f) < 1 then Inl (Panic ''filedup'')
     else
       rbind (release Lk_ftable (set_file f (\<lambda>x. x\<lparr>f_ref := f_ref x + 1\<rparr>) s)) (\<lambda>s. Inr (f, s)))"

definition fileclose :: "nat \<Rightarrow> kstate \<Rightarrow> kstate result" where
  "fileclose f s =
     rbind (acquire Lk_ftable s) (\<lambda>s.
     if f_ref (ftable s f) < 1 then Inl (Panic ''fileclose'')
     else
       let s = set_file f (\<lambda>x. x\<lparr>f_ref := f_ref x - 1\<rparr>) s in
       if f_ref (ftable s f) > 0 then release Lk_ftable s
       else
         let ff = ftable s f in
         rbind (release Lk_ftable (set_file f (\<lambda>x. x\<lparr>f_ref := 0, f_type := FD_NONE\<rparr>) s)) (\<lambda>s.
         if f_type ff = FD_PIPE then pipeclose (f_pipe ff) (f_writable ff) s
         else if f_type ff = FD_INODE \<or> f_type ff = FD_DEVICE then
           rbind (begin_op s) (\<lambda>s.
           rbind (iput (f_ip ff) s) (\<lambda>s.
           end_op s))
         else Inr s))"

text \<open>\<^verbatim>\<open>struct stat\<close> in memory: 24 bytes, with four bytes of padding before the size.\<close>

definition stat_bytes :: "stat \<Rightarrow> bytes" where
  "stat_bytes st =
     put64 (put16 (put16 (put32 (put32 (\<lambda>_. 0) 0 (word_of_int (st_dev st))) 4 (st_ino st))
       8 (st_type st)) 10 (st_nlink st)) 16 (st_size st)"

definition filestat :: "nat \<Rightarrow> u64 \<Rightarrow> kstate \<Rightarrow> (int \<times> kstate) result" where
  "filestat f addr s =
     (if f_type (ftable s f) = FD_INODE \<or> f_type (ftable s f) = FD_DEVICE then
        let ip = f_ip (ftable s f) in
        rbind (ilock ip s) (\<lambda>s.
        let st = stati ip s in
        rbind (iunlock ip s) (\<lambda>s.
        rbind (copyout (p_pagetable (myproc s)) addr (Local (stat_bytes st) 0) 24 s) (\<lambda>(r, s).
        Inr (if r < 0 then -1 else 0, s))))
      else Inr (-1, s))"

text \<open>\<^verbatim>\<open>f->major < 0 || f->major >= NDEV\<close> on a signed 16-bit number\<close>

definition bad_major :: "u16 \<Rightarrow> bool" where
  "bad_major m \<longleftrightarrow> sint m < 0 \<or> sint m \<ge> int NDEV"

definition fileread :: "nat \<Rightarrow> u64 \<Rightarrow> int \<Rightarrow> kstate \<Rightarrow> (int \<times> kstate) result" where
  "fileread f addr n s =
     (let ff = ftable s f in
      if \<not> f_readable ff then Inr (-1, s)
      else case f_type ff of
        FD_PIPE \<Rightarrow> piperead (f_pipe ff) addr n s
      | FD_DEVICE \<Rightarrow>
          if bad_major (f_major ff) \<or> \<not> devsw_read s (unat (f_major ff)) then Inr (-1, s)
          else consoleread (User addr) n s
      | FD_INODE \<Rightarrow>
          rbind (ilock (f_ip ff) s) (\<lambda>s.
          rbind (readi (f_ip ff) (User addr) (f_off (ftable s f)) (word_of_int n) s) (\<lambda>(r, _, s).
          let s = (if r > 0 then set_file f (\<lambda>x. x\<lparr>f_off := f_off x + word_of_int r\<rparr>) s else s) in
          rbind (iunlock (f_ip ff) s) (\<lambda>s. Inr (r, s))))
      | FD_NONE \<Rightarrow> Inl (Panic ''fileread''))"

text \<open>\<^verbatim>\<open>max\<close> is 3072: three data blocks per transaction.\<close>

abbreviation (input) FILEWRITE_MAX :: int where
  "FILEWRITE_MAX \<equiv> ((int MAXOPBLOCKS - 1 - 1 - 2) div 2) * int BSIZE"

function filewrite_loop :: "nat \<Rightarrow> u64 \<Rightarrow> int \<Rightarrow> int \<Rightarrow> kstate \<Rightarrow> (int \<times> kstate) result" where
  "filewrite_loop f addr n i s =
     (if i < n then
        let n1 = (if n - i > FILEWRITE_MAX then FILEWRITE_MAX else n - i); ip = f_ip (ftable s f) in
        rbind (begin_op s) (\<lambda>s.
        rbind (ilock ip s) (\<lambda>s.
        rbind (writei ip (User (addr + word_of_int i)) (f_off (ftable s f)) (word_of_int n1) s) (\<lambda>(r, s).
        let s = (if r > 0 then set_file f (\<lambda>x. x\<lparr>f_off := f_off x + word_of_int r\<rparr>) s else s) in
        rbind (iunlock ip s) (\<lambda>s.
        rbind (end_op s) (\<lambda>s.
        if r \<noteq> n1 then Inr (i, s) else filewrite_loop f addr n (i + n1) s)))))
      else Inr (i, s))"
  by pat_completeness auto
termination
  by (relation "measure (\<lambda>(f, addr, n, i, s). nat (n - i))") auto

declare filewrite_loop.simps [simp del]

definition filewrite :: "nat \<Rightarrow> u64 \<Rightarrow> int \<Rightarrow> kstate \<Rightarrow> (int \<times> kstate) result" where
  "filewrite f addr n s =
     (let ff = ftable s f in
      if \<not> f_writable ff then Inr (-1, s)
      else case f_type ff of
        FD_PIPE \<Rightarrow> pipewrite (f_pipe ff) addr n s
      | FD_DEVICE \<Rightarrow>
          if bad_major (f_major ff) \<or> \<not> devsw_write s (unat (f_major ff)) then Inr (-1, s)
          else consolewrite (User addr) n s
      | FD_INODE \<Rightarrow>
          rbind (filewrite_loop f addr n 0 s) (\<lambda>(i, s). Inr (if i = n then n else -1, s))
      | FD_NONE \<Rightarrow> Inl (Panic ''filewrite''))"

text \<open>\<^verbatim>\<open>if(*f0) fileclose(*f0);\<close>\<close>

definition close_if :: "nat option \<Rightarrow> kstate \<Rightarrow> kstate result" where
  "close_if r s = (case r of None \<Rightarrow> Inr s | Some f \<Rightarrow> fileclose f s)"

definition pipealloc_bad :: "nat option \<Rightarrow> nat option \<Rightarrow> kstate \<Rightarrow> ((nat \<times> nat) option \<times> kstate) result" where
  "pipealloc_bad f0 f1 s =
     rbind (close_if f0 s) (\<lambda>s. rbind (close_if f1 s) (\<lambda>s. Inr (None, s)))"

text \<open>The pipe's page; \<^verbatim>\<open>kalloc\<close> fills it with fives.\<close>

definition pipe_init :: pipe where
  "pipe_init = \<lparr>pi_data = (\<lambda>_. 5), pi_nread = 0, pi_nwrite = 0, pi_readopen = True, pi_writeopen = True\<rparr>"

definition pipealloc :: "kstate \<Rightarrow> ((nat \<times> nat) option \<times> kstate) result" where
  "pipealloc s =
     rbind (filealloc s) (\<lambda>(r0, s).
     case r0 of
       None \<Rightarrow> pipealloc_bad None None s
     | Some f0 \<Rightarrow>
         rbind (filealloc s) (\<lambda>(r1, s).
         case r1 of
           None \<Rightarrow> pipealloc_bad (Some f0) None s
         | Some f1 \<Rightarrow>
             rbind (kalloc s) (\<lambda>(pi, s).
             if pi = 0 then pipealloc_bad (Some f0) (Some f1) s
             else
               let s = set_pipe pi (\<lambda>_. pipe_init) s;
                   s = set_file f0 (\<lambda>x. x\<lparr>f_type := FD_PIPE, f_readable := True, f_writable := False,
                         f_pipe := pi\<rparr>) s;
                   s = set_file f1 (\<lambda>x. x\<lparr>f_type := FD_PIPE, f_readable := False, f_writable := True,
                         f_pipe := pi\<rparr>) s in
               Inr (Some (f0, f1), s))))"

end
