(* ===== verification/Exec.thy ===== *)
theory Exec
  imports File
begin

text \<open>
  \<^verbatim>\<open>kernel/exec.c\<close>. The path and the argument strings are lists of characters, read from the
  kernel's copies of them; the array \<^verbatim>\<open>ustack\<close> is its bytes. The jumps to \<^verbatim>\<open>bad\<close> before and after
  the inode is released are the two definitions \<open>exec_bad\<close> and \<open>exec_bad_late\<close>.
\<close>

subsection \<open>Definitions\<close>

definition flags2perm :: "u32 \<Rightarrow> u64" where
  "flags2perm flags =
     (let perm = (if flags AND 1 \<noteq> 0 then PTE_X else 0)
      in if flags AND 2 \<noteq> 0 then perm OR PTE_W else perm)"

text \<open>The fields of \<^verbatim>\<open>struct elfhdr\<close> (64 bytes) and \<^verbatim>\<open>struct proghdr\<close> (56 bytes) that are read.\<close>

record elfhdr =
  elf_magic :: u32
  elf_entry :: u64
  elf_phoff :: u64
  elf_phnum :: u16

record proghdr =
  ph_type :: u32
  ph_flags :: u32
  ph_off :: u64
  ph_vaddr :: u64
  ph_filesz :: u64
  ph_memsz :: u64

definition load_elfhdr :: "bytes \<Rightarrow> elfhdr" where
  "load_elfhdr d = \<lparr>elf_magic = get32 d 0, elf_entry = get64 d 24, elf_phoff = get64 d 32,
     elf_phnum = get16 d 56\<rparr>"

definition load_proghdr :: "bytes \<Rightarrow> proghdr" where
  "load_proghdr d = \<lparr>ph_type = get32 d 0, ph_flags = get32 d 4, ph_off = get64 d 8,
     ph_vaddr = get64 d 16, ph_filesz = get64 d 32, ph_memsz = get64 d 40\<rparr>"

text \<open>\<^verbatim>\<open>readi(ip, 0, (uint64)&x, off, n)\<close> into a local variable\<close>

definition read_local :: "nat \<Rightarrow> u32 \<Rightarrow> u32 \<Rightarrow> kstate \<Rightarrow> (int \<times> bytes \<times> kstate) result" where
  "read_local ip off n s =
     rbind (readi ip (Kern (Local (\<lambda>_. 0) 0)) off n s) (\<lambda>(r, d, s). Inr (r, uptr_data d, s))"

lemma loadseg_step: "i < sz \<Longrightarrow> \<not> sz - i < 4096 \<Longrightarrow> unat (sz - (i + 4096)) < unat (sz - (i :: u32))"
proof -
  assume a: "i < sz" "\<not> sz - i < 4096"
  have e: "sz - (i + 4096) = (sz - i) - 4096" by simp
  have "unat ((sz - i) - 4096) = unat (sz - i) - 4096"
    using a(2) by (simp add: unat_sub not_less)
  moreover have "4096 \<le> unat (sz - i)" using a(2) by (simp add: not_less word_le_nat_alt)
  ultimately show ?thesis unfolding e by linarith
qed

text \<open>
  The loop of \<^verbatim>\<open>loadseg\<close>. The piece of less than a page is the last one: \<^verbatim>\<open>i += PGSIZE\<close> then
  reaches \<^verbatim>\<open>sz\<close>, which does not exceed the size of a file.
\<close>

function loadseg_loop :: "u64 \<Rightarrow> u64 \<Rightarrow> nat \<Rightarrow> u32 \<Rightarrow> u32 \<Rightarrow> u32 \<Rightarrow> kstate \<Rightarrow> (int \<times> kstate) result" where
  "loadseg_loop pagetable va ip offset sz i s =
     (if i < sz then
        rbind (walkaddr pagetable (va + ucast i) s) (\<lambda>(pa, s).
        if pa = 0 then Inl (Panic ''loadseg: address should exist'')
        else if sz - i < 4096 then
          rbind (readi ip (Kern (Phys pa)) (offset + i) (sz - i) s) (\<lambda>(r, _, s).
          Inr (if r \<noteq> sint (sz - i) then -1 else 0, s))
        else
          rbind (readi ip (Kern (Phys pa)) (offset + i) 4096 s) (\<lambda>(r, _, s).
          if r \<noteq> 4096 then Inr (-1, s)
          else loadseg_loop pagetable va ip offset sz (i + 4096) s))
      else Inr (0, s))"
  by pat_completeness auto
termination
  by (relation "measure (\<lambda>(pt, va, ip, offset, sz, i, s). unat (sz - i))") (auto intro: loadseg_step)

declare loadseg_loop.simps [simp del]

definition loadseg :: "u64 \<Rightarrow> u64 \<Rightarrow> nat \<Rightarrow> u32 \<Rightarrow> u32 \<Rightarrow> kstate \<Rightarrow> (int \<times> kstate) result" where
  "loadseg pagetable va ip offset sz s = loadseg_loop pagetable va ip offset sz 0 s"

text \<open>
  The loop over the program headers: the number of headers left, \<^verbatim>\<open>off\<close> and \<^verbatim>\<open>sz\<close>. The result says
  whether the loop reached its end.
\<close>

primrec exec_load :: "nat \<Rightarrow> nat \<Rightarrow> u64 \<Rightarrow> u32 \<Rightarrow> u64 \<Rightarrow> kstate \<Rightarrow> (bool \<times> u64 \<times> kstate) result" where
  "exec_load 0 ip pagetable off sz s = Inr (True, sz, s)"
| "exec_load (Suc k) ip pagetable off sz s =
     rbind (read_local ip off 56 s) (\<lambda>(r, d, s).
     let ph = load_proghdr d in
     if r \<noteq> 56 then Inr (False, sz, s)
     else if ph_type ph \<noteq> 1 then exec_load k ip pagetable (off + 56) sz s
     else if ph_memsz ph < ph_filesz ph then Inr (False, sz, s)
     else if ph_vaddr ph + ph_memsz ph < ph_vaddr ph then Inr (False, sz, s)
     else if unat (ph_vaddr ph) mod PGSIZE \<noteq> 0 then Inr (False, sz, s)
     else
       rbind (uvmalloc pagetable sz (ph_vaddr ph + ph_memsz ph) (flags2perm (ph_flags ph)) s) (\<lambda>(sz1, s).
       if sz1 = 0 then Inr (False, sz, s)
       else
         rbind (loadseg pagetable (ph_vaddr ph) ip (ucast (ph_off ph)) (ucast (ph_filesz ph)) s) (\<lambda>(r, s).
         if r < 0 then Inr (False, sz1, s)
         else exec_load k ip pagetable (off + 56) sz1 s)))"

text \<open>The loop over the arguments; None is a jump to \<^verbatim>\<open>bad\<close>.\<close>

fun exec_args :: "byte list list \<Rightarrow> nat \<Rightarrow> u64 \<Rightarrow> u64 \<Rightarrow> u64 \<Rightarrow> bytes \<Rightarrow> kstate \<Rightarrow>
    ((nat \<times> u64 \<times> bytes) option \<times> kstate) result" where
  "exec_args [] argc pagetable sp stackbase ustack s = Inr (Some (argc, sp, put64 ustack (8 * argc) 0), s)"
| "exec_args (a # as) argc pagetable sp stackbase ustack s =
     (if argc \<ge> MAXARG then Inr (None, s)
      else
        let sp = sp - of_nat (length a + 1); sp = sp - sp mod 16 in
        if sp < stackbase then Inr (None, s)
        else
          rbind (copyout pagetable sp (Local (bytes_of a) 0) (of_nat (length a + 1)) s) (\<lambda>(r, s).
          if r < 0 then Inr (None, s)
          else exec_args as (Suc argc) pagetable sp stackbase (put64 ustack (8 * argc) sp) s))"

definition exec_bad_late :: "u64 \<Rightarrow> u64 \<Rightarrow> kstate \<Rightarrow> (int \<times> kstate) result" where
  "exec_bad_late pagetable sz s =
     rbind (if pagetable \<noteq> 0 then proc_freepagetable pagetable sz s else Inr s) (\<lambda>s. Inr (-1, s))"

definition exec_bad :: "u64 \<Rightarrow> u64 \<Rightarrow> nat \<Rightarrow> kstate \<Rightarrow> (int \<times> kstate) result" where
  "exec_bad pagetable sz ip s =
     rbind (if pagetable \<noteq> 0 then proc_freepagetable pagetable sz s else Inr s) (\<lambda>s.
     rbind (iunlockput ip s) (\<lambda>s.
     rbind (end_op s) (\<lambda>s. Inr (-1, s))))"

text \<open>The characters after the last slash.\<close>

definition last_elem :: "byte list \<Rightarrow> byte list" where
  "last_elem path = rev (takeWhile (\<lambda>c. c \<noteq> slash) (rev path))"

definition exec_commit :: "byte list \<Rightarrow> u64 \<Rightarrow> u64 \<Rightarrow> u64 \<Rightarrow> u64 \<Rightarrow> u64 \<Rightarrow> kstate \<Rightarrow> kstate result" where
  "exec_commit path entry pagetable sz sp oldsz s =
     (let p = cur s;
          s = set_tframe (p_trapframe (procs s p)) (\<lambda>t. t\<lparr>tf_a1 := sp\<rparr>) s;
          s = set_proc p (\<lambda>x. x\<lparr>p_name := safestrcpy (p_name x) 0 (bytes_of (last_elem path)) 0 16\<rparr>) s;
          oldpagetable = p_pagetable (procs s p);
          s = set_proc p (\<lambda>x. x\<lparr>p_pagetable := pagetable, p_sz := sz\<rparr>) s;
          s = set_tframe (p_trapframe (procs s p)) (\<lambda>t. t\<lparr>epc := entry, tf_sp := sp\<rparr>) s
      in proc_freepagetable oldpagetable oldsz s)"

text \<open>The second half of \<^verbatim>\<open>kexec\<close>, after the inode is released: the stack and the arguments.\<close>

definition exec_stack :: "byte list \<Rightarrow> byte list list \<Rightarrow> u64 \<Rightarrow> u64 \<Rightarrow> u64 \<Rightarrow> kstate \<Rightarrow> (int \<times> kstate) result" where
  "exec_stack path argv entry pagetable sz s =
     (let oldsz = p_sz (myproc s); sz = PGROUNDUP sz in
      rbind (uvmalloc pagetable sz (sz + 3 * 4096) PTE_W s) (\<lambda>(sz1, s).
      if sz1 = 0 then exec_bad_late pagetable sz s
      else
        rbind (uvmclear pagetable (sz1 - 3 * 4096) s) (\<lambda>s.
        let stackbase = sz1 - 2 * 4096 in
        rbind (exec_args argv 0 pagetable sz1 stackbase (\<lambda>_. 0) s) (\<lambda>(r, s).
        case r of
          None \<Rightarrow> exec_bad_late pagetable sz1 s
        | Some (argc, sp, ustack) \<Rightarrow>
            let sp = sp - of_nat (argc + 1) * 8; sp = sp - sp mod 16 in
            if sp < stackbase then exec_bad_late pagetable sz1 s
            else
              rbind (copyout pagetable sp (Local ustack 0) (of_nat (argc + 1) * 8) s) (\<lambda>(r, s).
              if r < 0 then exec_bad_late pagetable sz1 s
              else
                rbind (exec_commit path entry pagetable sz1 sp oldsz s) (\<lambda>s.
                Inr (int argc, s)))))))"

abbreviation (input) ELF_MAGIC :: u32 where "ELF_MAGIC \<equiv> 0x464C457F"

definition kexec :: "byte list \<Rightarrow> byte list list \<Rightarrow> kstate \<Rightarrow> (int \<times> kstate) result" where
  "kexec path argv s =
     rbind (begin_op s) (\<lambda>s.
     rbind (namei path s) (\<lambda>(r, s).
     case r of
       None \<Rightarrow> rbind (end_op s) (\<lambda>s. Inr (-1, s))
     | Some ip \<Rightarrow>
         rbind (ilock ip s) (\<lambda>s.
         rbind (read_local ip 0 64 s) (\<lambda>(r, d, s).
         let elf = load_elfhdr d in
         if r \<noteq> 64 then exec_bad 0 0 ip s
         else if elf_magic elf \<noteq> ELF_MAGIC then exec_bad 0 0 ip s
         else
           rbind (proc_pagetable (cur s) s) (\<lambda>(pagetable, s).
           if pagetable = 0 then exec_bad 0 0 ip s
           else
             rbind (exec_load (unat (elf_phnum elf)) ip pagetable (ucast (elf_phoff elf)) 0 s) (\<lambda>(ok, sz, s).
             if \<not> ok then exec_bad pagetable sz ip s
             else
               rbind (iunlockput ip s) (\<lambda>s.
               rbind (end_op s) (\<lambda>s.
               exec_stack path argv (elf_entry elf) pagetable sz s))))))))"

end
