(* ===== verification/Fork.thy ===== *)
theory Fork
  imports Exec
begin

text \<open>
  The life of a process, the part of \<^verbatim>\<open>kernel/proc.c\<close> that uses the file system: \<^verbatim>\<open>userinit\<close>,
  \<^verbatim>\<open>kfork\<close>, \<^verbatim>\<open>kexit\<close>, \<^verbatim>\<open>kwait\<close> and \<^verbatim>\<open>forkret\<close>, and \<^verbatim>\<open>prepare_return\<close> of \<^verbatim>\<open>kernel/trap.c\<close>, which
  \<^verbatim>\<open>forkret\<close> calls. The record \<open>hart\<close> has the control registers that these functions read and
  write.
\<close>

subsection \<open>Creation\<close>

definition userinit :: "kstate \<Rightarrow> kstate result" where
  "userinit s =
     rbind (allocproc s) (\<lambda>(r, s).
     case r of
       None \<Rightarrow> Inl (Panic ''kerneltrap'')
     | Some p \<Rightarrow>
         rbind (namei (str ''/'') (s\<lparr>initproc := p\<rparr>)) (\<lambda>(ip, s).
         release (Lk_proc p) (set_proc p (\<lambda>x. x\<lparr>p_cwd := ip, p_state := RUNNABLE\<rparr>) s)))"

text \<open>\<^verbatim>\<open>if(p->ofile[i]) np->ofile[i] = filedup(p->ofile[i]);\<close>\<close>

definition dup_ofile :: "nat \<Rightarrow> nat \<Rightarrow> nat \<Rightarrow> kstate \<Rightarrow> kstate result" where
  "dup_ofile p np i s =
     (case p_ofile (procs s p) i of
        None \<Rightarrow> Inr s
      | Some f \<Rightarrow>
          rbind (filedup f s) (\<lambda>(f, s).
          Inr (set_proc np (\<lambda>x. x\<lparr>p_ofile := (p_ofile x)(i := Some f)\<rparr>) s)))"

definition kfork :: "kstate \<Rightarrow> (int \<times> kstate) result" where
  "kfork s =
     (let p = cur s in
      rbind (allocproc s) (\<lambda>(r, s).
      case r of
        None \<Rightarrow> Inr (-1, s)
      | Some np \<Rightarrow>
          rbind (uvmcopy (p_pagetable (procs s p)) (p_pagetable (procs s np)) (p_sz (procs s p)) s) (\<lambda>(r, s).
          if r < 0 then
            rbind (freeproc np s) (\<lambda>s.
            rbind (release (Lk_proc np) s) (\<lambda>s. Inr (-1, s)))
          else
            let s = set_proc np (\<lambda>x. x\<lparr>p_sz := p_sz (procs s p)\<rparr>) s;
                s = set_tframe (p_trapframe (procs s np))
                      (\<lambda>_. (tframes s (p_trapframe (procs s p)))\<lparr>tf_a0 := 0\<rparr>) s in
            rbind (rfold (dup_ofile p np) [0..<NOFILE] s) (\<lambda>s.
            rbind (case p_cwd (procs s p) of
                     None \<Rightarrow> Inl (Panic ''kerneltrap'')
                   | Some ip \<Rightarrow> idup ip s) (\<lambda>(ip, s).
            let s = set_proc np (\<lambda>x. x\<lparr>p_cwd := Some ip,
                      p_name := safestrcpy (p_name x) 0 (p_name (procs s p)) 0 16\<rparr>) s;
                pid = p_pid (procs s np) in
            rbind (release (Lk_proc np) s) (\<lambda>s.
            rbind (acquire Lk_wait s) (\<lambda>s.
            rbind (release Lk_wait (set_proc np (\<lambda>x. x\<lparr>p_parent := Some p\<rparr>) s)) (\<lambda>s.
            rbind (acquire (Lk_proc np) s) (\<lambda>s.
            rbind (release (Lk_proc np) (set_proc np (\<lambda>x. x\<lparr>p_state := RUNNABLE\<rparr>) s)) (\<lambda>s.
            Inr (pid, s)))))))))))"

subsection \<open>Exit and wait\<close>

definition reparent :: "nat \<Rightarrow> kstate \<Rightarrow> kstate result" where
  "reparent p s =
     rfold (\<lambda>pp s.
       if p_parent (procs s pp) = Some p then
         wakeup (Chan_proc (initproc s)) (set_proc pp (\<lambda>x. x\<lparr>p_parent := Some (initproc s)\<rparr>) s)
       else Inr s) [0..<NPROC] s"

definition close_ofile :: "nat \<Rightarrow> nat \<Rightarrow> kstate \<Rightarrow> kstate result" where
  "close_ofile p fd s =
     (case p_ofile (procs s p) fd of
        None \<Rightarrow> Inr s
      | Some f \<Rightarrow>
          rbind (fileclose f s) (\<lambda>s.
          Inr (set_proc p (\<lambda>x. x\<lparr>p_ofile := (p_ofile x)(fd := None)\<rparr>) s)))"

text \<open>
  The state at the switch to the scheduler, which does not switch back. No process sleeps on the
  null channel, so that \<^verbatim>\<open>wakeup(p->parent)\<close> does nothing for a process without a parent.
\<close>

definition kexit :: "int \<Rightarrow> kstate \<Rightarrow> kstate result" where
  "kexit status s =
     (let p = cur s in
      if p = initproc s then Inl (Panic ''init exiting'')
      else
        rbind (rfold (close_ofile p) [0..<NOFILE] s) (\<lambda>s.
        rbind (begin_op s) (\<lambda>s.
        rbind (case p_cwd (procs s p) of
                 None \<Rightarrow> Inl (Panic ''kerneltrap'')
               | Some ip \<Rightarrow> iput ip s) (\<lambda>s.
        rbind (end_op s) (\<lambda>s.
        let s = set_proc p (\<lambda>x. x\<lparr>p_cwd := None\<rparr>) s in
        rbind (acquire Lk_wait s) (\<lambda>s.
        rbind (reparent p s) (\<lambda>s.
        rbind (case p_parent (procs s p) of None \<Rightarrow> Inr s | Some q \<Rightarrow> wakeup (Chan_proc q) s) (\<lambda>s.
        rbind (acquire (Lk_proc p) s) (\<lambda>s.
        let s = set_proc p (\<lambda>x. x\<lparr>p_xstate := status, p_state := ZOMBIE\<rparr>) s in
        rbind (release Lk_wait s) (\<lambda>s.
        sched s))))))))))"

text \<open>
  One scan of \<^verbatim>\<open>kwait\<close> over the process table: it ends in a \<^verbatim>\<open>return\<close>, with all locks released,
  or with \<^verbatim>\<open>havekids\<close>.
\<close>

datatype wait_scan = Reaped int | Scanned bool

function kwait_scan :: "u64 \<Rightarrow> nat \<Rightarrow> bool \<Rightarrow> kstate \<Rightarrow> (wait_scan \<times> kstate) result" where
  "kwait_scan addr pp havekids s =
     (if pp < NPROC then
        if p_parent (procs s pp) = Some (cur s) then
          rbind (acquire (Lk_proc pp) s) (\<lambda>s.
          if p_state (procs s pp) = ZOMBIE then
            let pid = p_pid (procs s pp) in
            rbind (if addr \<noteq> 0 then
                     copyout (p_pagetable (myproc s)) addr
                       (Local (put32 (\<lambda>_. 0) 0 (word_of_int (p_xstate (procs s pp)))) 0) 4 s
                   else Inr (0, s)) (\<lambda>(r, s).
            if r < 0 then
              rbind (release (Lk_proc pp) s) (\<lambda>s.
              rbind (release Lk_wait s) (\<lambda>s. Inr (Reaped (-1), s)))
            else
              rbind (freeproc pp s) (\<lambda>s.
              rbind (release (Lk_proc pp) s) (\<lambda>s.
              rbind (release Lk_wait s) (\<lambda>s. Inr (Reaped pid, s)))))
          else
            rbind (release (Lk_proc pp) s) (\<lambda>s. kwait_scan addr (Suc pp) True s))
        else kwait_scan addr (Suc pp) havekids s
      else Inr (Scanned havekids, s))"
  by pat_completeness auto
termination
  by (relation "measure (\<lambda>(addr, pp, h, s). NPROC - pp)") auto

declare kwait_scan.simps [simp del]

definition kwait :: "u64 \<Rightarrow> kstate \<Rightarrow> (int \<times> kstate) result" where
  "kwait addr s =
     rbind (acquire Lk_wait s) (\<lambda>s.
     rbind (kwait_scan addr 0 False s) (\<lambda>(r, s).
     case r of
       Reaped pid \<Rightarrow> Inr (pid, s)
     | Scanned havekids \<Rightarrow>
         if \<not> havekids then rbind (release Lk_wait s) (\<lambda>s. Inr (-1, s))
         else
           rbind (killed (cur s) s) (\<lambda>(k, s).
           if k then rbind (release Lk_wait s) (\<lambda>s. Inr (-1, s))
           else Inl (Sleeping (Chan_proc (cur s))))))"

subsection \<open>The return to user space\<close>

record hart =
  h_sstatus :: u64
  h_sepc :: u64
  h_scause :: u64
  h_stval :: u64
  h_stvec :: u64
  h_satp :: u64
  h_tp :: u64
  h_time :: u64
  h_stimecmp :: u64

abbreviation (input) SSTATUS_SPP :: u64 where "SSTATUS_SPP \<equiv> 0x100"
abbreviation (input) SSTATUS_SPIE :: u64 where "SSTATUS_SPIE \<equiv> 0x20"
abbreviation (input) SSTATUS_SIE :: u64 where "SSTATUS_SIE \<equiv> 2"

definition intr_off :: "hart \<Rightarrow> hart" where
  "intr_off h = h\<lparr>h_sstatus := h_sstatus h AND NOT SSTATUS_SIE\<rparr>"

definition intr_on :: "hart \<Rightarrow> hart" where
  "intr_on h = h\<lparr>h_sstatus := h_sstatus h OR SSTATUS_SIE\<rparr>"

definition intr_get :: "hart \<Rightarrow> bool" where
  "intr_get h \<longleftrightarrow> h_sstatus h AND SSTATUS_SIE \<noteq> 0"

definition prepare_return :: "hart \<Rightarrow> kstate \<Rightarrow> hart \<times> kstate" where
  "prepare_return h s =
     (let h = intr_off h;
          h = h\<lparr>h_stvec := TRAMPOLINE + (sym_uservec s - ktrampoline s)\<rparr>;
          tf = p_trapframe (myproc s);
          s = set_tframe tf (\<lambda>t. t\<lparr>kernel_satp := h_satp h, kernel_sp := p_kstack (myproc s) + 4096,
                kernel_trap := sym_usertrap s, kernel_hartid := h_tp h\<rparr>) s;
          h = h\<lparr>h_sstatus := (h_sstatus h AND NOT SSTATUS_SPP) OR SSTATUS_SPIE\<rparr>;
          h = h\<lparr>h_sepc := epc (tframes s tf)\<rparr>
      in (h, s))"

text \<open>The result has the address and the argument of the jump into the trampoline.\<close>

definition forkret :: "hart \<Rightarrow> kstate \<Rightarrow> ((u64 \<times> u64) \<times> hart \<times> kstate) result" where
  "forkret h s =
     rbind (release (Lk_proc (cur s)) s) (\<lambda>s.
     rbind (if fs_first s then
              rbind (fsinit ROOTDEV s) (\<lambda>s.
              rbind (kexec (str ''/init'') [str ''/init''] (s\<lparr>fs_first := False\<rparr>)) (\<lambda>(r, s).
              let s = set_tframe (p_trapframe (myproc s)) (\<lambda>t. t\<lparr>tf_a0 := word_of_int r\<rparr>) s in
              if tf_a0 (tframes s (p_trapframe (myproc s))) = -1 then Inl (Panic ''exec'') else Inr s))
            else Inr s) (\<lambda>s.
     let (h, s) = prepare_return h s in
     Inr ((TRAMPOLINE + (sym_userret s - ktrampoline s), MAKE_SATP (p_pagetable (myproc s))), h, s)))"

end
