(* ===== verification/Sysfile.thy ===== *)
theory Sysfile
  imports Fork
begin

text \<open>
  The arguments of system calls, from \<^verbatim>\<open>kernel/syscall.c\<close>, and the system calls on files,
  \<^verbatim>\<open>kernel/sysfile.c\<close>. The registers that the user program passed are in the trap frame. A string
  that the kernel fetched is the list of its characters; an array of the kernel's stack is passed
  by value. A system call returns the 64 bits that go to register \<^verbatim>\<open>a0\<close>; an \<^verbatim>\<open>int\<close> is sign-extended.
\<close>

subsection \<open>Arguments\<close>

definition mytf :: "kstate \<Rightarrow> trapframe" where
  "mytf s = tframes s (p_trapframe (myproc s))"

definition fetchaddr :: "u64 \<Rightarrow> kstate \<Rightarrow> (int \<times> u64 \<times> kstate) result" where
  "fetchaddr addr s =
     (if addr \<ge> p_sz (myproc s) \<or> addr + 8 > p_sz (myproc s) then Inr (-1, 0, s)
      else
        rbind (copyin (p_pagetable (myproc s)) (Local (\<lambda>_. 0) 0) addr 8 s) (\<lambda>(r, d, s).
        Inr (if r \<noteq> 0 then -1 else 0, get64 (kptr_data d) 0, s)))"

text \<open>The string in the buffer \<open>dst\<close>, of which \<open>d\<close> is what a copy returned.\<close>

fun kstring :: "kptr \<Rightarrow> kptr \<Rightarrow> nat \<Rightarrow> kstate \<Rightarrow> byte list" where
  "kstring (Phys a) d n s = cstrn (mem s) (unat a) n"
| "kstring (Local _ i) d n s = cstrn (kptr_data d) i n"

definition fetchstr :: "u64 \<Rightarrow> kptr \<Rightarrow> nat \<Rightarrow> kstate \<Rightarrow> (int \<times> byte list \<times> kstate) result" where
  "fetchstr addr buf n s =
     rbind (copyinstr (p_pagetable (myproc s)) buf addr (of_nat n) s) (\<lambda>(r, d, s).
     if r < 0 then Inr (-1, [], s)
     else let str = kstring buf d n s in Inr (int (length str), str, s))"

definition argraw :: "nat \<Rightarrow> kstate \<Rightarrow> u64 result" where
  "argraw n s =
     (if n = 0 then Inr (tf_a0 (mytf s))
      else if n = 1 then Inr (tf_a1 (mytf s))
      else if n = 2 then Inr (tf_a2 (mytf s))
      else if n = 3 then Inr (tf_a3 (mytf s))
      else if n = 4 then Inr (tf_a4 (mytf s))
      else if n = 5 then Inr (tf_a5 (mytf s))
      else Inl (Panic ''argraw''))"

definition argint :: "nat \<Rightarrow> kstate \<Rightarrow> int result" where
  "argint n s = rbind (argraw n s) (\<lambda>x. Inr (sint (ucast x :: u32)))"

definition argaddr :: "nat \<Rightarrow> kstate \<Rightarrow> u64 result" where
  "argaddr n s = argraw n s"

definition argstr :: "nat \<Rightarrow> nat \<Rightarrow> kstate \<Rightarrow> (int \<times> byte list \<times> kstate) result" where
  "argstr n len s = rbind (argaddr n s) (\<lambda>addr. fetchstr addr (Local (\<lambda>_. 0) 0) len s)"

subsection \<open>File descriptors\<close>

definition argfd :: "nat \<Rightarrow> kstate \<Rightarrow> (nat \<times> nat) option result" where
  "argfd n s =
     rbind (argint n s) (\<lambda>fd.
     if fd < 0 \<or> fd \<ge> int NOFILE then Inr None
     else case p_ofile (myproc s) (nat fd) of
       None \<Rightarrow> Inr None
     | Some f \<Rightarrow> Inr (Some (nat fd, f)))"

definition set_ofile :: "nat \<Rightarrow> nat option \<Rightarrow> kstate \<Rightarrow> kstate" where
  "set_ofile fd r s = set_proc (cur s) (\<lambda>x. x\<lparr>p_ofile := (p_ofile x)(fd := r)\<rparr>) s"

definition fdalloc :: "nat \<Rightarrow> kstate \<Rightarrow> nat option \<times> kstate" where
  "fdalloc f s =
     (case scan (\<lambda>fd. p_ofile (myproc s) fd = None) 0 NOFILE of
        None \<Rightarrow> (None, s)
      | Some fd \<Rightarrow> (Some fd, set_ofile fd (Some f) s))"

definition sys_dup :: "kstate \<Rightarrow> (u64 \<times> kstate) result" where
  "sys_dup s =
     rbind (argfd 0 s) (\<lambda>r.
     case r of None \<Rightarrow> Inr (-1, s)
     | Some (_, f) \<Rightarrow>
         (case fdalloc f s of
            (None, s) \<Rightarrow> Inr (-1, s)
          | (Some fd, s) \<Rightarrow> rbind (filedup f s) (\<lambda>(_, s). Inr (of_nat fd, s))))"

definition sys_read :: "kstate \<Rightarrow> (u64 \<times> kstate) result" where
  "sys_read s =
     rbind (argaddr 1 s) (\<lambda>p.
     rbind (argint 2 s) (\<lambda>n.
     rbind (argfd 0 s) (\<lambda>r.
     case r of None \<Rightarrow> Inr (-1, s)
     | Some (_, f) \<Rightarrow> rbind (fileread f p n s) (\<lambda>(v, s). Inr (word_of_int v, s)))))"

definition sys_write :: "kstate \<Rightarrow> (u64 \<times> kstate) result" where
  "sys_write s =
     rbind (argaddr 1 s) (\<lambda>p.
     rbind (argint 2 s) (\<lambda>n.
     rbind (argfd 0 s) (\<lambda>r.
     case r of None \<Rightarrow> Inr (-1, s)
     | Some (_, f) \<Rightarrow> rbind (filewrite f p n s) (\<lambda>(v, s). Inr (word_of_int v, s)))))"

definition sys_close :: "kstate \<Rightarrow> (u64 \<times> kstate) result" where
  "sys_close s =
     rbind (argfd 0 s) (\<lambda>r.
     case r of None \<Rightarrow> Inr (-1, s)
     | Some (fd, f) \<Rightarrow> rbind (fileclose f (set_ofile fd None s)) (\<lambda>s. Inr (0, s)))"

definition sys_fstat :: "kstate \<Rightarrow> (u64 \<times> kstate) result" where
  "sys_fstat s =
     rbind (argaddr 1 s) (\<lambda>st.
     rbind (argfd 0 s) (\<lambda>r.
     case r of None \<Rightarrow> Inr (-1, s)
     | Some (_, f) \<Rightarrow> rbind (filestat f st s) (\<lambda>(v, s). Inr (word_of_int v, s))))"

subsection \<open>Links\<close>

text \<open>\<^verbatim>\<open>end_op(); return v;\<close>\<close>

definition end_ret :: "u64 \<Rightarrow> kstate \<Rightarrow> (u64 \<times> kstate) result" where
  "end_ret v s = rbind (end_op s) (\<lambda>s. Inr (v, s))"

definition set_nlink :: "nat \<Rightarrow> (u16 \<Rightarrow> u16) \<Rightarrow> kstate \<Rightarrow> kstate" where
  "set_nlink ip f = set_inode ip (\<lambda>x. x\<lparr>i_nlink := f (i_nlink x)\<rparr>)"

definition link_bad :: "nat \<Rightarrow> kstate \<Rightarrow> (u64 \<times> kstate) result" where
  "link_bad ip s =
     rbind (ilock ip s) (\<lambda>s.
     rbind (iupdate ip (set_nlink ip (\<lambda>n. n - 1) s)) (\<lambda>s.
     rbind (iunlockput ip s) (\<lambda>s.
     end_ret (-1) s)))"

definition sys_link :: "kstate \<Rightarrow> (u64 \<times> kstate) result" where
  "sys_link s =
     rbind (argstr 0 MAXPATH s) (\<lambda>(r, old, s).
     if r < 0 then Inr (-1, s)
     else
       rbind (argstr 1 MAXPATH s) (\<lambda>(r, new, s).
       if r < 0 then Inr (-1, s)
       else
         rbind (begin_op s) (\<lambda>s.
         rbind (namei old s) (\<lambda>(ipo, s).
         case ipo of
           None \<Rightarrow> end_ret (-1) s
         | Some ip \<Rightarrow>
             rbind (ilock ip s) (\<lambda>s.
             if i_type (itable s ip) = T_DIR then rbind (iunlockput ip s) (\<lambda>s. end_ret (-1) s)
             else
               rbind (iupdate ip (set_nlink ip (\<lambda>n. n + 1) s)) (\<lambda>s.
               rbind (iunlock ip s) (\<lambda>s.
               rbind (nameiparent new (\<lambda>_. 0) s) (\<lambda>(dpo, name, s).
               case dpo of
                 None \<Rightarrow> link_bad ip s
               | Some dp \<Rightarrow>
                   rbind (ilock dp s) (\<lambda>s.
                   rbind (if i_dev (itable s dp) \<noteq> i_dev (itable s ip) then Inr (-1, s)
                          else dirlink dp name (i_inum (itable s ip)) s) (\<lambda>(r, s).
                   rbind (iunlockput dp s) (\<lambda>s.
                   if r < 0 then link_bad ip s
                   else rbind (iput ip s) (\<lambda>s. end_ret 0 s))))))))))))"

function isdirempty_loop :: "nat \<Rightarrow> u32 \<Rightarrow> kstate \<Rightarrow> (bool \<times> kstate) result" where
  "isdirempty_loop dp off s =
     (if off < i_size (itable s dp) then
        rbind (read_dirent dp off s) (\<lambda>(r, de, s).
        if r \<noteq> 16 then Inl (Panic ''isdirempty: readi'')
        else if de_inum de \<noteq> 0 then Inr (False, s)
        else isdirempty_loop dp (off + 16) s)
      else Inr (True, s))"
  by pat_completeness auto
termination
  by (relation "measure (\<lambda>(dp, off, s). 2 ^ 32 - unat off)")
    (auto dest!: read_dirent_no_wrap intro: next_dirent_less)

declare isdirempty_loop.simps [simp del]

definition isdirempty :: "nat \<Rightarrow> kstate \<Rightarrow> (bool \<times> kstate) result" where
  "isdirempty dp s = isdirempty_loop dp 32 s"

definition unlink_bad :: "nat \<Rightarrow> kstate \<Rightarrow> (u64 \<times> kstate) result" where
  "unlink_bad dp s = rbind (iunlockput dp s) (\<lambda>s. end_ret (-1) s)"

definition is_dot :: "bytes \<Rightarrow> bool" where
  "is_dot name \<longleftrightarrow> namecmp name 0 (bytes_of (str ''.'')) 0 = 0 \<or> namecmp name 0 (bytes_of (str ''..'')) 0 = 0"

text \<open>The part of \<^verbatim>\<open>sys_unlink\<close> after the entry and its inode are found and locked.\<close>

definition unlink_entry :: "nat \<Rightarrow> nat \<Rightarrow> u32 \<Rightarrow> kstate \<Rightarrow> (u64 \<times> kstate) result" where
  "unlink_entry dp ip off s =
     rbind (writei dp (Kern (Local (\<lambda>_. 0) 0)) off 16 s) (\<lambda>(r, s).
     if r \<noteq> 16 then Inl (Panic ''unlink: writei'')
     else
       rbind (if i_type (itable s ip) = T_DIR then iupdate dp (set_nlink dp (\<lambda>n. n - 1) s)
              else Inr s) (\<lambda>s.
       rbind (iunlockput dp s) (\<lambda>s.
       rbind (iupdate ip (set_nlink ip (\<lambda>n. n - 1) s)) (\<lambda>s.
       rbind (iunlockput ip s) (\<lambda>s.
       end_ret 0 s)))))"

definition sys_unlink :: "kstate \<Rightarrow> (u64 \<times> kstate) result" where
  "sys_unlink s =
     rbind (argstr 0 MAXPATH s) (\<lambda>(r, path, s).
     if r < 0 then Inr (-1, s)
     else
       rbind (begin_op s) (\<lambda>s.
       rbind (nameiparent path (\<lambda>_. 0) s) (\<lambda>(dpo, name, s).
       case dpo of
         None \<Rightarrow> end_ret (-1) s
       | Some dp \<Rightarrow>
           rbind (ilock dp s) (\<lambda>s.
           if is_dot name then unlink_bad dp s
           else
             rbind (dirlookup dp name s) (\<lambda>(r, s).
             case r of
               None \<Rightarrow> unlink_bad dp s
             | Some (ip, off) \<Rightarrow>
                 rbind (ilock ip s) (\<lambda>s.
                 if sint (i_nlink (itable s ip)) < 1 then Inl (Panic ''unlink: nlink < 1'')
                 else
                   rbind (if i_type (itable s ip) = T_DIR then isdirempty ip s else Inr (True, s)) (\<lambda>(e, s).
                   if \<not> e then rbind (iunlockput ip s) (\<lambda>s. unlink_bad dp s)
                   else unlink_entry dp ip off s)))))))"

subsection \<open>Creating and opening files\<close>

definition create_fail :: "nat \<Rightarrow> nat \<Rightarrow> kstate \<Rightarrow> (nat option \<times> kstate) result" where
  "create_fail dp ip s =
     rbind (iupdate ip (set_nlink ip (\<lambda>_. 0) s)) (\<lambda>s.
     rbind (iunlockput ip s) (\<lambda>s.
     rbind (iunlockput dp s) (\<lambda>s. Inr (None, s))))"

text \<open>The entries of a new inode in its own directory and in the parent; the result is the test for \<^verbatim>\<open>fail\<close>.\<close>

definition create_links :: "nat \<Rightarrow> nat \<Rightarrow> bytes \<Rightarrow> u16 \<Rightarrow> kstate \<Rightarrow> (int \<times> kstate) result" where
  "create_links dp ip name type s =
     rbind (if type = T_DIR then
              rbind (dirlink ip (bytes_of (str ''.'')) (i_inum (itable s ip)) s) (\<lambda>(r, s).
              if r < 0 then Inr (-1, s)
              else dirlink ip (bytes_of (str ''..'')) (i_inum (itable s dp)) s)
            else Inr (0, s)) (\<lambda>(r, s).
     if r < 0 then Inr (-1, s) else dirlink dp name (i_inum (itable s ip)) s)"

definition create :: "byte list \<Rightarrow> u16 \<Rightarrow> u16 \<Rightarrow> u16 \<Rightarrow> kstate \<Rightarrow> (nat option \<times> kstate) result" where
  "create path type major minor s =
     rbind (nameiparent path (\<lambda>_. 0) s) (\<lambda>(dpo, name, s).
     case dpo of
       None \<Rightarrow> Inr (None, s)
     | Some dp \<Rightarrow>
         rbind (ilock dp s) (\<lambda>s.
         rbind (dirlookup dp name s) (\<lambda>(r, s).
         case r of
           Some (ip, _) \<Rightarrow>
             rbind (iunlockput dp s) (\<lambda>s.
             rbind (ilock ip s) (\<lambda>s.
             if type = T_FILE \<and> (i_type (itable s ip) = T_FILE \<or> i_type (itable s ip) = T_DEVICE)
             then Inr (Some ip, s)
             else rbind (iunlockput ip s) (\<lambda>s. Inr (None, s))))
         | None \<Rightarrow>
             rbind (ialloc (i_dev (itable s dp)) type s) (\<lambda>(r, s).
             case r of
               None \<Rightarrow> rbind (iunlockput dp s) (\<lambda>s. Inr (None, s))
             | Some ip \<Rightarrow>
                 rbind (ilock ip s) (\<lambda>s.
                 rbind (iupdate ip (set_inode ip (\<lambda>x. x\<lparr>i_major := major, i_minor := minor,
                          i_nlink := 1\<rparr>) s)) (\<lambda>s.
                 rbind (create_links dp ip name type s) (\<lambda>(r, s).
                 if r < 0 then create_fail dp ip s
                 else
                   rbind (if type = T_DIR then iupdate dp (set_nlink dp (\<lambda>n. n + 1) s) else Inr s) (\<lambda>s.
                   rbind (iunlockput dp s) (\<lambda>s.
                   Inr (Some ip, s))))))))))"

abbreviation (input) O_RDONLY :: u32 where "O_RDONLY \<equiv> 0"
abbreviation (input) O_WRONLY :: u32 where "O_WRONLY \<equiv> 1"
abbreviation (input) O_RDWR :: u32 where "O_RDWR \<equiv> 2"
abbreviation (input) O_CREATE :: u32 where "O_CREATE \<equiv> 0x200"
abbreviation (input) O_TRUNC :: u32 where "O_TRUNC \<equiv> 0x400"

definition open_fail :: "nat option \<Rightarrow> nat \<Rightarrow> kstate \<Rightarrow> (u64 \<times> kstate) result" where
  "open_fail fo ip s =
     rbind (close_if fo s) (\<lambda>s. rbind (iunlockput ip s) (\<lambda>s. end_ret (-1) s))"

definition open_file :: "u32 \<Rightarrow> nat \<Rightarrow> inode \<Rightarrow> kfile \<Rightarrow> kfile" where
  "open_file omode ip i x =
     (let x = (if i_type i = T_DEVICE then x\<lparr>f_type := FD_DEVICE, f_major := i_major i\<rparr>
               else x\<lparr>f_type := FD_INODE, f_off := 0\<rparr>) in
      x\<lparr>f_ip := ip, f_readable := (omode AND O_WRONLY = 0),
        f_writable := (omode AND O_WRONLY \<noteq> 0 \<or> omode AND O_RDWR \<noteq> 0)\<rparr>)"

text \<open>The second half of \<^verbatim>\<open>sys_open\<close>, with the inode found or created, and locked.\<close>

definition open_inode :: "u32 \<Rightarrow> nat \<Rightarrow> kstate \<Rightarrow> (u64 \<times> kstate) result" where
  "open_inode omode ip s =
     (if i_type (itable s ip) = T_DEVICE \<and> bad_major (i_major (itable s ip)) then open_fail None ip s
      else
        rbind (filealloc s) (\<lambda>(fo, s).
        case fo of
          None \<Rightarrow> open_fail None ip s
        | Some f \<Rightarrow>
            (case fdalloc f s of
               (None, s) \<Rightarrow> open_fail (Some f) ip s
             | (Some fd, s) \<Rightarrow>
                 let s = set_file f (open_file omode ip (itable s ip)) s in
                 rbind (if omode AND O_TRUNC \<noteq> 0 \<and> i_type (itable s ip) = T_FILE then itrunc ip s
                        else Inr s) (\<lambda>s.
                 rbind (iunlock ip s) (\<lambda>s.
                 end_ret (of_nat fd) s)))))"

definition sys_open :: "kstate \<Rightarrow> (u64 \<times> kstate) result" where
  "sys_open s =
     rbind (argint 1 s) (\<lambda>om.
     let omode = word_of_int om in
     rbind (argstr 0 MAXPATH s) (\<lambda>(n, path, s).
     if n < 0 then Inr (-1, s)
     else
       rbind (begin_op s) (\<lambda>s.
       if omode AND O_CREATE \<noteq> 0 then
         rbind (create path T_FILE 0 0 s) (\<lambda>(ipo, s).
         case ipo of None \<Rightarrow> end_ret (-1) s | Some ip \<Rightarrow> open_inode omode ip s)
       else
         rbind (namei path s) (\<lambda>(ipo, s).
         case ipo of
           None \<Rightarrow> end_ret (-1) s
         | Some ip \<Rightarrow>
             rbind (ilock ip s) (\<lambda>s.
             if i_type (itable s ip) = T_DIR \<and> omode \<noteq> O_RDONLY then open_fail None ip s
             else open_inode omode ip s)))))"

text \<open>\<^verbatim>\<open>if((ip = create(...)) == 0) { end_op(); return -1; } iunlockput(ip); end_op(); return 0;\<close>\<close>

definition create_ret :: "byte list \<Rightarrow> u16 \<Rightarrow> u16 \<Rightarrow> u16 \<Rightarrow> kstate \<Rightarrow> (u64 \<times> kstate) result" where
  "create_ret path type major minor s =
     rbind (create path type major minor s) (\<lambda>(ipo, s).
     case ipo of
       None \<Rightarrow> end_ret (-1) s
     | Some ip \<Rightarrow> rbind (iunlockput ip s) (\<lambda>s. end_ret 0 s))"

definition sys_mkdir :: "kstate \<Rightarrow> (u64 \<times> kstate) result" where
  "sys_mkdir s =
     rbind (begin_op s) (\<lambda>s.
     rbind (argstr 0 MAXPATH s) (\<lambda>(n, path, s).
     if n < 0 then end_ret (-1) s else create_ret path T_DIR 0 0 s))"

text \<open>The arguments \<^verbatim>\<open>major\<close> and \<^verbatim>\<open>minor\<close> are converted to \<^verbatim>\<open>short\<close>.\<close>

definition sys_mknod :: "kstate \<Rightarrow> (u64 \<times> kstate) result" where
  "sys_mknod s =
     rbind (begin_op s) (\<lambda>s.
     rbind (argint 1 s) (\<lambda>major.
     rbind (argint 2 s) (\<lambda>minor.
     rbind (argstr 0 MAXPATH s) (\<lambda>(n, path, s).
     if n < 0 then end_ret (-1) s
     else create_ret path T_DEVICE (word_of_int major) (word_of_int minor) s))))"

definition sys_chdir :: "kstate \<Rightarrow> (u64 \<times> kstate) result" where
  "sys_chdir s =
     rbind (begin_op s) (\<lambda>s.
     rbind (argstr 0 MAXPATH s) (\<lambda>(n, path, s).
     if n < 0 then end_ret (-1) s
     else
       rbind (namei path s) (\<lambda>(ipo, s).
       case ipo of
         None \<Rightarrow> end_ret (-1) s
       | Some ip \<Rightarrow>
           rbind (ilock ip s) (\<lambda>s.
           if i_type (itable s ip) \<noteq> T_DIR then rbind (iunlockput ip s) (\<lambda>s. end_ret (-1) s)
           else
             rbind (iunlock ip s) (\<lambda>s.
             rbind (case p_cwd (myproc s) of
                      None \<Rightarrow> Inl (Panic ''kerneltrap'')
                    | Some c \<Rightarrow> iput c s) (\<lambda>s.
             rbind (end_op s) (\<lambda>s.
             Inr (0, set_proc (cur s) (\<lambda>x. x\<lparr>p_cwd := Some ip\<rparr>) s))))))))"

subsection \<open>Exec and pipe\<close>

text \<open>
  The loop that fetches \<^verbatim>\<open>argv\<close>: the slots left in the array, the index, and the pages allocated so
  far, in order; the result says whether it ended at a null pointer.
\<close>

primrec fetch_argv :: "nat \<Rightarrow> u64 \<Rightarrow> nat \<Rightarrow> u64 list \<Rightarrow> kstate \<Rightarrow> (bool \<times> u64 list \<times> kstate) result" where
  "fetch_argv 0 uargv i argv s = Inr (False, argv, s)"
| "fetch_argv (Suc k) uargv i argv s =
     rbind (fetchaddr (uargv + 8 * of_nat i) s) (\<lambda>(r, uarg, s).
     if r < 0 then Inr (False, argv, s)
     else if uarg = 0 then Inr (True, argv, s)
     else
       rbind (kalloc s) (\<lambda>(pg, s).
       if pg = 0 then Inr (False, argv, s)
       else
         rbind (fetchstr uarg (Phys pg) PGSIZE s) (\<lambda>(r, _, s).
         if r < 0 then Inr (False, argv @ [pg], s)
         else fetch_argv k uargv (Suc i) (argv @ [pg]) s)))"

definition sys_exec :: "kstate \<Rightarrow> (u64 \<times> kstate) result" where
  "sys_exec s =
     rbind (argaddr 1 s) (\<lambda>uargv.
     rbind (argstr 0 MAXPATH s) (\<lambda>(n, path, s).
     if n < 0 then Inr (-1, s)
     else
       rbind (fetch_argv MAXARG uargv 0 [] s) (\<lambda>(ok, argv, s).
       rbind (if ok then kexec path (map (\<lambda>pg. cstrn (mem s) (unat pg) PGSIZE) argv) s
              else Inr (-1, s)) (\<lambda>(ret, s).
       rbind (rfold kfree argv s) (\<lambda>s.
       Inr (word_of_int ret, s))))))"

definition int_bytes :: "nat \<Rightarrow> bytes" where
  "int_bytes n = put32 (\<lambda>_. 0) 0 (of_nat n)"

definition pipe_fail :: "nat \<Rightarrow> nat \<Rightarrow> kstate \<Rightarrow> (u64 \<times> kstate) result" where
  "pipe_fail rf wrf s =
     rbind (fileclose rf s) (\<lambda>s. rbind (fileclose wrf s) (\<lambda>s. Inr (-1, s)))"

definition sys_pipe :: "kstate \<Rightarrow> (u64 \<times> kstate) result" where
  "sys_pipe s =
     rbind (argaddr 0 s) (\<lambda>fdarray.
     rbind (pipealloc s) (\<lambda>(r, s).
     case r of
       None \<Rightarrow> Inr (-1, s)
     | Some (rf, wrf) \<Rightarrow>
         (case fdalloc rf s of
            (None, s) \<Rightarrow> pipe_fail rf wrf s
          | (Some fd0, s) \<Rightarrow>
              (case fdalloc wrf s of
                 (None, s) \<Rightarrow> pipe_fail rf wrf (set_ofile fd0 None s)
               | (Some fd1, s) \<Rightarrow>
                   let bad = (\<lambda>s. pipe_fail rf wrf (set_ofile fd1 None (set_ofile fd0 None s))) in
                   rbind (copyout (p_pagetable (myproc s)) fdarray (Local (int_bytes fd0) 0) 4 s) (\<lambda>(r, s).
                   if r < 0 then bad s
                   else
                     rbind (copyout (p_pagetable (myproc s)) (fdarray + 4) (Local (int_bytes fd1) 0) 4 s)
                       (\<lambda>(r, s).
                     if r < 0 then bad s else Inr (0, s)))))))"

end
