(* ===== verification/Syscall.thy ===== *)
theory Syscall
  imports Sysfile
begin

text \<open>
  The system calls on processes, \<^verbatim>\<open>kernel/sysproc.c\<close>, and the dispatcher of \<^verbatim>\<open>kernel/syscall.c\<close>.
  A system call either returns a value for register \<^verbatim>\<open>a0\<close> or, for \<^verbatim>\<open>exit\<close>, ends the process.
\<close>

subsection \<open>Process system calls\<close>

datatype sysret = Ret u64 | Exited

definition sys_exit :: "kstate \<Rightarrow> (sysret \<times> kstate) result" where
  "sys_exit s =
     rbind (argint 0 s) (\<lambda>n.
     rbind (kexit n s) (\<lambda>s. Inr (Exited, s)))"

definition sys_getpid :: "kstate \<Rightarrow> (u64 \<times> kstate) result" where
  "sys_getpid s = Inr (word_of_int (p_pid (myproc s)), s)"

definition sys_fork :: "kstate \<Rightarrow> (u64 \<times> kstate) result" where
  "sys_fork s = rbind (kfork s) (\<lambda>(v, s). Inr (word_of_int v, s))"

definition sys_wait :: "kstate \<Rightarrow> (u64 \<times> kstate) result" where
  "sys_wait s =
     rbind (argaddr 0 s) (\<lambda>p.
     rbind (kwait p s) (\<lambda>(v, s). Inr (word_of_int v, s)))"

abbreviation (input) SBRK_EAGER :: int where "SBRK_EAGER \<equiv> 1"

definition sys_sbrk :: "kstate \<Rightarrow> (u64 \<times> kstate) result" where
  "sys_sbrk s =
     rbind (argint 0 s) (\<lambda>n.
     rbind (argint 1 s) (\<lambda>t.
     let addr = p_sz (myproc s) in
     if t = SBRK_EAGER \<or> n < 0 then
       rbind (growproc n s) (\<lambda>(r, s).
       if r < 0 then Inr (-1, s) else Inr (addr, s))
     else if addr + word_of_int n < addr then Inr (-1, s)
     else Inr (addr, set_proc (cur s) (\<lambda>x. x\<lparr>p_sz := p_sz x + word_of_int n\<rparr>) s)))"

text \<open>
  The loop of \<^verbatim>\<open>sys_pause\<close> runs again after every wakeup; \<^verbatim>\<open>ticks - ticks0 < n\<close> compares unsigned
  numbers.
\<close>

definition pause_loop :: "int \<Rightarrow> u32 \<Rightarrow> kstate \<Rightarrow> (u32 progress \<times> kstate) result" where
  "pause_loop n ticks0 s =
     (if ticks s - ticks0 < word_of_int n then
        rbind (killed (cur s) s) (\<lambda>(k, s).
        if k then rbind (release Lk_ticks s) (\<lambda>s. Inr (Done (-1), s))
        else Inr (Blocked ticks0, s))
      else rbind (release Lk_ticks s) (\<lambda>s. Inr (Done 0, s)))"

definition sys_pause :: "kstate \<Rightarrow> (u64 \<times> kstate) result" where
  "sys_pause s =
     rbind (argint 0 s) (\<lambda>n.
     let n = (if n < 0 then 0 else n) in
     rbind (acquire Lk_ticks s) (\<lambda>s.
     rbind (pause_loop n (ticks s) s) (\<lambda>(r, s).
     case r of Done v \<Rightarrow> Inr (word_of_int v, s) | Blocked _ \<Rightarrow> Inl (Sleeping Chan_ticks))))"

definition sys_kill :: "kstate \<Rightarrow> (u64 \<times> kstate) result" where
  "sys_kill s =
     rbind (argint 0 s) (\<lambda>pid.
     rbind (kkill pid s) (\<lambda>(v, s). Inr (word_of_int v, s)))"

definition sys_uptime :: "kstate \<Rightarrow> (u64 \<times> kstate) result" where
  "sys_uptime s =
     rbind (acquire Lk_ticks s) (\<lambda>s.
     let xticks = ticks s in
     rbind (release Lk_ticks s) (\<lambda>s. Inr (ucast xticks, s)))"

subsection \<open>The dispatcher\<close>

text \<open>The table \<^verbatim>\<open>syscalls\<close>, by the numbers of \<^verbatim>\<open>kernel/syscall.h\<close>.\<close>

definition ret :: "(kstate \<Rightarrow> (u64 \<times> kstate) result) \<Rightarrow> kstate \<Rightarrow> (sysret \<times> kstate) result" where
  "ret f s = rbind (f s) (\<lambda>(v, s). Inr (Ret v, s))"

definition syscalls :: "(kstate \<Rightarrow> (sysret \<times> kstate) result) option list" where
  "syscalls = [None, Some (ret sys_fork), Some sys_exit, Some (ret sys_wait), Some (ret sys_pipe),
     Some (ret sys_read), Some (ret sys_kill), Some (ret sys_exec), Some (ret sys_fstat),
     Some (ret sys_chdir), Some (ret sys_dup), Some (ret sys_getpid), Some (ret sys_sbrk),
     Some (ret sys_pause), Some (ret sys_uptime), Some (ret sys_open), Some (ret sys_write),
     Some (ret sys_mknod), Some (ret sys_unlink), Some (ret sys_link), Some (ret sys_mkdir),
     Some (ret sys_close)]"

definition set_a0 :: "nat \<Rightarrow> u64 \<Rightarrow> kstate \<Rightarrow> kstate" where
  "set_a0 p v s = set_tframe (p_trapframe (procs s p)) (\<lambda>t. t\<lparr>tf_a0 := v\<rparr>) s"

definition syscall :: "kstate \<Rightarrow> (bool \<times> kstate) result" where
  "syscall s =
     (let p = cur s; num = sint (ucast (tf_a7 (mytf s)) :: u32) in
      case (if num > 0 \<and> num < int (length syscalls) then syscalls ! nat num else None) of
        Some f \<Rightarrow>
          rbind (f s) (\<lambda>(r, s).
          case r of Ret v \<Rightarrow> Inr (True, set_a0 p v s) | Exited \<Rightarrow> Inr (False, s))
      | None \<Rightarrow>
          rbind (printf (str (''%d %s: unknown sys call %d'' @ [CHR 0x0A]))
                   [Num (word_of_int (p_pid (procs s p))), Str (Some (cstrn (p_name (procs s p)) 0 16)),
                    Num (word_of_int num)] s) (\<lambda>s.
          Inr (True, set_a0 p (-1) s)))"

end
