(* ===== verification/Trap.thy ===== *)
theory Trap
  imports Syscall
begin

text \<open>
  Traps and interrupts, \<^verbatim>\<open>kernel/trap.c\<close>. What the devices answer during a trap is the record
  \<open>devices\<close>: the interrupt that the PLIC claims, and whether the UART's transmitter is idle. The
  disk's interrupt completes requests that \<open>virtio_disk_rw\<close> shows as complete already (its rings
  are in theory \<open>Virtio\<close>). A trap ends with the return to user space, in the scheduler after
  \<^verbatim>\<open>kexit\<close>, or in the scheduler in the middle of \<^verbatim>\<open>yield\<close>.
\<close>

subsection \<open>Interrupts\<close>

record devices =
  dev_irq :: int
  dev_txidle :: bool

abbreviation (input) UART0_IRQ :: int where "UART0_IRQ \<equiv> 10"
abbreviation (input) VIRTIO0_IRQ :: int where "VIRTIO0_IRQ \<equiv> 1"

definition trapinithart :: "kstate \<Rightarrow> hart \<Rightarrow> hart" where
  "trapinithart s h = h\<lparr>h_stvec := sym_kernelvec s\<rparr>"

definition clockintr :: "hart \<Rightarrow> kstate \<Rightarrow> (hart \<times> kstate) result" where
  "clockintr h s =
     rbind (if h_tp h = 0 then
              rbind (acquire Lk_ticks s) (\<lambda>s.
              rbind (wakeup Chan_ticks (s\<lparr>ticks := ticks s + 1\<rparr>)) (\<lambda>s.
              release Lk_ticks s))
            else Inr s) (\<lambda>s.
     Inr (h\<lparr>h_stimecmp := h_time h + 1000000\<rparr>, s))"

definition devintr :: "devices \<Rightarrow> hart \<Rightarrow> kstate \<Rightarrow> (int \<times> hart \<times> kstate) result" where
  "devintr d h s =
     (if h_scause h = 0x8000000000000009 then
        let irq = dev_irq d in
        rbind (if irq = UART0_IRQ then uartintr (dev_txidle d) s
               else if irq = VIRTIO0_IRQ then Inr s
               else if irq \<noteq> 0 then
                 printf (str (''unexpected interrupt irq=%d'' @ [CHR 0x0A])) [Num (word_of_int irq)] s
               else Inr s) (\<lambda>s.
        Inr (1, h, s))
      else if h_scause h = 0x8000000000000005 then
        rbind (clockintr h s) (\<lambda>(h, s). Inr (2, h, s))
      else Inr (0, h, s))"

subsection \<open>Traps from user space\<close>

datatype trap_end = ToUser u64 | Exiting | Yielding

text \<open>\<^verbatim>\<open>prepare_return(); satp = MAKE_SATP(p->pagetable); return satp;\<close>\<close>

definition usertrap_return :: "hart \<Rightarrow> kstate \<Rightarrow> trap_end \<times> hart \<times> kstate" where
  "usertrap_return h s =
     (let (h, s) = prepare_return h s in (ToUser (MAKE_SATP (p_pagetable (myproc s))), h, s))"

definition usertrap_exit :: "hart \<Rightarrow> kstate \<Rightarrow> (trap_end \<times> hart \<times> kstate) result" where
  "usertrap_exit h s = rbind (kexit (-1) s) (\<lambda>s. Inr (Exiting, h, s))"

text \<open>The part of \<^verbatim>\<open>usertrap\<close> after the cause is handled.\<close>

definition usertrap_tail :: "int \<Rightarrow> hart \<Rightarrow> kstate \<Rightarrow> (trap_end \<times> hart \<times> kstate) result" where
  "usertrap_tail which_dev h s =
     rbind (killed (cur s) s) (\<lambda>(k, s).
     if k then usertrap_exit h s
     else if which_dev = 2 then rbind (yield_enter s) (\<lambda>s. Inr (Yielding, h, s))
     else Inr (usertrap_return h s))"

text \<open>The rest of a trap that yielded, when the scheduler switches back.\<close>

definition usertrap_resume :: "hart \<Rightarrow> kstate \<Rightarrow> (trap_end \<times> hart \<times> kstate) result" where
  "usertrap_resume h s = rbind (yield_exit s) (\<lambda>s. Inr (usertrap_return h s))"

definition unexpected_scause :: "hart \<Rightarrow> kstate \<Rightarrow> kstate result" where
  "unexpected_scause h s =
     rbind (printf (str (''usertrap(): unexpected scause 0x%lx pid=%d'' @ [CHR 0x0A]))
              [Num (h_scause h), Num (word_of_int (p_pid (myproc s)))] s) (\<lambda>s.
     rbind (printf (str (''            sepc=0x%lx stval=0x%lx'' @ [CHR 0x0A]))
              [Num (h_sepc h), Num (h_stval h)] s) (\<lambda>s.
     setkilled (cur s) s))"

definition usertrap :: "devices \<Rightarrow> hart \<Rightarrow> kstate \<Rightarrow> (trap_end \<times> hart \<times> kstate) result" where
  "usertrap d h s =
     (if h_sstatus h AND SSTATUS_SPP \<noteq> 0 then Inl (Panic ''usertrap: not from user mode'')
      else
        let h = h\<lparr>h_stvec := sym_kernelvec s\<rparr>;
            s = set_tframe (p_trapframe (myproc s)) (\<lambda>t. t\<lparr>epc := h_sepc h\<rparr>) s in
        if h_scause h = 8 then
          rbind (killed (cur s) s) (\<lambda>(k, s).
          if k then usertrap_exit h s
          else
            let s = set_tframe (p_trapframe (myproc s)) (\<lambda>t. t\<lparr>epc := epc t + 4\<rparr>) s;
                h = intr_on h in
            rbind (syscall s) (\<lambda>(alive, s).
            if alive then usertrap_tail 0 h s else Inr (Exiting, h, s)))
        else
          rbind (devintr d h s) (\<lambda>(which_dev, h, s).
          if which_dev \<noteq> 0 then usertrap_tail which_dev h s
          else if h_scause h = 15 \<or> h_scause h = 13 then
            rbind (vmfault (p_pagetable (myproc s)) (h_stval h) s) (\<lambda>(pa, s).
            if pa \<noteq> 0 then usertrap_tail 0 h s
            else rbind (unexpected_scause h s) (\<lambda>s. usertrap_tail 0 h s))
          else rbind (unexpected_scause h s) (\<lambda>s. usertrap_tail 0 h s)))"

subsection \<open>Traps from the kernel\<close>

text \<open>The result says whether the trap is in the middle of \<^verbatim>\<open>yield\<close>, with the saved registers.\<close>

definition kerneltrap_return :: "u64 \<Rightarrow> u64 \<Rightarrow> hart \<Rightarrow> hart" where
  "kerneltrap_return saved_sepc saved_sstatus h = h\<lparr>h_sepc := saved_sepc, h_sstatus := saved_sstatus\<rparr>"

definition kerneltrap :: "devices \<Rightarrow> hart \<Rightarrow> kstate \<Rightarrow> (bool \<times> hart \<times> kstate) result" where
  "kerneltrap d h s =
     (let saved_sepc = h_sepc h; saved_sstatus = h_sstatus h; scause = h_scause h in
      if saved_sstatus AND SSTATUS_SPP = 0 then Inl (Panic ''kerneltrap: not from supervisor mode'')
      else if intr_get h then Inl (Panic ''kerneltrap: interrupts enabled'')
      else
        rbind (devintr d h s) (\<lambda>(which_dev, h, s).
        if which_dev = 0 then
          rbind (printf (str (''scause=0x%lx sepc=0x%lx stval=0x%lx'' @ [CHR 0x0A]))
                   [Num scause, Num (h_sepc h), Num (h_stval h)] s) (\<lambda>s.
          Inl (Panic ''kerneltrap''))
        else if which_dev = 2 \<and> cur s \<noteq> NPROC then
          rbind (yield_enter s) (\<lambda>s. Inr (True, h, s))
        else Inr (False, kerneltrap_return saved_sepc saved_sstatus h, s)))"

definition kerneltrap_resume :: "u64 \<Rightarrow> u64 \<Rightarrow> hart \<Rightarrow> kstate \<Rightarrow> (hart \<times> kstate) result" where
  "kerneltrap_resume saved_sepc saved_sstatus h s =
     rbind (yield_exit s) (\<lambda>s. Inr (kerneltrap_return saved_sepc saved_sstatus h, s))"

end
