(* ===== verification/Lazy_Grow.thy ===== *)
theory Lazy_Grow
  imports Trap
begin

text \<open>
  Lazy growth of a process: \<^verbatim>\<open>sys_sbrk\<close> with \<^verbatim>\<open>SBRK_LAZY\<close> adds to \<^verbatim>\<open>p->sz\<close> after a check for
  wrap-around only, so a process can become larger than the address space that \<^verbatim>\<open>walk\<close> accepts.
  The lemmas follow such a process through the system call, the page fault and its end.
\<close>

subsection \<open>A process that calls sbrk\<close>

text \<open>
  The system call as a user program makes it: it loads the arguments and the number of the call into
  its registers, which the trampoline saves in the trapframe.
\<close>

definition user_sbrk :: "nat \<Rightarrow> u64 \<Rightarrow> kstate \<Rightarrow> (bool \<times> kstate) result" where
  "user_sbrk n t s =
     syscall (set_tframe (p_trapframe (myproc s)) (\<lambda>f. f\<lparr>tf_a0 := of_nat n, tf_a1 := t, tf_a7 := 12\<rparr>) s)"

lemma sint_of_small_nat: "n < 2 ^ 31 \<Longrightarrow> sint (ucast (of_nat n :: u64) :: u32) = int n"
  by (simp add: signed_take_bit_int_eq_self take_bit_int_eq_self signed_ucast_eq unsigned_of_nat
      unsigned_ucast_eq take_bit_nat_eq_self sint_uint)

lemma syscall_sbrk:
  assumes "tf_a7 (mytf s) = 12"
  shows "syscall s = rbind (sys_sbrk s) (\<lambda>(v, s'). Inr (True, set_a0 (cur s) v s'))"
  using assms by (cases "sys_sbrk s") (auto simp: syscall_def syscalls_def ret_def Let_def)

lemma user_sbrk_lazy:
  assumes n: "n < 2 ^ 31" and fit: "unat (p_sz (myproc s)) + n < 2 ^ 64"
  shows "\<exists>s'. user_sbrk n 2 s = Inr (True, s') \<and> cur s' = cur s \<and> p_sz (myproc s') = p_sz (myproc s) + of_nat n \<and>
    unat (p_sz (myproc s')) = unat (p_sz (myproc s)) + n"
proof -
  let ?s = "set_tframe (p_trapframe (myproc s)) (\<lambda>f. f\<lparr>tf_a0 := of_nat n, tf_a1 := 2, tf_a7 := 12\<rparr>) s"
  have tf: "mytf ?s = (mytf s)\<lparr>tf_a0 := of_nat n, tf_a1 := 2, tf_a7 := 12\<rparr>"
    by (simp add: mytf_def set_tframe_def)
  have c: "cur ?s = cur s" "procs ?s = procs s" by (simp_all add: set_tframe_def)
  have u: "unat (p_sz (myproc s) + of_nat n) = unat (p_sz (myproc s)) + n"
    using fit by (simp add: unat_word_ariths unat_of_nat)
  then have "\<not> p_sz (myproc s) + of_nat n < p_sz (myproc s)" by (simp add: word_less_nat_alt)
  then have "sys_sbrk ?s = Inr (p_sz (myproc s), set_proc (cur s) (\<lambda>x. x\<lparr>p_sz := p_sz x + of_nat n\<rparr>) ?s)"
    using n by (simp add: sys_sbrk_def argint_def argraw_def tf c sint_of_small_nat Let_def)
  then show ?thesis using u
    by (simp add: user_sbrk_def syscall_sbrk tf c) (simp add: set_a0_def set_tframe_def set_proc_def)
qed

text \<open>\<open>k\<close> calls in a row.\<close>

definition user_sbrks :: "nat \<Rightarrow> nat \<Rightarrow> kstate \<Rightarrow> kstate result" where
  "user_sbrks k n s = rfold (\<lambda>_ s. rbind (user_sbrk n 2 s) (\<lambda>(_, s). Inr s)) [0..<k] s"

lemma user_sbrks_grow:
  assumes "n < 2 ^ 31" "unat (p_sz (myproc s)) + k * n < 2 ^ 64"
  shows "\<exists>s'. user_sbrks k n s = Inr s' \<and> cur s' = cur s \<and> unat (p_sz (myproc s')) = unat (p_sz (myproc s)) + k * n"
  using assms(2)
proof (induction k)
  case 0
  then show ?case by (simp add: user_sbrks_def)
next
  case (Suc k)
  then obtain s1 where s1: "user_sbrks k n s = Inr s1" "cur s1 = cur s"
      "unat (p_sz (myproc s1)) = unat (p_sz (myproc s)) + k * n" by auto
  with Suc.prems user_sbrk_lazy [OF assms(1), of s1] show ?case
    by (auto simp: user_sbrks_def rfold_append)
qed

text \<open>A page fault of a user program: a load from the given address.\<close>

definition load_fault :: "u64 \<Rightarrow> hart \<Rightarrow> hart" where
  "load_fault va h = h\<lparr>h_sstatus := 0, h_scause := 13, h_stval := va\<rparr>"

subsection \<open>Above the end of the address space\<close>

lemma PGROUNDDOWN_above_MAXVA: "MAXVA \<le> va \<Longrightarrow> MAXVA \<le> PGROUNDDOWN va"
  by (simp add: word_le_nat_alt unat_PGROUNDDOWN)

lemma vmfault_above_MAXVA:
  "MAXVA \<le> va \<Longrightarrow> va < p_sz (myproc s) \<Longrightarrow> vmfault pt va s = Inl (Panic ''walk'')"
  using PGROUNDDOWN_above_MAXVA [of va] by (simp add: vmfault_def ismapped_def walk_def Let_def not_le)

lemma usertrap_above_MAXVA:
  assumes h: "h_sstatus h AND SSTATUS_SPP = 0" "h_scause h = 13 \<or> h_scause h = 15"
    and va: "MAXVA \<le> h_stval h" "h_stval h < p_sz (myproc s)"
  shows "usertrap d h s = Inl (Panic ''walk'')"
proof -
  have "\<not> (h_scause h = 8 \<or> h_scause h = 0x8000000000000009 \<or> h_scause h = 0x8000000000000005)" using h(2) by auto
  then show ?thesis using h va by (auto simp: usertrap_def devintr_def Let_def vmfault_above_MAXVA set_tframe_def)
qed

text \<open>Unmapping the memory of such a process does not return either.\<close>

lemma uvmunmap_loop_bound:
  "uvmunmap_loop pt a bound f s = Inr s' \<Longrightarrow> unat a mod 4096 = 0 \<Longrightarrow> a \<le> MAXVA \<Longrightarrow> bound \<le> MAXVA"
proof (induction pt a bound f s rule: uvmunmap_loop.induct)
  case (1 pt a bound f s)
  show ?case
  proof (cases "a < bound")
    case False
    then show ?thesis using 1(5) by (meson linorder_not_less order_trans)
  next
    case True
    then obtain pte s1 where w: "walk pt a False s = Inr (pte, s1)"
      using 1(3) by (auto simp: uvmunmap_loop.simps [of pt a] rbind_Inr_iff)
    from walk_below_MAXVA [OF w] have lt: "unat a < 274877906944" by simp
    obtain q where q: "unat a = 4096 * q" using 1(4) by (metis mod_0_imp_dvd dvdE)
    with lt have "q < 67108864" by simp
    then have "unat a + 4096 \<le> 274877906944" using q by simp
    then have n: "unat (a + 4096) mod 4096 = 0" "a + 4096 \<le> MAXVA"
      using 1(4) q by (simp_all add: unat_word_ariths word_le_nat_alt)
    show ?thesis
    proof (cases "pte = 0 \<or> load64 pte s1 AND PTE_V = 0")
      case T: True
      then have "uvmunmap_loop pt (a + 4096) bound f s1 = Inr s'"
        using 1(3) True w by (simp add: uvmunmap_loop.simps [of pt a])
      from 1(1) [OF True w refl T this n] show ?thesis .
    next
      case F: False
      then obtain s2 where s2: "(if f then kfree (PTE2PA (load64 pte s1)) s1 else Inr s1) = Inr s2"
          "uvmunmap_loop pt (a + 4096) bound f (store64 pte 0 s2) = Inr s'"
        using 1(3) True w by (auto simp: uvmunmap_loop.simps [of pt a] rbind_Inr_iff split: if_splits)
      from 1(2) [OF True w refl F s2(1) this(2) n] show ?thesis .
    qed
  qed
qed

lemma uvmfree_above_MAXVA:
  assumes "MAXVA < sz" "unat sz < 2 ^ 63"
  shows "uvmfree pt sz s \<noteq> Inr s'"
proof
  assume "uvmfree pt sz s = Inr s'"
  moreover have "0 < sz" using assms(1) by (simp add: word_less_nat_alt)
  ultimately obtain s1 where "uvmunmap_loop pt 0 (0 + PGROUNDUP sz div 4096 * 4096) True s = Inr s1"
    by (auto simp: uvmfree_def uvmunmap_def rbind_Inr_iff)
  then have "PGROUNDUP sz div 4096 * 4096 \<le> MAXVA" by (auto dest: uvmunmap_loop_bound)
  moreover have "unat (PGROUNDUP sz) = (unat sz + 4095) div 4096 * 4096"
    using assms(2) by (simp add: unat_PGROUNDUP)
  ultimately show False using assms by (simp add: word_le_nat_alt word_less_nat_alt unat_word_ariths unat_div)
qed

subsection \<open>Properties\<close>

text \<open>
  C27: nothing bounds lazy growth by the address space. Any process below 128 GB can, with 130 calls of
  \<^verbatim>\<open>sbrklazy\<close> that all succeed, become larger than \<^verbatim>\<open>MAXVA\<close>; a load from the address \<^verbatim>\<open>MAXVA\<close> then
  panics the kernel instead of killing the process, and its memory can no longer be freed.
\<close>

theorem lazy_sbrk_panics_kernel:
  assumes "unat (p_sz (myproc s)) < 2 ^ 37"
  shows "\<exists>s'. user_sbrks 130 0x7fffffff s = Inr s' \<and> MAXVA < p_sz (myproc s') \<and>
    usertrap d (load_fault MAXVA h) s' = Inl (Panic ''walk'') \<and>
    (\<nexists>r. uvmfree pt (p_sz (myproc s')) s' = Inr r)"
proof -
  from user_sbrks_grow [of "0x7fffffff" s 130] assms obtain s' where s': "user_sbrks 130 0x7fffffff s = Inr s'"
    "unat (p_sz (myproc s')) = unat (p_sz (myproc s)) + 130 * 0x7fffffff" by auto
  then have big: "MAXVA < p_sz (myproc s')" "unat (p_sz (myproc s')) < 2 ^ 63" using assms by (simp_all add: word_less_nat_alt)
  then show ?thesis
    using s'(1) usertrap_above_MAXVA [of "load_fault MAXVA h" s' d] uvmfree_above_MAXVA [OF big] by (simp add: load_fault_def)
qed

theorem lazy_sbrk_panics_kernel_witness:
  "\<exists>s'. user_sbrks 130 0x7fffffff (kstate0 0x80020000 (\<lambda>_ _. 0)) = Inr s' \<and> MAXVA < p_sz (myproc s')"
proof -
  have "unat (p_sz (myproc (kstate0 0x80020000 (\<lambda>_ _. 0)))) < 2 ^ 37" by (simp add: proc0_def)
  from lazy_sbrk_panics_kernel [OF this] show ?thesis by blast
qed

end
