(* ===== verification/Virtio.thy ===== *)
theory Virtio
  imports Bio Proc
begin

text \<open>
  The disk driver, \<^verbatim>\<open>kernel/virtio_disk.c\<close>, with the structures of \<^verbatim>\<open>kernel/virtio.h\<close>. The driver and
  the device share a table of descriptors, a ring of requests that are available to the device and
  a ring of requests that the device has used. \<^verbatim>\<open>virtio_disk_rw\<close> is given by its parts between the
  calls of \<^verbatim>\<open>sleep\<close>: the start, the retry after a wait for descriptors, and the resumption after a
  wait for the device. Theory \<open>Bio\<close> takes a whole request at its completion; theory
  \<open>Virtio_Run\<close> justifies this.

  The address in a descriptor is one of the three kinds that the driver uses: a command header, the
  data of a buffer, or a status byte. The rings are pages that the driver allocates once and keeps.
\<close>

subsection \<open>Structures\<close>

abbreviation (input) NUM :: nat where "NUM \<equiv> 8"
abbreviation (input) VRING_DESC_F_NEXT :: u16 where "VRING_DESC_F_NEXT \<equiv> 1"
abbreviation (input) VRING_DESC_F_WRITE :: u16 where "VRING_DESC_F_WRITE \<equiv> 2"
abbreviation (input) VIRTIO_BLK_T_IN :: u32 where "VIRTIO_BLK_T_IN \<equiv> 0"
abbreviation (input) VIRTIO_BLK_T_OUT :: u32 where "VIRTIO_BLK_T_OUT \<equiv> 1"

datatype dma = Null | Op nat | Data nat | Status nat

record virtq_desc =
  vd_addr :: dma
  vd_len :: u32
  vd_flags :: u16
  vd_next :: u16

record virtio_blk_req =
  br_type :: u32
  br_reserved :: u32
  br_sector :: u64

text \<open>
  \<^verbatim>\<open>struct disk\<close> with the three areas it points to. \<open>vd_mmio\<close> is the sequence of writes to the
  device's registers, oldest first.
\<close>

record vdisk =
  vq_desc :: "nat \<Rightarrow> virtq_desc"
  av_idx :: u16
  av_ring :: "nat \<Rightarrow> u16"
  us_idx :: u16
  us_ring :: "nat \<Rightarrow> u32"
  vq_free :: "nat \<Rightarrow> bool"
  used_idx :: u16
  info_b :: "nat \<Rightarrow> nat option"
  info_status :: "nat \<Rightarrow> byte"
  ops :: "nat \<Rightarrow> virtio_blk_req"
  vd_mmio :: "(nat \<times> u32) list"

definition vdesc0 :: virtq_desc where
  "vdesc0 = \<lparr>vd_addr = Null, vd_len = 0, vd_flags = 0, vd_next = 0\<rparr>"

text \<open>The state of the driver before \<^verbatim>\<open>virtio_disk_init\<close>.\<close>

definition vdisk0 :: vdisk where
  "vdisk0 = \<lparr>vq_desc = (\<lambda>_. vdesc0), av_idx = 0, av_ring = (\<lambda>_. 0), us_idx = 0, us_ring = (\<lambda>_. 0),
     vq_free = (\<lambda>_. False), used_idx = 0, info_b = (\<lambda>_. None), info_status = (\<lambda>_. 0),
     ops = (\<lambda>_. \<lparr>br_type = 0, br_reserved = 0, br_sector = 0\<rparr>), vd_mmio = []\<rparr>"

subsection \<open>Registers and initialisation\<close>

text \<open>
  What the device answers when a register is read is a function of the writes before:
  \<open>rd ws r\<close> is the value of register \<open>r\<close> after the writes \<open>ws\<close>.
\<close>

type_synonym mmio = "(nat \<times> u32) list \<Rightarrow> nat \<Rightarrow> u32"

definition mmio_write :: "nat \<Rightarrow> u32 \<Rightarrow> vdisk \<Rightarrow> vdisk" where
  "mmio_write r v d = d\<lparr>vd_mmio := vd_mmio d @ [(r, v)]\<rparr>"

abbreviation (input) VIRTIO_MMIO_MAGIC_VALUE :: nat where "VIRTIO_MMIO_MAGIC_VALUE \<equiv> 0x000"
abbreviation (input) VIRTIO_MMIO_VERSION :: nat where "VIRTIO_MMIO_VERSION \<equiv> 0x004"
abbreviation (input) VIRTIO_MMIO_DEVICE_ID :: nat where "VIRTIO_MMIO_DEVICE_ID \<equiv> 0x008"
abbreviation (input) VIRTIO_MMIO_VENDOR_ID :: nat where "VIRTIO_MMIO_VENDOR_ID \<equiv> 0x00c"
abbreviation (input) VIRTIO_MMIO_DEVICE_FEATURES :: nat where "VIRTIO_MMIO_DEVICE_FEATURES \<equiv> 0x010"
abbreviation (input) VIRTIO_MMIO_DRIVER_FEATURES :: nat where "VIRTIO_MMIO_DRIVER_FEATURES \<equiv> 0x020"
abbreviation (input) VIRTIO_MMIO_QUEUE_SEL :: nat where "VIRTIO_MMIO_QUEUE_SEL \<equiv> 0x030"
abbreviation (input) VIRTIO_MMIO_QUEUE_NUM_MAX :: nat where "VIRTIO_MMIO_QUEUE_NUM_MAX \<equiv> 0x034"
abbreviation (input) VIRTIO_MMIO_QUEUE_NUM :: nat where "VIRTIO_MMIO_QUEUE_NUM \<equiv> 0x038"
abbreviation (input) VIRTIO_MMIO_QUEUE_READY :: nat where "VIRTIO_MMIO_QUEUE_READY \<equiv> 0x044"
abbreviation (input) VIRTIO_MMIO_QUEUE_NOTIFY :: nat where "VIRTIO_MMIO_QUEUE_NOTIFY \<equiv> 0x050"
abbreviation (input) VIRTIO_MMIO_INTERRUPT_STATUS :: nat where "VIRTIO_MMIO_INTERRUPT_STATUS \<equiv> 0x060"
abbreviation (input) VIRTIO_MMIO_INTERRUPT_ACK :: nat where "VIRTIO_MMIO_INTERRUPT_ACK \<equiv> 0x064"
abbreviation (input) VIRTIO_MMIO_STATUS :: nat where "VIRTIO_MMIO_STATUS \<equiv> 0x070"
abbreviation (input) VIRTIO_MMIO_QUEUE_DESC_LOW :: nat where "VIRTIO_MMIO_QUEUE_DESC_LOW \<equiv> 0x080"
abbreviation (input) VIRTIO_MMIO_DRIVER_DESC_LOW :: nat where "VIRTIO_MMIO_DRIVER_DESC_LOW \<equiv> 0x090"
abbreviation (input) VIRTIO_MMIO_DEVICE_DESC_LOW :: nat where "VIRTIO_MMIO_DEVICE_DESC_LOW \<equiv> 0x0a0"

text \<open>An address is written to a pair of registers, its low half to the first.\<close>

definition write_addr :: "nat \<Rightarrow> u64 \<Rightarrow> vdisk \<Rightarrow> vdisk" where
  "write_addr r a d = mmio_write (r + 4) (ucast (drop_bit 32 a)) (mmio_write r (ucast a) d)"

text \<open>
  The features that the driver does not use: bits 5, 7, 11, 12, 27, 29 and 28. \<^verbatim>\<open>features\<close> has 64
  bits and its register 32.
\<close>

definition clear_features :: "u32 \<Rightarrow> u32" where
  "clear_features f =
     (let f = ucast f :: u64;
          f = f AND NOT (push_bit 5 1);
          f = f AND NOT (push_bit 7 1);
          f = f AND NOT (push_bit 11 1);
          f = f AND NOT (push_bit 12 1);
          f = f AND NOT (push_bit 27 1);
          f = f AND NOT (push_bit 29 1);
          f = f AND NOT (push_bit 28 1) in
      ucast f)"

text \<open>The allocation of the three areas and the end of the handshake.\<close>

definition virtio_queue_init :: "u32 \<Rightarrow> vdisk \<Rightarrow> kstate \<Rightarrow> (vdisk \<times> kstate) result" where
  "virtio_queue_init status d s =
     rbind (kalloc s) (\<lambda>(desc, s).
     rbind (kalloc s) (\<lambda>(avail, s).
     rbind (kalloc s) (\<lambda>(used, s).
     if desc = 0 \<or> avail = 0 \<or> used = 0 then Inl (Panic ''virtio disk kalloc'')
     else
       let s = zero_page used (zero_page avail (zero_page desc s));
           d = d\<lparr>vq_desc := (\<lambda>_. vdesc0), av_idx := 0, av_ring := (\<lambda>_. 0), us_idx := 0, us_ring := (\<lambda>_. 0)\<rparr>;
           d = mmio_write VIRTIO_MMIO_QUEUE_NUM 8 d;
           d = write_addr VIRTIO_MMIO_QUEUE_DESC_LOW desc d;
           d = write_addr VIRTIO_MMIO_DRIVER_DESC_LOW avail d;
           d = write_addr VIRTIO_MMIO_DEVICE_DESC_LOW used d;
           d = mmio_write VIRTIO_MMIO_QUEUE_READY 1 d;
           d = d\<lparr>vq_free := (\<lambda>i. i < NUM \<or> vq_free d i)\<rparr>;
           d = mmio_write VIRTIO_MMIO_STATUS (status OR 4) d in
       Inr (d, s))))"

definition virtio_disk_init :: "mmio \<Rightarrow> vdisk \<Rightarrow> kstate \<Rightarrow> (vdisk \<times> kstate) result" where
  "virtio_disk_init rd d s =
     (if rd (vd_mmio d) VIRTIO_MMIO_MAGIC_VALUE \<noteq> 0x74726976 \<or> rd (vd_mmio d) VIRTIO_MMIO_VERSION \<noteq> 2 \<or>
         rd (vd_mmio d) VIRTIO_MMIO_DEVICE_ID \<noteq> 2 \<or> rd (vd_mmio d) VIRTIO_MMIO_VENDOR_ID \<noteq> 0x554d4551
      then Inl (Panic ''could not find virtio disk'')
      else
        let d = mmio_write VIRTIO_MMIO_STATUS 0 d;
            d = mmio_write VIRTIO_MMIO_STATUS 1 d;
            d = mmio_write VIRTIO_MMIO_STATUS (1 OR 2) d;
            d = mmio_write VIRTIO_MMIO_DRIVER_FEATURES
                  (clear_features (rd (vd_mmio d) VIRTIO_MMIO_DEVICE_FEATURES)) d;
            d = mmio_write VIRTIO_MMIO_STATUS (1 OR 2 OR 8) d;
            status = rd (vd_mmio d) VIRTIO_MMIO_STATUS in
        if status AND 8 = 0 then Inl (Panic ''virtio disk FEATURES_OK unset'')
        else
          let d = mmio_write VIRTIO_MMIO_QUEUE_SEL 0 d in
          if rd (vd_mmio d) VIRTIO_MMIO_QUEUE_READY \<noteq> 0 then Inl (Panic ''virtio disk should not be ready'')
          else if rd (vd_mmio d) VIRTIO_MMIO_QUEUE_NUM_MAX = 0 then Inl (Panic ''virtio disk has no queue 0'')
          else if rd (vd_mmio d) VIRTIO_MMIO_QUEUE_NUM_MAX < 8 then Inl (Panic ''virtio disk max queue too short'')
          else virtio_queue_init status d s)"

subsection \<open>Descriptors\<close>

definition alloc_desc :: "vdisk \<Rightarrow> nat option \<times> vdisk" where
  "alloc_desc d =
     (case scan (vq_free d) 0 NUM of
        None \<Rightarrow> (None, d)
      | Some i \<Rightarrow> (Some i, d\<lparr>vq_free := (vq_free d)(i := False)\<rparr>))"

definition free_desc :: "nat \<Rightarrow> vdisk \<times> kstate \<Rightarrow> (vdisk \<times> kstate) result" where
  "free_desc i = (\<lambda>(d, s).
     if i \<ge> NUM then Inl (Panic ''free_desc 1'')
     else if vq_free d i then Inl (Panic ''free_desc 2'')
     else
       let d = d\<lparr>vq_desc := (vq_desc d)(i := vdesc0), vq_free := (vq_free d)(i := True)\<rparr> in
       rbind (wakeup Chan_diskfree s) (\<lambda>s. Inr (d, s)))"

text \<open>\<^verbatim>\<open>free_chain\<close> ends because \<^verbatim>\<open>free_desc\<close> panics on a descriptor that is free already.\<close>

definition busy :: "vdisk \<Rightarrow> nat" where
  "busy d = card {i. i < NUM \<and> \<not> vq_free d i}"

lemma free_desc_busy: "free_desc i (d, s) = Inr (d', s') \<Longrightarrow> busy d' < busy d"
proof -
  assume f: "free_desc i (d, s) = Inr (d', s')"
  then have i: "i < NUM" "\<not> vq_free d i" and d': "vq_free d' = (vq_free d)(i := True)"
    by (auto simp: free_desc_def Let_def rbind_Inr_iff split: if_splits)
  then have "{k. k < NUM \<and> \<not> vq_free d' k} \<subset> {k. k < NUM \<and> \<not> vq_free d k}" by auto
  then show ?thesis unfolding busy_def by (intro psubset_card_mono) simp
qed

function free_chain :: "nat \<Rightarrow> vdisk \<times> kstate \<Rightarrow> (vdisk \<times> kstate) result" where
  "free_chain i (d, s) =
     (let flag = vd_flags (vq_desc d i); nxt = unat (vd_next (vq_desc d i)) in
      rbind (free_desc i (d, s)) (\<lambda>(d, s).
      if flag AND VRING_DESC_F_NEXT \<noteq> 0 then free_chain nxt (d, s) else Inr (d, s)))"
  by pat_completeness auto
termination
  by (relation "measure (\<lambda>(i, d, s). busy d)") (auto dest: free_desc_busy)

declare free_chain.simps [simp del]

text \<open>The loop of \<^verbatim>\<open>alloc3_desc\<close> with the number of descriptors still to find and those found.\<close>

primrec alloc3_loop :: "nat \<Rightarrow> nat list \<Rightarrow> vdisk \<Rightarrow> kstate \<Rightarrow> (nat list option \<times> vdisk \<times> kstate) result" where
  "alloc3_loop 0 idx d s = Inr (Some idx, d, s)"
| "alloc3_loop (Suc k) idx d s =
     (let (r, d) = alloc_desc d in
      case r of
        Some i \<Rightarrow> alloc3_loop k (idx @ [i]) d s
      | None \<Rightarrow> rbind (rfold free_desc idx (d, s)) (\<lambda>(d, s). Inr (None, d, s)))"

definition alloc3_desc :: "vdisk \<Rightarrow> kstate \<Rightarrow> (nat list option \<times> vdisk \<times> kstate) result" where
  "alloc3_desc d s = alloc3_loop 3 [] d s"

subsection \<open>Requests\<close>

text \<open>\<^verbatim>\<open>b->blockno * (BSIZE / 512)\<close> is a product of 32-bit numbers.\<close>

definition sector :: "u32 \<Rightarrow> u64" where
  "sector blockno = ucast (blockno * 2)"

definition format_descs :: "nat \<Rightarrow> bool \<Rightarrow> nat list \<Rightarrow> u32 \<Rightarrow> vdisk \<Rightarrow> vdisk" where
  "format_descs b wr idx blockno d =
     (let i0 = idx ! 0; i1 = idx ! 1; i2 = idx ! 2;
          d = d\<lparr>ops := (ops d)(i0 := \<lparr>br_type = if wr then VIRTIO_BLK_T_OUT else VIRTIO_BLK_T_IN,
                                      br_reserved = 0, br_sector = sector blockno\<rparr>)\<rparr>;
          d = d\<lparr>vq_desc := (vq_desc d)(i0 := \<lparr>vd_addr = Op i0, vd_len = 16, vd_flags = VRING_DESC_F_NEXT,
                                              vd_next = of_nat i1\<rparr>)\<rparr>;
          d = d\<lparr>vq_desc := (vq_desc d)(i1 := \<lparr>vd_addr = Data b, vd_len = 1024,
                  vd_flags = (if wr then 0 else VRING_DESC_F_WRITE) OR VRING_DESC_F_NEXT, vd_next = of_nat i2\<rparr>)\<rparr>;
          d = d\<lparr>info_status := (info_status d)(i0 := 0xff)\<rparr> in
      d\<lparr>vq_desc := (vq_desc d)(i2 := \<lparr>vd_addr = Status i0, vd_len = 1, vd_flags = VRING_DESC_F_WRITE,
                                      vd_next = 0\<rparr>)\<rparr>)"

text \<open>Making the chain available to the device and notifying it.\<close>

definition post :: "nat \<Rightarrow> nat \<Rightarrow> vdisk \<Rightarrow> vdisk" where
  "post b i0 d =
     (let d = d\<lparr>info_b := (info_b d)(i0 := Some b)\<rparr>;
          d = d\<lparr>av_ring := (av_ring d)(unat (av_idx d) mod NUM := of_nat i0)\<rparr>;
          d = d\<lparr>av_idx := av_idx d + 1\<rparr> in
      mmio_write VIRTIO_MMIO_QUEUE_NOTIFY 0 d)"

datatype vrw = Wait_desc | Wait_disk nat | Returned

text \<open>\<^verbatim>\<open>while(b->disk == 1) sleep(b, &disk.vdisk_lock);\<close> and the rest of the function.\<close>

definition virtio_wait :: "nat \<Rightarrow> nat \<Rightarrow> vdisk \<Rightarrow> kstate \<Rightarrow> (vrw \<times> vdisk \<times> kstate) result" where
  "virtio_wait b i0 d s =
     (if b_disk (bufs s b) then
        rbind (sleep_enter (Chan_diskbuf b) Lk_vdisk s) (\<lambda>s. Inr (Wait_disk i0, d, s))
      else
        let d = d\<lparr>info_b := (info_b d)(i0 := None)\<rparr> in
        rbind (free_chain i0 (d, s)) (\<lambda>(d, s).
        rbind (release Lk_vdisk s) (\<lambda>s. Inr (Returned, d, s))))"

text \<open>From the allocation of descriptors on, with the lock held.\<close>

definition virtio_request :: "nat \<Rightarrow> bool \<Rightarrow> vdisk \<Rightarrow> kstate \<Rightarrow> (vrw \<times> vdisk \<times> kstate) result" where
  "virtio_request b wr d s =
     rbind (alloc3_desc d s) (\<lambda>(r, d, s).
     case r of
       None \<Rightarrow> rbind (sleep_enter Chan_diskfree Lk_vdisk s) (\<lambda>s. Inr (Wait_desc, d, s))
     | Some idx \<Rightarrow>
         let d = format_descs b wr idx (b_blockno (bufs s b)) d;
             s = set_buf b (\<lambda>x. x\<lparr>b_disk := True\<rparr>) s in
         virtio_wait b (idx ! 0) (post b (idx ! 0) d) s)"

definition virtio_start :: "nat \<Rightarrow> bool \<Rightarrow> vdisk \<Rightarrow> kstate \<Rightarrow> (vrw \<times> vdisk \<times> kstate) result" where
  "virtio_start b wr d s = rbind (acquire Lk_vdisk s) (\<lambda>s. virtio_request b wr d s)"

definition virtio_retry :: "nat \<Rightarrow> bool \<Rightarrow> vdisk \<Rightarrow> kstate \<Rightarrow> (vrw \<times> vdisk \<times> kstate) result" where
  "virtio_retry b wr d s = rbind (sleep_exit Lk_vdisk s) (\<lambda>s. virtio_request b wr d s)"

definition virtio_resume :: "nat \<Rightarrow> nat \<Rightarrow> vdisk \<Rightarrow> kstate \<Rightarrow> (vrw \<times> vdisk \<times> kstate) result" where
  "virtio_resume b i0 d s = rbind (sleep_exit Lk_vdisk s) (\<lambda>s. virtio_wait b i0 d s)"

subsection \<open>The interrupt\<close>

text \<open>A request whose record has no buffer would be a write through a null pointer.\<close>

function virtio_used_loop :: "vdisk \<Rightarrow> kstate \<Rightarrow> (vdisk \<times> kstate) result" where
  "virtio_used_loop d s =
     (if used_idx d \<noteq> us_idx d then
        let i = unat (us_ring d (unat (used_idx d) mod NUM)) in
        if info_status d i \<noteq> 0 then Inl (Panic ''virtio_disk_intr status'')
        else case info_b d i of
          None \<Rightarrow> Inl (Panic ''kerneltrap'')
        | Some b \<Rightarrow>
            rbind (wakeup (Chan_diskbuf b) (set_buf b (\<lambda>x. x\<lparr>b_disk := False\<rparr>) s)) (\<lambda>s.
            virtio_used_loop (d\<lparr>used_idx := used_idx d + 1\<rparr>) s)
      else Inr (d, s))"
  by pat_completeness auto
termination
proof (relation "measure (\<lambda>(d, s). unat (us_idx d - used_idx d))")
  fix d :: vdisk and s i b s'
  assume "used_idx d \<noteq> us_idx d"
  then have "us_idx d - used_idx d \<noteq> 0" by simp
  then have "unat (us_idx d - used_idx d - 1) < unat (us_idx d - used_idx d)"
    by (rule measure_unat)
  then show "((d\<lparr>used_idx := used_idx d + 1\<rparr>, s'), d, s) \<in> measure (\<lambda>(d, s). unat (us_idx d - used_idx d))"
    by (simp add: diff_diff_eq)
qed simp

declare virtio_used_loop.simps [simp del]

definition virtio_disk_intr :: "mmio \<Rightarrow> vdisk \<Rightarrow> kstate \<Rightarrow> (vdisk \<times> kstate) result" where
  "virtio_disk_intr rd d s =
     rbind (acquire Lk_vdisk s) (\<lambda>s.
     let d = mmio_write VIRTIO_MMIO_INTERRUPT_ACK (rd (vd_mmio d) VIRTIO_MMIO_INTERRUPT_STATUS AND 3) d in
     rbind (virtio_used_loop d s) (\<lambda>(d, s).
     rbind (release Lk_vdisk s) (\<lambda>s. Inr (d, s))))"

end
