(* ===== verification/Virtio_Run.thy ===== *)
theory Virtio_Run
  imports Virtio
begin

text \<open>
  The disk driver together with the device. The device is a parameter: a labelled step relation that
  keeps to what the virtio standard says of block devices. Threads that read and write blocks,
  interrupts and the device interleave; the invariant accounts for every descriptor and for every
  request in the rings, so that no path of the driver panics and every request is carried out once,
  before \<^verbatim>\<open>virtio_disk_rw\<close> returns.
\<close>

subsection \<open>Rings\<close>

text \<open>The entries of a ring between two counters.\<close>

definition entries :: "(nat \<Rightarrow> 'a) \<Rightarrow> u16 \<Rightarrow> u16 \<Rightarrow> 'a list" where
  "entries f r w = map (\<lambda>k. f (unat (r + of_nat k) mod NUM)) [0..<unat (w - r)]"

lemma entries_empty [simp]: "entries f r r = []"
  by (simp add: entries_def)

lemma length_entries [simp]: "length (entries f r w) = unat (w - r)"
  by (simp add: entries_def)

lemma entries_pop:
  assumes "r \<noteq> w"
  shows "entries f r w = f (unat r mod NUM) # entries f (r + 1) w"
proof -
  have n: "unat (w - r) = Suc (unat (w - (r + 1)))"
  proof -
    have "w - r \<noteq> 0" using assms by simp
    then have "unat (w - r - 1) = unat (w - r) - 1" "0 < unat (w - r)" by (simp_all add: unat_minus_one unat_gt_0)
    then show ?thesis by (simp add: diff_diff_eq)
  qed
  show ?thesis
    unfolding entries_def n upt_conv_Cons [OF zero_less_Suc] map_Suc_upt [symmetric]
    by (simp add: comp_def add.assoc del: upt_Suc)
qed

lemma entries_push:
  assumes "unat (w - r) < NUM"
  shows "entries (f(unat w mod NUM := v)) r (w + 1) = entries f r w @ [v]"
proof -
  have n: "unat (w + 1 - r) = Suc (unat (w - r))"
  proof -
    have "unat (w + 1 - r) = unat (w - r + 1)" by (simp add: algebra_simps)
    also have "\<dots> = Suc (unat (w - r))" using assms by (simp add: unat_word_ariths)
    finally show ?thesis .
  qed
  have other: "unat (r + of_nat k) mod NUM \<noteq> unat w mod NUM" if "k < unat (w - r)" for k
  proof
    assume e: "unat (r + of_nat k) mod NUM = unat w mod NUM"
    define m where "m = unat (w - r) - k"
    have m: "0 < m" "m < NUM" using that assms unfolding m_def by simp_all
    have "w = r + of_nat k + of_nat m"
      using that by (simp add: m_def of_nat_diff less_imp_le)
    then have "unat w mod NUM = (unat (r + of_nat k) + m) mod NUM"
    proof -
      assume w: "w = r + of_nat k + of_nat m"
      have "unat w = (unat (r + of_nat k) + m) mod 2 ^ 16"
        unfolding w by (simp add: unat_word_ariths unat_of_nat mod_add_right_eq)
      then show ?thesis by (simp add: mod_mod_cancel)
    qed
    with e have "(unat (r + of_nat k) + m) mod NUM = unat (r + of_nat k) mod NUM" by simp
    then have "m mod NUM = 0" by presburger
    then show False using m by simp
  qed
  have last: "unat (r + of_nat (unat (w - r))) mod NUM = unat w mod NUM" by simp
  show ?thesis unfolding entries_def n using other last by simp
qed

subsection \<open>The device and the system\<close>

text \<open>
  The device's own state: how far it has read the available ring, and the chains it has taken from
  there and not yet completed. The system adds the requests of threads that are in
  \<^verbatim>\<open>virtio_disk_rw\<close>, by buffer: the local variables \<^verbatim>\<open>idx[0]\<close>, \<^verbatim>\<open>write\<close> and \<^verbatim>\<open>sector\<close>.
\<close>

record device =
  dv_last :: u16
  dv_pend :: "nat list"

record vsys =
  vq :: vdisk
  ks :: kstate
  dv :: device
  fl :: "nat \<Rightarrow> (nat \<times> bool \<times> u64) option"

datatype vevent = Submit nat bool u64 | Transfer nat bool u64 | Finish nat

text \<open>
  What the standard says of the device (Virtual I/O Device 1.1, sections 2.6 and 5.2.6): it takes the
  chains from the available ring in order; it may complete those it has taken in any order; a chain
  is a header, the data and a status byte, and completing it moves the data between the buffer and
  the sectors, stores status 0 and appends the head of the chain to the used ring.
\<close>

definition fetch :: "vsys \<Rightarrow> vsys \<Rightarrow> bool" where
  "fetch x y \<longleftrightarrow> dv_last (dv x) \<noteq> av_idx (vq x) \<and>
     y = x\<lparr>dv := \<lparr>dv_last = dv_last (dv x) + 1,
                   dv_pend = dv_pend (dv x) @ [unat (av_ring (vq x) (unat (dv_last (dv x)) mod NUM))]\<rparr>\<rparr>"

definition request_at :: "vdisk \<Rightarrow> nat \<Rightarrow> (bool \<times> u64 \<times> nat \<times> nat) option" where
  "request_at d i =
     (let d0 = vq_desc d i; d1 = vq_desc d (unat (vd_next d0)); d2 = vq_desc d (unat (vd_next d1)) in
      case (vd_addr d0, vd_addr d1, vd_addr d2) of
        (Op k, Data b, Status j) \<Rightarrow>
          let out = (br_type (ops d k) = VIRTIO_BLK_T_OUT) in
          if vd_len d0 = 16 \<and> vd_flags d0 = VRING_DESC_F_NEXT \<and> vd_len d1 = 1024 \<and>
             vd_flags d1 = (if out then 1 else 3) \<and> vd_len d2 = 1 \<and> vd_flags d2 = VRING_DESC_F_WRITE \<and>
             (out \<or> br_type (ops d k) = VIRTIO_BLK_T_IN)
          then Some (out, br_sector (ops d k), b, j) else None
      | _ \<Rightarrow> None)"

text \<open>A block of the file system is two sectors.\<close>

definition transfer :: "bool \<Rightarrow> u64 \<Rightarrow> nat \<Rightarrow> kstate \<Rightarrow> kstate" where
  "transfer wr sec b s =
     (let bn = ucast (sec div 2) :: u32 in
      if wr then s\<lparr>disk := (disk s)(bn := b_data (bufs s b)), dwrites := dwrites s @ [(bn, b_data (bufs s b))]\<rparr>
      else set_buf b (\<lambda>x. x\<lparr>b_data := disk s bn\<rparr>) s)"

definition serve :: "nat \<Rightarrow> bool \<Rightarrow> u64 \<Rightarrow> vsys \<Rightarrow> vsys \<Rightarrow> bool" where
  "serve b wr sec x y \<longleftrightarrow> (\<exists>i j. i \<in> set (dv_pend (dv x)) \<and> request_at (vq x) i = Some (wr, sec, b, j) \<and>
     y = x\<lparr>ks := transfer wr sec b (ks x), dv := (dv x)\<lparr>dv_pend := remove1 i (dv_pend (dv x))\<rparr>,
           vq := (vq x)\<lparr>info_status := (info_status (vq x))(j := 0),
                        us_ring := (us_ring (vq x))(unat (us_idx (vq x)) mod NUM := of_nat i),
                        us_idx := us_idx (vq x) + 1\<rparr>\<rparr>)"

definition virtio_blk :: "(vevent list \<Rightarrow> vsys \<Rightarrow> vsys \<Rightarrow> bool) \<Rightarrow> bool" where
  "virtio_blk dev \<longleftrightarrow> (\<forall>l x y. dev l x y \<longrightarrow>
     l = [] \<and> fetch x y \<or> (\<exists>b wr sec. l = [Transfer b wr sec] \<and> serve b wr sec x y))"

text \<open>
  The driver and the rings when no request is under way.
\<close>

definition idle :: "vsys \<Rightarrow> bool" where
  "idle x \<longleftrightarrow> (\<forall>i<NUM. vq_free (vq x) i) \<and> fl x = (\<lambda>_. None) \<and> dv_last (dv x) = av_idx (vq x) \<and>
     used_idx (vq x) = us_idx (vq x) \<and> dv_pend (dv x) = []"

text \<open>
  What the rest of the kernel may change: anything but the \<^verbatim>\<open>disk\<close> flag of the buffers and the disk
  itself.
\<close>

definition elsewhere :: "kstate \<Rightarrow> kstate \<Rightarrow> bool" where
  "elsewhere s s' \<longleftrightarrow> (\<forall>b. b_disk (bufs s' b) = b_disk (bufs s b)) \<and> disk s' = disk s \<and> dwrites s' = dwrites s"

text \<open>A call that the thread makes for buffer \<open>b\<close>: a new request, or again after a wait for descriptors.\<close>

definition requests :: "nat \<Rightarrow> bool \<Rightarrow> vsys \<Rightarrow> (vrw \<times> vdisk \<times> kstate) result \<Rightarrow> bool" where
  "requests b wr x r \<longleftrightarrow>
     held (ks x) = [] \<and> r = virtio_start b wr (vq x) (ks x) \<or>
     held (ks x) = [Lk_proc (cur (ks x))] \<and> r = virtio_retry b wr (vq x) (ks x)"

inductive vrun :: "(vevent list \<Rightarrow> vsys \<Rightarrow> vsys \<Rightarrow> bool) \<Rightarrow> vevent list \<Rightarrow> vsys \<Rightarrow> bool"
  for dev where
  v_idle: "idle x \<Longrightarrow> vrun dev [] x"
| v_else: "vrun dev evs x \<Longrightarrow> elsewhere (ks x) s' \<Longrightarrow> vrun dev evs (x\<lparr>ks := s'\<rparr>)"
| v_device: "vrun dev evs x \<Longrightarrow> dev l x y \<Longrightarrow> vrun dev (evs @ l) y"
| v_submit: "vrun dev evs x \<Longrightarrow> fl x b = None \<Longrightarrow> requests b wr x (Inr (Wait_disk i, d', s')) \<Longrightarrow>
    sec = sector (b_blockno (bufs (ks x) b)) \<Longrightarrow>
    vrun dev (evs @ [Submit b wr sec]) (x\<lparr>vq := d', ks := s', fl := (fl x)(b := Some (i, wr, sec))\<rparr>)"
| v_full: "vrun dev evs x \<Longrightarrow> fl x b = None \<Longrightarrow> requests b wr x (Inr (Wait_desc, d', s')) \<Longrightarrow>
    vrun dev evs (x\<lparr>vq := d', ks := s'\<rparr>)"
| v_again: "vrun dev evs x \<Longrightarrow> fl x b = Some (i, wr, sec) \<Longrightarrow> held (ks x) = [Lk_proc (cur (ks x))] \<Longrightarrow>
    virtio_resume b i (vq x) (ks x) = Inr (Wait_disk j, d', s') \<Longrightarrow> vrun dev evs (x\<lparr>vq := d', ks := s'\<rparr>)"
| v_finish: "vrun dev evs x \<Longrightarrow> fl x b = Some (i, wr, sec) \<Longrightarrow> held (ks x) = [Lk_proc (cur (ks x))] \<Longrightarrow>
    virtio_resume b i (vq x) (ks x) = Inr (Returned, d', s') \<Longrightarrow>
    vrun dev (evs @ [Finish b]) (x\<lparr>vq := d', ks := s', fl := (fl x)(b := None)\<rparr>)"
| v_intr: "vrun dev evs x \<Longrightarrow> held (ks x) = [] \<Longrightarrow> virtio_disk_intr rd (vq x) (ks x) = Inr (d', s') \<Longrightarrow>
    vrun dev evs (x\<lparr>vq := d', ks := s'\<rparr>)"

subsection \<open>What the parts of the driver do\<close>

text \<open>The parts of the kernel state that matter here.\<close>

definition same :: "kstate \<Rightarrow> kstate \<Rightarrow> bool" where
  "same s s' \<longleftrightarrow> bufs s' = bufs s \<and> disk s' = disk s \<and> dwrites s' = dwrites s"

definition quiet :: "kstate \<Rightarrow> kstate \<Rightarrow> bool" where
  "quiet s s' \<longleftrightarrow> same s s' \<and> held s' = held s \<and> cur s' = cur s"

lemma same_trans: "same s s' \<Longrightarrow> same s' s'' \<Longrightarrow> same s s''"
  by (simp add: same_def)

lemma quiet_trans: "quiet s s' \<Longrightarrow> quiet s' s'' \<Longrightarrow> quiet s s''"
  by (auto simp: quiet_def same_def)

lemma quiet_refl [simp]: "quiet s s"
  by (simp add: quiet_def same_def)

lemma quiet_plocks: "quiet s s' \<Longrightarrow> no_plocks s' = no_plocks s"
  by (simp add: quiet_def no_plocks_def)

lemma wakeup_quiet: "no_plocks s \<Longrightarrow> \<exists>s'. wakeup ch s = Inr s' \<and> quiet s s'"
  by (simp add: wakeup_eq quiet_def same_def)

lemma sleep_enter_same:
  "held s = [Lk_vdisk] \<Longrightarrow> \<exists>s'. sleep_enter ch Lk_vdisk s = Inr s' \<and> same s s'"
  by (simp add: sleep_enter_def sched_def set_proc_def same_def release_def)

lemma sleep_exit_same:
  "held s = [Lk_proc (cur s)] \<Longrightarrow>
     \<exists>s'. sleep_exit Lk_vdisk s = Inr s' \<and> same s s' \<and> held s' = [Lk_vdisk]"
  by (simp add: sleep_exit_def set_proc_def same_def release_def Let_def)

lemma requests_cases:
  assumes "requests b wr x r"
  obtains s where "held s = [Lk_vdisk]" "same (ks x) s" "r = virtio_request b wr (vq x) s"
proof (cases "held (ks x) = []")
  case True
  then have r: "r = virtio_start b wr (vq x) (ks x)" using assms by (auto simp: requests_def)
  show ?thesis
    by (rule that [of "(ks x)\<lparr>held := [Lk_vdisk]\<rparr>"]) (use True r in \<open>simp_all add: virtio_start_def same_def\<close>)
next
  case False
  then have h: "held (ks x) = [Lk_proc (cur (ks x))]" and r: "r = virtio_retry b wr (vq x) (ks x)"
    using assms by (auto simp: requests_def)
  from sleep_exit_same [OF h] obtain s' where "sleep_exit Lk_vdisk (ks x) = Inr s'" "same (ks x) s'" "held s' = [Lk_vdisk]"
    by blast
  then show ?thesis using r by (intro that [of s']) (simp_all add: virtio_retry_def)
qed

definition freed :: "nat set \<Rightarrow> vdisk \<Rightarrow> vdisk" where
  "freed I d = d\<lparr>vq_desc := (\<lambda>k. if k \<in> I then vdesc0 else vq_desc d k), vq_free := (\<lambda>k. k \<in> I \<or> vq_free d k)\<rparr>"

definition taken :: "nat set \<Rightarrow> vdisk \<Rightarrow> vdisk" where
  "taken I d = d\<lparr>vq_free := (\<lambda>k. k \<notin> I \<and> vq_free d k)\<rparr>"

lemma freed_taken_fields [simp]:
  "vq_free (freed I d) k \<longleftrightarrow> k \<in> I \<or> vq_free d k" "vq_free (taken I d) k \<longleftrightarrow> k \<notin> I \<and> vq_free d k"
  "vq_desc (freed I d) k = (if k \<in> I then vdesc0 else vq_desc d k)" "vq_desc (taken I d) = vq_desc d"
  by (simp_all add: freed_def taken_def)

lemma freed_freed: "freed I (freed J d) = freed (I \<union> J) d"
proof -
  have "(\<lambda>k. k \<in> I \<or> k \<in> J \<or> vq_free d k) = (\<lambda>k. (k \<in> I \<or> k \<in> J) \<or> vq_free d k)" by auto
  moreover have "(\<lambda>k. if k \<in> I then vdesc0 else if k \<in> J then vdesc0 else vq_desc d k) =
      (\<lambda>k. if k \<in> I \<or> k \<in> J then vdesc0 else vq_desc d k)" by auto
  ultimately show ?thesis by (simp add: freed_def cong: if_cong)
qed

lemma taken_taken: "taken I (taken J d) = taken (I \<union> J) d"
proof -
  have "(\<lambda>k. k \<notin> I \<and> k \<notin> J \<and> vq_free d k) = (\<lambda>k. (k \<notin> I \<and> k \<notin> J) \<and> vq_free d k)" by auto
  then show ?thesis by (simp add: taken_def)
qed

lemma freed_taken: "J \<subseteq> I \<Longrightarrow> freed I (taken J d) = freed I d"
proof -
  assume "J \<subseteq> I"
  then have "(\<lambda>k. k \<in> I \<or> k \<notin> J \<and> vq_free d k) = (\<lambda>k. k \<in> I \<or> vq_free d k)" by auto
  then show ?thesis by (simp add: freed_def taken_def cong: if_cong)
qed

lemma free_desc_eq:
  assumes "no_plocks s" "i < NUM" "\<not> vq_free d i"
  shows "\<exists>s'. free_desc i (d, s) = Inr (freed {i} d, s') \<and> quiet s s'"
proof -
  have "freed {i} d = d\<lparr>vq_desc := (vq_desc d)(i := vdesc0), vq_free := (vq_free d)(i := True)\<rparr>"
    by (simp add: freed_def fun_eq_iff fun_upd_def)
  then show ?thesis using assms wakeup_quiet [OF assms(1), of Chan_diskfree] by (auto simp: free_desc_def Let_def)
qed

lemma free_descs_eq:
  assumes "no_plocks s" "distinct is" "\<forall>i\<in>set is. i < NUM \<and> \<not> vq_free d i"
  shows "\<exists>s'. rfold free_desc is (d, s) = Inr (freed (set is) d, s') \<and> quiet s s'"
  using assms
proof (induction "is" arbitrary: d s)
  case Nil
  then show ?case by (simp add: freed_def)
next
  case (Cons i "is")
  from free_desc_eq [of s i d] Cons.prems obtain s1 where s1: "free_desc i (d, s) = Inr (freed {i} d, s1)" "quiet s s1" by auto
  have "\<forall>k\<in>set is. k < NUM \<and> \<not> vq_free (freed {i} d) k" using Cons.prems by auto
  then obtain s2 where "rfold free_desc is (freed {i} d, s1) = Inr (freed (set is) (freed {i} d), s2)" "quiet s1 s2"
    using Cons.IH [of s1 "freed {i} d"] Cons.prems quiet_plocks [OF s1(2)] by auto
  then show ?case using s1 quiet_trans by (auto simp: freed_freed)
qed

lemma alloc3_loop_eq:
  assumes "no_plocks s" "distinct is" "\<forall>i\<in>set is. i < NUM \<and> \<not> vq_free d i"
  shows "\<exists>js. distinct (is @ js) \<and> (\<forall>j\<in>set js. j < NUM \<and> vq_free d j) \<and>
    (length js = k \<and> alloc3_loop k is d s = Inr (Some (is @ js), taken (set js) d, s) \<or>
     (\<exists>s'. alloc3_loop k is d s = Inr (None, freed (set (is @ js)) d, s') \<and> quiet s s'))"
  using assms
proof (induction k arbitrary: "is" d)
  case 0
  then show ?case by (intro exI [of _ "[]"]) (simp add: taken_def)
next
  case (Suc k)
  show ?case
  proof (cases "scan (vq_free d) 0 NUM")
    case None
    with free_descs_eq [OF Suc.prems] show ?thesis
      using Suc.prems by (intro exI [of _ "[]"]) (auto simp: alloc_desc_def)
  next
    case (Some i)
    then have i: "i < NUM" "vq_free d i" by (auto dest: scan_hit)
    then have n: "distinct (is @ [i])" "\<forall>k\<in>set (is @ [i]). k < NUM \<and> \<not> vq_free (taken {i} d) k"
      using Suc.prems by auto
    have d: "alloc_desc d = (Some i, taken {i} d)" using Some by (auto simp: alloc_desc_def taken_def fun_eq_iff)
    from Suc.IH [OF Suc.prems(1) n] obtain js where js: "distinct (is @ i # js)" "\<forall>j\<in>set js. j < NUM \<and> vq_free (taken {i} d) j"
      "length js = k \<and> alloc3_loop k (is @ [i]) (taken {i} d) s = Inr (Some (is @ i # js), taken (set js) (taken {i} d), s) \<or>
       (\<exists>s'. alloc3_loop k (is @ [i]) (taken {i} d) s = Inr (None, freed (set (is @ i # js)) (taken {i} d), s') \<and> quiet s s')"
      by auto
    have f: "freed (set (is @ i # js)) (taken {i} d) = freed (set (is @ i # js)) d"
      by (rule freed_taken) simp
    show ?thesis
      by (rule exI [of _ "i # js"]) (use js i d f in \<open>auto simp: taken_taken\<close>)
  qed
qed

text \<open>\<^verbatim>\<open>alloc3_desc\<close> takes three free descriptors, or leaves the same ones free.\<close>

lemma alloc3_desc_eq:
  assumes "no_plocks s"
  shows "(\<exists>i j k. distinct [i, j, k] \<and> (\<forall>m\<in>{i, j, k}. m < NUM \<and> vq_free d m) \<and>
      alloc3_desc d s = Inr (Some [i, j, k], taken {i, j, k} d, s)) \<or>
    (\<exists>I s'. (\<forall>m\<in>I. vq_free d m) \<and> alloc3_desc d s = Inr (None, freed I d, s') \<and> quiet s s')"
proof -
  from alloc3_loop_eq [OF assms, of "[]" d 3] obtain js where js: "distinct js" "\<forall>j\<in>set js. j < NUM \<and> vq_free d j"
    "length js = 3 \<and> alloc3_desc d s = Inr (Some js, taken (set js) d, s) \<or>
       (\<exists>s'. alloc3_desc d s = Inr (None, freed (set js) d, s') \<and> quiet s s')"
    by (auto simp: alloc3_desc_def)
  from js(3) show ?thesis
  proof
    assume l: "length js = 3 \<and> alloc3_desc d s = Inr (Some js, taken (set js) d, s)"
    then obtain i j k where "js = [i, j, k]" by (auto simp: length_Suc_conv eval_nat_numeral)
    with l js(1,2) show ?thesis by (intro disjI1 exI [of _ i] exI [of _ j] exI [of _ k]) simp
  next
    assume "\<exists>s'. alloc3_desc d s = Inr (None, freed (set js) d, s') \<and> quiet s s'"
    with js(2) show ?thesis by (intro disjI2 exI [of _ "set js"]) auto
  qed
qed

end
