(* ===== verification/Virtio_Safe.thy ===== *)
theory Virtio_Safe
  imports Virtio_Run
begin

text \<open>
  Chains of descriptors as the driver formats them, and what the parts of the driver do on them: the
  submission of a request, the wait for the device, and the interrupt.
\<close>

subsection \<open>Chains\<close>

definition chain :: "vdisk \<Rightarrow> nat \<Rightarrow> nat set" where
  "chain d i =
     (let j = unat (vd_next (vq_desc d i)); k = unat (vd_next (vq_desc d j)) in {i, j, k})"

text \<open>The chain of a request that the driver has formatted and not yet freed.\<close>

definition ready_at :: "vdisk \<Rightarrow> nat \<Rightarrow> bool \<Rightarrow> u64 \<Rightarrow> nat \<Rightarrow> nat \<Rightarrow> nat \<Rightarrow> bool" where
  "ready_at d b wr sec i j k \<longleftrightarrow> distinct [i, j, k] \<and> (\<forall>m\<in>{i, j, k}. m < NUM \<and> \<not> vq_free d m) \<and>
     vq_desc d i = \<lparr>vd_addr = Op i, vd_len = 16, vd_flags = 1, vd_next = of_nat j\<rparr> \<and>
     vq_desc d j = \<lparr>vd_addr = Data b, vd_len = 1024, vd_flags = (if wr then 1 else 3), vd_next = of_nat k\<rparr> \<and>
     vq_desc d k = \<lparr>vd_addr = Status i, vd_len = 1, vd_flags = 2, vd_next = 0\<rparr> \<and>
     ops d i = \<lparr>br_type = (if wr then 1 else 0), br_reserved = 0, br_sector = sec\<rparr> \<and> info_b d i = Some b"

definition ready :: "vdisk \<Rightarrow> nat \<Rightarrow> bool \<Rightarrow> u64 \<Rightarrow> nat \<Rightarrow> bool" where
  "ready d b wr sec i \<longleftrightarrow> (\<exists>j k. ready_at d b wr sec i j k)"

lemma ready_at_chain:
  assumes "ready_at d b wr sec i j k"
  shows "chain d i = {i, j, k}" "i < NUM" "j < NUM" "k < NUM" "distinct [i, j, k]"
    "\<not> vq_free d i" "\<not> vq_free d j" "\<not> vq_free d k"
    "unat (of_nat j :: u16) = j" "unat (of_nat k :: u16) = k"
  using assms by (auto simp: ready_at_def chain_def Let_def unat_of_nat)

lemma ready_request: "ready d b wr sec i \<Longrightarrow> request_at d i = Some (wr, sec, b, i)"
  unfolding ready_def
proof (elim exE)
  fix j k assume r: "ready_at d b wr sec i j k"
  then show ?thesis using ready_at_chain(9,10) [OF r]
    by (simp add: request_at_def ready_at_def Let_def)
qed

lemma ready_chain:
  assumes "ready d b wr sec i"
  shows "i \<in> chain d i" "chain d i \<subseteq> {..<NUM}" "card (chain d i) = 3" "m \<in> chain d i \<Longrightarrow> \<not> vq_free d m"
    "info_b d i = Some b"
proof -
  obtain j k where r: "ready_at d b wr sec i j k" using assms by (auto simp: ready_def)
  note c = ready_at_chain [OF r]
  show "i \<in> chain d i" "chain d i \<subseteq> {..<NUM}" "m \<in> chain d i \<Longrightarrow> \<not> vq_free d m" using c by auto
  show "card (chain d i) = 3" using c(1,5) by simp
  show "info_b d i = Some b" using r by (simp add: ready_at_def)
qed

lemma ready_cong:
  assumes r: "ready d b wr sec i"
    and e: "\<And>m. m \<in> chain d i \<Longrightarrow> vq_desc d' m = vq_desc d m \<and> \<not> vq_free d' m" "ops d' i = ops d i" "info_b d' i = info_b d i"
  shows "ready d' b wr sec i" "chain d' i = chain d i"
proof -
  obtain j k where r: "ready_at d b wr sec i j k" using r by (auto simp: ready_def)
  have "\<forall>m\<in>{i, j, k}. vq_desc d' m = vq_desc d m \<and> \<not> vq_free d' m" using e(1) ready_at_chain(1) [OF r] by blast
  then have "ready_at d' b wr sec i j k" using r e(2,3) by (simp add: ready_at_def)
  then show "ready d' b wr sec i" "chain d' i = chain d i"
    using ready_at_chain(1) r by (auto simp: ready_def)
qed

lemma free_chain_eq:
  assumes r: "ready_at d' b wr sec i j k" and d: "vq_desc d = vq_desc d'" "vq_free d = vq_free d'" and np: "no_plocks s"
  shows "\<exists>s'. free_chain i (d, s) = Inr (freed {i, j, k} d, s') \<and> quiet s s'"
proof -
  note c = ready_at_chain [OF r]
  obtain s1 where s1: "free_desc i (d, s) = Inr (freed {i} d, s1)" "quiet s s1"
    using free_desc_eq [OF np c(2), of d] c(6) d by auto
  obtain s2 where s2: "free_desc j (freed {i} d, s1) = Inr (freed {j} (freed {i} d), s2)" "quiet s1 s2"
    using free_desc_eq [of s1 j "freed {i} d"] quiet_plocks [OF s1(2)] np c(3,5,7) d by auto
  obtain s3 where s3: "free_desc k (freed {j} (freed {i} d), s2) = Inr (freed {k} (freed {j} (freed {i} d)), s3)" "quiet s2 s3"
    using free_desc_eq [of s2 k "freed {j} (freed {i} d)"] quiet_plocks [OF s1(2)] quiet_plocks [OF s2(2)] np c(4,5,8) d by auto
  have f: "vd_flags (vq_desc d i) = 1" "vd_flags (vq_desc d j) AND 1 \<noteq> 0" "vd_flags (vq_desc d k) = 2"
    "unat (vd_next (vq_desc d i)) = j" "unat (vd_next (vq_desc d j)) = k"
    using r c(9,10) d by (auto simp: ready_at_def)
  have "free_chain k (freed {j} (freed {i} d), s2) = Inr (freed {i, j, k} d, s3)"
    using s3(1) f(3) c(5) by (simp add: free_chain.simps freed_freed insert_commute)
  then have "free_chain j (freed {i} d, s1) = Inr (freed {i, j, k} d, s3)"
    using s2(1) f(2,5) c(5) by (simp add: free_chain.simps [of j])
  then have "free_chain i (d, s) = Inr (freed {i, j, k} d, s3)"
    using s1(1) f(1,4) by (simp add: free_chain.simps [of i])
  then show ?thesis using quiet_trans s1(2) s2(2) s3(2) by blast
qed

subsection \<open>The parts of the driver on formatted requests\<close>

lemma virtio_wait_done:
  assumes "ready d b wr sec i" "held s = [Lk_vdisk]" "\<not> b_disk (bufs s b)"
  shows "\<exists>s'. virtio_wait b i d s = Inr (Returned, freed (chain d i) (d\<lparr>info_b := (info_b d)(i := None)\<rparr>), s') \<and> same s s'"
proof -
  obtain j k where r: "ready_at d b wr sec i j k" using assms(1) by (auto simp: ready_def)
  have "no_plocks s" using assms(2) by (simp add: no_plocks_def)
  from free_chain_eq [OF r, of "d\<lparr>info_b := (info_b d)(i := None)\<rparr>", OF _ _ this] obtain s' where
    s': "free_chain i (d\<lparr>info_b := (info_b d)(i := None)\<rparr>, s) =
         Inr (freed {i, j, k} (d\<lparr>info_b := (info_b d)(i := None)\<rparr>), s')" "quiet s s'" by auto
  then show ?thesis using assms(2,3) ready_at_chain(1) [OF r]
    by (simp add: virtio_wait_def quiet_def same_def release_def)
qed

lemma virtio_wait_sleep:
  assumes "held s = [Lk_vdisk]" "b_disk (bufs s b)"
  shows "\<exists>s'. virtio_wait b i d s = Inr (Wait_disk i, d, s') \<and> same s s'"
  using sleep_enter_same [OF assms(1), of "Chan_diskbuf b"] assms(2) by (auto simp: virtio_wait_def)

definition posted :: "nat \<Rightarrow> bool \<Rightarrow> u32 \<Rightarrow> nat \<Rightarrow> nat \<Rightarrow> nat \<Rightarrow> vdisk \<Rightarrow> vdisk" where
  "posted b wr bn i j k d = post b i (format_descs b wr [i, j, k] bn (taken {i, j, k} d))"

lemma posted_fields:
  assumes "distinct [i, j, k]"
  shows "av_idx (posted b wr bn i j k d) = av_idx d + 1"
    "av_ring (posted b wr bn i j k d) = (av_ring d)(unat (av_idx d) mod NUM := of_nat i)"
    "us_idx (posted b wr bn i j k d) = us_idx d" "us_ring (posted b wr bn i j k d) = us_ring d"
    "used_idx (posted b wr bn i j k d) = used_idx d"
    "vq_free (posted b wr bn i j k d) m \<longleftrightarrow> m \<notin> {i, j, k} \<and> vq_free d m"
    "m \<notin> {i, j, k} \<Longrightarrow> vq_desc (posted b wr bn i j k d) m = vq_desc d m"
    "m \<noteq> i \<Longrightarrow> ops (posted b wr bn i j k d) m = ops d m"
    "m \<noteq> i \<Longrightarrow> info_b (posted b wr bn i j k d) m = info_b d m"
    "m \<noteq> i \<Longrightarrow> info_status (posted b wr bn i j k d) m = info_status d m"
  using assms by (simp_all add: posted_def post_def format_descs_def mmio_write_def Let_def taken_def)

lemma posted_ready:
  assumes "distinct [i, j, k]" "\<forall>m\<in>{i, j, k}. m < NUM"
  shows "ready_at (posted b wr bn i j k d) b wr (sector bn) i j k"
  using assms by (simp add: ready_at_def posted_def post_def format_descs_def mmio_write_def Let_def taken_def)

lemma virtio_request_eq:
  assumes h: "held s = [Lk_vdisk]"
  shows "(\<exists>i j k s'. distinct [i, j, k] \<and> (\<forall>m\<in>{i, j, k}. m < NUM \<and> vq_free d m) \<and>
      virtio_request b wr d s = Inr (Wait_disk i, posted b wr (b_blockno (bufs s b)) i j k d, s') \<and>
      same (set_buf b (\<lambda>x. x\<lparr>b_disk := True\<rparr>) s) s') \<or>
    (\<exists>I s'. (\<forall>m\<in>I. vq_free d m) \<and> virtio_request b wr d s = Inr (Wait_desc, freed I d, s') \<and> same s s')"
proof -
  have np: "no_plocks s" using h by (simp add: no_plocks_def)
  from alloc3_desc_eq [OF np, of d] show ?thesis
  proof (elim disjE exE conjE)
    fix i j k assume a: "distinct [i, j, k]" "\<forall>m\<in>{i, j, k}. m < NUM \<and> vq_free d m"
      "alloc3_desc d s = Inr (Some [i, j, k], taken {i, j, k} d, s)"
    let ?s = "set_buf b (\<lambda>x. x\<lparr>b_disk := True\<rparr>) s"
    have "held ?s = [Lk_vdisk]" "b_disk (bufs ?s b)" using h by (simp_all add: set_buf_def)
    from virtio_wait_sleep [OF this, of i "posted b wr (b_blockno (bufs s b)) i j k d"] a show ?thesis
      by (intro disjI1 exI [of _ i] exI [of _ j] exI [of _ k]) (auto simp: virtio_request_def posted_def Let_def)
  next
    fix I s' assume a: "\<forall>m\<in>I. vq_free d m" "alloc3_desc d s = Inr (None, freed I d, s')" "quiet s s'"
    then have "held s' = [Lk_vdisk]" "same s s'" using h by (simp_all add: quiet_def)
    with sleep_enter_same [of s' Chan_diskfree] a same_trans show ?thesis
      by (intro disjI2 exI [of _ I]) (fastforce simp: virtio_request_def)
  qed
qed

text \<open>The buffers of the completed requests in the used ring, and the interrupt's effect on them.\<close>

abbreviation used_heads :: "vdisk \<Rightarrow> nat list" where
  "used_heads d \<equiv> map unat (entries (us_ring d) (used_idx d) (us_idx d))"

definition undisk :: "(nat \<Rightarrow> bool) \<Rightarrow> (nat \<Rightarrow> buf) \<Rightarrow> nat \<Rightarrow> buf" where
  "undisk P f b = (if P b then (f b)\<lparr>b_disk := False\<rparr> else f b)"

lemma virtio_used_loop_eq:
  assumes "no_plocks s" "\<forall>i\<in>set (used_heads d). info_status d i = 0 \<and> info_b d i \<noteq> None"
  shows "\<exists>s'. virtio_used_loop d s = Inr (d\<lparr>used_idx := us_idx d\<rparr>, s') \<and>
    quiet (s\<lparr>bufs := undisk (\<lambda>b. \<exists>i\<in>set (used_heads d). info_b d i = Some b) (bufs s)\<rparr>) s'"
  using assms
proof (induction "length (used_heads d)" arbitrary: d s)
  case 0
  then have "us_idx d = used_idx d" by (simp add: unat_eq_0)
  moreover have "undisk (\<lambda>b. False) (bufs s) = bufs s" by (simp add: undisk_def fun_eq_iff)
  ultimately show ?case by (simp add: virtio_used_loop.simps)
next
  case (Suc n)
  then have ne: "used_idx d \<noteq> us_idx d" by auto
  let ?i = "unat (us_ring d (unat (used_idx d) mod NUM))" and ?d = "d\<lparr>used_idx := used_idx d + 1\<rparr>"
  have u: "used_heads d = ?i # used_heads ?d" using entries_pop [OF ne, of "us_ring d"] by simp
  then obtain b where b: "info_status d ?i = 0" "info_b d ?i = Some b" using Suc.prems(2) by auto
  let ?s = "set_buf b (\<lambda>x. x\<lparr>b_disk := False\<rparr>) s"
  have "no_plocks ?s" using Suc.prems(1) by (simp add: set_buf_def no_plocks_def)
  then obtain s1 where s1: "wakeup (Chan_diskbuf b) ?s = Inr s1" "quiet ?s s1" using wakeup_quiet by blast
  have "\<forall>i\<in>set (used_heads ?d). info_status ?d i = 0 \<and> info_b ?d i \<noteq> None" "n = length (used_heads ?d)"
    using Suc.prems(2) Suc.hyps(2) u by auto
  with Suc.hyps(1) [of ?d s1] \<open>no_plocks ?s\<close> quiet_plocks [OF s1(2)] obtain s2 where
    s2: "virtio_used_loop ?d s1 = Inr (?d\<lparr>used_idx := us_idx ?d\<rparr>, s2)"
      "quiet (s1\<lparr>bufs := undisk (\<lambda>b. \<exists>i\<in>set (used_heads ?d). info_b ?d i = Some b) (bufs s1)\<rparr>) s2" by blast
  have "virtio_used_loop d s = virtio_used_loop ?d s1"
    using ne b s1(1) by (simp add: virtio_used_loop.simps [of d] Let_def)
  moreover have "undisk (\<lambda>b. \<exists>i\<in>set (used_heads ?d). info_b ?d i = Some b) (bufs s1) =
      undisk (\<lambda>b. \<exists>i\<in>set (used_heads d). info_b d i = Some b) (bufs s)"
    using s1(2) b u by (auto simp: quiet_def same_def set_buf_def undisk_def fun_eq_iff)
  ultimately show ?case using s2 s1(2) by (auto simp: quiet_def same_def set_buf_def)
qed

lemma virtio_disk_intr_eq:
  assumes "held s = []" "\<forall>i\<in>set (used_heads d). info_status d i = 0 \<and> info_b d i \<noteq> None"
  shows "\<exists>s' d'. virtio_disk_intr rd d s = Inr (d', s') \<and> d' = d\<lparr>used_idx := us_idx d, vd_mmio := vd_mmio d'\<rparr> \<and>
    same (s\<lparr>bufs := undisk (\<lambda>b. \<exists>i\<in>set (used_heads d). info_b d i = Some b) (bufs s)\<rparr>) s'"
proof -
  let ?d = "mmio_write VIRTIO_MMIO_INTERRUPT_ACK (rd (vd_mmio d) VIRTIO_MMIO_INTERRUPT_STATUS AND 3) d"
  let ?s = "s\<lparr>held := [Lk_vdisk]\<rparr>"
  have "no_plocks ?s" by (simp add: no_plocks_def)
  with virtio_used_loop_eq [of ?s ?d] assms(2) obtain s1 where s1: "virtio_used_loop ?d ?s = Inr (?d\<lparr>used_idx := us_idx ?d\<rparr>, s1)"
    "quiet (?s\<lparr>bufs := undisk (\<lambda>b. \<exists>i\<in>set (used_heads ?d). info_b ?d i = Some b) (bufs ?s)\<rparr>) s1"
    by (auto simp: mmio_write_def)
  then have "virtio_disk_intr rd d s = Inr (?d\<lparr>used_idx := us_idx ?d\<rparr>, s1\<lparr>held := []\<rparr>)"
    using assms(1) by (simp add: virtio_disk_intr_def Let_def quiet_def release_def)
  then show ?thesis using s1(2) by (auto simp: quiet_def same_def mmio_write_def)
qed

end
