(* ===== verification/Virtio_Inv.thy ===== *)
theory Virtio_Inv
  imports Virtio_Safe "HOL-Library.Multiset"
begin

text \<open>
  The invariant of the disk driver and its device, and what follows from it: the driver never
  panics, no descriptor is lost, every request is carried out once and before \<^verbatim>\<open>virtio_disk_rw\<close>
  returns, and a request that runs alone does what theory \<open>Bio\<close> says of it.
\<close>

subsection \<open>The invariant\<close>

text \<open>The heads of the chains that the device has not served.\<close>

abbreviation avail_heads :: "vsys \<Rightarrow> nat list" where
  "avail_heads x \<equiv> map unat (entries (av_ring (vq x)) (dv_last (dv x)) (av_idx (vq x)))"

definition waiting :: "vsys \<Rightarrow> nat list" where
  "waiting x = avail_heads x @ dv_pend (dv x)"

definition in_rings :: "vsys \<Rightarrow> nat list" where
  "in_rings x = waiting x @ used_heads (vq x)"

text \<open>
  Every request under way has its own chain, and its buffer is marked as long as the request is in
  a ring or with the device; what is in the rings is the head of such a chain; a descriptor that is
  not in such a chain is free.
\<close>

definition vinv :: "vsys \<Rightarrow> bool" where
  "vinv x \<longleftrightarrow>
     (\<forall>b i wr sec. fl x b = Some (i, wr, sec) \<longrightarrow>
        ready (vq x) b wr sec i \<and> (b_disk (bufs (ks x) b) \<longleftrightarrow> i \<in> set (in_rings x))) \<and>
     (\<forall>b b' i r i' r'. fl x b = Some (i, r) \<longrightarrow> fl x b' = Some (i', r') \<longrightarrow> b \<noteq> b' \<longrightarrow>
        chain (vq x) i \<inter> chain (vq x) i' = {}) \<and>
     (\<forall>m<NUM. vq_free (vq x) m \<or> (\<exists>b i r. fl x b = Some (i, r) \<and> m \<in> chain (vq x) i)) \<and>
     distinct (in_rings x) \<and> (\<forall>i\<in>set (in_rings x). \<exists>b r. fl x b = Some (i, r)) \<and>
     (\<forall>i\<in>set (used_heads (vq x)). info_status (vq x) i = 0)"

lemma vinvI:
  assumes "\<And>b i wr sec. fl x b = Some (i, wr, sec) \<Longrightarrow> ready (vq x) b wr sec i \<and> (b_disk (bufs (ks x) b) \<longleftrightarrow> i \<in> set (in_rings x))"
    and "\<And>b b' i r i' r'. fl x b = Some (i, r) \<Longrightarrow> fl x b' = Some (i', r') \<Longrightarrow> b \<noteq> b' \<Longrightarrow> chain (vq x) i \<inter> chain (vq x) i' = {}"
    and "\<And>m. m < NUM \<Longrightarrow> \<not> vq_free (vq x) m \<Longrightarrow> \<exists>b i r. fl x b = Some (i, r) \<and> m \<in> chain (vq x) i"
    and "distinct (in_rings x)" and "\<And>i. i \<in> set (in_rings x) \<Longrightarrow> \<exists>b r. fl x b = Some (i, r)"
    and "\<And>i. i \<in> set (used_heads (vq x)) \<Longrightarrow> info_status (vq x) i = 0"
  shows "vinv x"
  unfolding vinv_def using assms by blast

lemma vinvD:
  assumes "vinv x"
  shows "fl x b = Some (i, wr, sec) \<Longrightarrow> ready (vq x) b wr sec i"
    "fl x b = Some (i, wr, sec) \<Longrightarrow> b_disk (bufs (ks x) b) \<longleftrightarrow> i \<in> set (in_rings x)"
    "fl x b = Some (i, r) \<Longrightarrow> fl x b' = Some (i', r') \<Longrightarrow> b \<noteq> b' \<Longrightarrow> chain (vq x) i \<inter> chain (vq x) i' = {}"
    "m < NUM \<Longrightarrow> \<not> vq_free (vq x) m \<Longrightarrow> \<exists>b i r. fl x b = Some (i, r) \<and> m \<in> chain (vq x) i"
    "distinct (in_rings x)" "i \<in> set (in_rings x) \<Longrightarrow> \<exists>b r. fl x b = Some (i, r)"
    "i \<in> set (used_heads (vq x)) \<Longrightarrow> info_status (vq x) i = 0"
  using assms unfolding vinv_def by blast+

lemma heads_differ:
  assumes "vinv x" "fl x b = Some (i, r)" "fl x b' = Some (i', r')" "b \<noteq> b'"
  shows "i \<noteq> i'"
proof -
  obtain wr sec wr' sec' where r: "r = (wr, sec)" "r' = (wr', sec')" by (cases r; cases r')
  have "i \<in> chain (vq x) i" "i' \<in> chain (vq x) i'"
    using ready_chain(1) vinvD(1) [OF assms(1)] assms(2,3) unfolding r by blast+
  then show ?thesis using vinvD(3) [OF assms] by blast
qed

lemma head_small: "vinv x \<Longrightarrow> fl x b = Some (i, r) \<Longrightarrow> i < NUM"
  by (cases r) (use vinvD(1) ready_chain(1,2) in blast)

lemma in_rings_small:
  assumes "vinv x"
  shows "set (in_rings x) \<subseteq> {..<NUM}"
  using vinvD(6) [OF assms] head_small [OF assms] by blast

lemma short_ring:
  assumes "distinct xs" "set xs \<subseteq> {..<NUM}" "i < NUM" "i \<notin> set xs"
  shows "length xs < NUM"
proof -
  have "set xs \<subset> {..<NUM}" using assms by auto
  then have "card (set xs) < card {..<NUM}" by (intro psubset_card_mono) simp_all
  then show ?thesis using distinct_card [OF assms(1)] by simp
qed

subsection \<open>The events of a buffer\<close>

fun subject :: "vevent \<Rightarrow> nat" where
  "subject (Submit b wr sec) = b"
| "subject (Transfer b wr sec) = b"
| "subject (Finish b) = b"

definition about :: "nat \<Rightarrow> vevent list \<Rightarrow> vevent list" where
  "about b = filter (\<lambda>e. subject e = b)"

lemma about_append [simp]: "about b (evs @ l) = about b evs @ about b l"
  by (simp add: about_def)

text \<open>Requests for a buffer that are over: each was submitted, carried out and finished, in this order.\<close>

definition served :: "nat \<Rightarrow> (bool \<times> u64) list \<Rightarrow> vevent list" where
  "served b rs = concat (map (\<lambda>(wr, sec). [Submit b wr sec, Transfer b wr sec, Finish b]) rs)"

lemma served_snoc: "served b (rs @ [(wr, sec)]) = served b rs @ [Submit b wr sec, Transfer b wr sec, Finish b]"
  by (simp add: served_def)

definition current :: "vsys \<Rightarrow> nat \<Rightarrow> vevent list" where
  "current x b =
     (case fl x b of
        None \<Rightarrow> []
      | Some (i, wr, sec) \<Rightarrow> Submit b wr sec # (if i \<in> set (waiting x) then [] else [Transfer b wr sec]))"

definition in_phase :: "vevent list \<Rightarrow> vsys \<Rightarrow> bool" where
  "in_phase evs x \<longleftrightarrow> (\<forall>b. \<exists>rs. about b evs = served b rs @ current x b)"

lemma in_phase_same:
  assumes "in_phase evs x" "fl y = fl x" "set (waiting y) = set (waiting x)"
  shows "in_phase evs y"
proof -
  have "current y = current x" unfolding current_def fun_eq_iff assms(2,3) by simp
  then show ?thesis using assms(1) by (simp add: in_phase_def)
qed

lemma in_phase_step:
  assumes p: "in_phase evs x" and o: "\<And>b'. b' \<noteq> b \<Longrightarrow> current y b' = current x b'" "\<And>e. e \<in> set l \<Longrightarrow> subject e = b"
    and b: "\<And>rs. \<exists>rs'. served b rs @ current x b @ l = served b rs' @ current y b"
  shows "in_phase (evs @ l) y"
  unfolding in_phase_def
proof
  fix c
  obtain rs where rs: "about c evs = served c rs @ current x c" using p unfolding in_phase_def by blast
  show "\<exists>rs. about c (evs @ l) = served c rs @ current y c"
  proof (cases "c = b")
    case True
    have "about b l = l" using o(2) by (simp add: about_def)
    then show ?thesis using rs b [of rs] True by simp
  next
    case False
    have "about c l = []" using o(2) False by (auto simp: about_def filter_empty_conv)
    then show ?thesis using rs o(1) [OF False] by auto
  qed
qed

subsection \<open>Every step keeps the invariant\<close>

lemma idle_inv: "idle x \<Longrightarrow> vinv x" "idle x \<Longrightarrow> in_phase [] x"
proof -
  assume x: "idle x"
  then have "in_rings x = []" "\<And>b. fl x b = None" by (simp_all add: idle_def in_rings_def waiting_def)
  then show "vinv x" using x by (intro vinvI) (simp_all add: idle_def in_rings_def)
  show "in_phase [] x" unfolding in_phase_def
  proof
    fix b
    have "about b [] = served b [] @ current x b" using x by (simp add: idle_def about_def served_def current_def)
    then show "\<exists>rs. about b [] = served b rs @ current x b" ..
  qed
qed

text \<open>A step that changes neither the chains nor the rings.\<close>

lemma keep_inv:
  assumes i: "vinv x" and f: "fl y = fl x"
    and d: "\<And>m. \<not> vq_free (vq x) m \<Longrightarrow> vq_desc (vq y) m = vq_desc (vq x) m" "vq_free (vq y) = vq_free (vq x)"
      "ops (vq y) = ops (vq x)" "info_b (vq y) = info_b (vq x)"
    and r: "distinct (in_rings y)" "set (in_rings y) \<subseteq> set (in_rings x)"
    and s: "\<And>b i r. fl x b = Some (i, r) \<Longrightarrow> b_disk (bufs (ks y) b) \<longleftrightarrow> i \<in> set (in_rings y)"
    and u: "\<And>i. i \<in> set (used_heads (vq y)) \<Longrightarrow> info_status (vq y) i = 0"
  shows "vinv y"
proof -
  have c: "ready (vq y) b wr sec i \<and> chain (vq y) i = chain (vq x) i" if "fl x b = Some (i, wr, sec)" for b i wr sec
  proof -
    have R: "ready (vq x) b wr sec i" using vinvD(1) [OF i that] .
    have "vq_desc (vq y) m = vq_desc (vq x) m \<and> \<not> vq_free (vq y) m" if "m \<in> chain (vq x) i" for m
      using ready_chain(4) [OF R that] d(1,2) by simp
    from ready_cong [OF R this] d(3,4) show ?thesis by simp
  qed
  then have c': "chain (vq y) i = chain (vq x) i" if "fl x b = Some (i, r)" for b i r
    using that by (cases r) blast
  show ?thesis
  proof (rule vinvI)
    show "ready (vq y) b wr sec i \<and> (b_disk (bufs (ks y) b) \<longleftrightarrow> i \<in> set (in_rings y))" if "fl y b = Some (i, wr, sec)" for b i wr sec
      using c s that f by auto
    show "chain (vq y) i \<inter> chain (vq y) i' = {}" if "fl y b = Some (i, r)" "fl y b' = Some (i', r')" "b \<noteq> b'" for b b' i r i' r'
      using c' vinvD(3) [OF i] that f by metis
    show "\<exists>b i r. fl y b = Some (i, r) \<and> m \<in> chain (vq y) i" if "m < NUM" "\<not> vq_free (vq y) m" for m
      using vinvD(4) [OF i that(1)] that(2) d(2) c' f by metis
    show "\<exists>b r. fl y b = Some (i, r)" if "i \<in> set (in_rings y)" for i
      using vinvD(6) [OF i] that r(2) f by auto
  qed (use r u in auto)
qed

lemma else_inv:
  assumes "vinv x" "\<And>b. b_disk (bufs s' b) = b_disk (bufs (ks x) b)"
  shows "vinv (x\<lparr>ks := s'\<rparr>)"
  by (rule keep_inv [OF assms(1)])
    (use assms vinvD [OF assms(1)] in \<open>auto simp: in_rings_def waiting_def\<close>)

lemma fetch_rings:
  assumes "fetch x y"
  shows "mset (waiting y) = mset (waiting x)" "vq y = vq x" "ks y = ks x" "fl y = fl x"
proof -
  have ne: "dv_last (dv x) \<noteq> av_idx (vq x)" using assms by (simp add: fetch_def)
  show "mset (waiting y) = mset (waiting x)" "vq y = vq x" "ks y = ks x" "fl y = fl x"
    using assms entries_pop [OF ne, of "av_ring (vq x)"] by (simp_all add: fetch_def waiting_def)
qed

lemma fetch_inv:
  assumes "fetch x y" "vinv x"
  shows "vinv y" "in_phase evs x \<Longrightarrow> in_phase evs y"
proof -
  note f = fetch_rings [OF assms(1)]
  have m: "mset (in_rings y) = mset (in_rings x)" using f by (simp add: in_rings_def)
  then have "set (in_rings y) = set (in_rings x)" "distinct (in_rings y)"
    using mset_eq_setD mset_eq_imp_distinct_iff vinvD(5) [OF assms(2)] by blast+
  then show "vinv y" using f(2-4) vinvD [OF assms(2)] by (intro keep_inv [OF assms(2)]) auto
  show "in_phase evs x \<Longrightarrow> in_phase evs y" using in_phase_same [of evs x y] f mset_eq_setD [OF f(1)] by blast
qed

lemma serve_rings:
  assumes s: "serve b wr sec x y" and v: "vinv x"
  obtains i where "fl x b = Some (i, wr, sec)" "i \<in> set (waiting x)" "fl y = fl x"
    "mset (in_rings y) = mset (in_rings x)" "set (waiting y) = set (waiting x) - {i}" "used_heads (vq y) = used_heads (vq x) @ [i]"
    "vq y = (vq x)\<lparr>info_status := (info_status (vq x))(i := 0), us_ring := us_ring (vq y), us_idx := us_idx (vq y)\<rparr>"
    "ks y = transfer wr sec b (ks x)"
proof -
  obtain i j where i: "i \<in> set (dv_pend (dv x))" "request_at (vq x) i = Some (wr, sec, b, j)"
    and y: "y = x\<lparr>ks := transfer wr sec b (ks x), dv := (dv x)\<lparr>dv_pend := remove1 i (dv_pend (dv x))\<rparr>,
           vq := (vq x)\<lparr>info_status := (info_status (vq x))(j := 0),
                        us_ring := (us_ring (vq x))(unat (us_idx (vq x)) mod NUM := of_nat i),
                        us_idx := us_idx (vq x) + 1\<rparr>\<rparr>"
    using s unfolding serve_def by blast
  have ir: "i \<in> set (in_rings x)" using i(1) by (simp add: in_rings_def waiting_def)
  obtain b0 wr0 sec0 where f: "fl x b0 = Some (i, wr0, sec0)" using vinvD(6) [OF v ir] by auto
  from ready_request [OF vinvD(1) [OF v f]] i(2) have e: "b0 = b" "wr0 = wr" "sec0 = sec" "j = i" by simp_all
  have i8: "i < NUM" using head_small [OF v f] .
  have dist: "distinct (waiting x)" "distinct (used_heads (vq x))" "i \<notin> set (used_heads (vq x))" "distinct (dv_pend (dv x))"
    "i \<notin> set (avail_heads x)"
    using vinvD(5) [OF v] i(1) unfolding in_rings_def waiting_def by auto
  have "length (used_heads (vq x)) < NUM"
    using short_ring [OF dist(2) _ i8 dist(3)] in_rings_small [OF v] unfolding in_rings_def by auto
  then have u: "used_heads (vq y) = used_heads (vq x) @ [i]"
    using i8 unfolding y by (simp add: entries_push unat_of_nat)
  have w: "waiting y = avail_heads x @ remove1 i (dv_pend (dv x))" unfolding y waiting_def by simp
  have "add_mset i (mset (waiting y)) = mset (waiting x)" using w i(1) by (simp add: waiting_def [of x])
  then have "mset (in_rings y) = mset (in_rings x)" unfolding in_rings_def u by simp
  moreover have "set (waiting y) = set (waiting x) - {i}"
    using w waiting_def [of x] dist(4,5) by (auto simp: set_remove1_eq)
  ultimately show ?thesis using f e i(1) u y by (intro that [of i]) (simp_all add: waiting_def)
qed

lemma transfer_disk [simp]: "b_disk (bufs (transfer wr sec b s) c) = b_disk (bufs s c)"
  by (simp add: transfer_def Let_def set_buf_def)

lemma serve_inv:
  assumes s: "serve b wr sec x y" and v: "vinv x"
  shows "vinv y" "in_phase evs x \<Longrightarrow> in_phase (evs @ [Transfer b wr sec]) y"
proof -
  obtain i where i: "fl x b = Some (i, wr, sec)" "i \<in> set (waiting x)" "fl y = fl x"
    "mset (in_rings y) = mset (in_rings x)" "set (waiting y) = set (waiting x) - {i}" "used_heads (vq y) = used_heads (vq x) @ [i]"
    "vq y = (vq x)\<lparr>info_status := (info_status (vq x))(i := 0), us_ring := us_ring (vq y), us_idx := us_idx (vq y)\<rparr>"
    "ks y = transfer wr sec b (ks x)"
    using serve_rings [OF s v] by blast
  have set: "set (in_rings y) = set (in_rings x)" and dist: "distinct (in_rings y)"
    using mset_eq_setD [OF i(4)] mset_eq_imp_distinct_iff [OF i(4)] vinvD(5) [OF v] by simp_all
  have vy: "vq_desc (vq y) = vq_desc (vq x)" "vq_free (vq y) = vq_free (vq x)" "ops (vq y) = ops (vq x)"
    "info_b (vq y) = info_b (vq x)" "info_status (vq y) = (info_status (vq x))(i := 0)"
    by (subst i(7), simp)+
  show "vinv y"
    by (rule keep_inv [OF v i(3)]) (use vy dist set vinvD(2,7) [OF v] i(6,8) in auto)
  assume p: "in_phase evs x"
  show "in_phase (evs @ [Transfer b wr sec]) y"
  proof (rule in_phase_step [OF p, of b])
    fix c assume "c \<noteq> b"
    then show "current y c = current x c"
      unfolding current_def i(3,5) using heads_differ [OF v i(1)] by (auto split: option.splits)
  next
    fix rs
    have "current x b @ [Transfer b wr sec] = current y b" unfolding current_def i(3,5) using i(1,2) by simp
    then show "\<exists>rs'. served b rs @ current x b @ [Transfer b wr sec] = served b rs' @ current y b" by auto
  qed simp
qed

lemma full_inv:
  assumes v: "vinv x" and I: "\<forall>m\<in>I. vq_free (vq x) m" and s: "same (ks x) s'"
  shows "vinv (x\<lparr>vq := freed I (vq x), ks := s'\<rparr>)" "in_phase evs x \<Longrightarrow> in_phase evs (x\<lparr>vq := freed I (vq x), ks := s'\<rparr>)"
proof -
  let ?y = "x\<lparr>vq := freed I (vq x), ks := s'\<rparr>"
  have r: "waiting ?y = waiting x" "in_rings ?y = in_rings x" "used_heads (vq ?y) = used_heads (vq x)"
    by (simp_all add: waiting_def in_rings_def freed_def)
  have "vq_free (freed I (vq x)) = vq_free (vq x)" using I by (auto simp: fun_eq_iff)
  then show "vinv ?y"
    by (intro keep_inv [OF v]) (use I r s vinvD(2,5,7) [OF v] in \<open>auto simp: freed_def same_def\<close>)
  show "in_phase evs x \<Longrightarrow> in_phase evs ?y" by (rule in_phase_same) (simp_all add: r)
qed

lemma intr_inv:
  assumes v: "vinv x" and h: "held (ks x) = []" and e: "virtio_disk_intr rd (vq x) (ks x) = Inr (d', s')"
  shows "vinv (x\<lparr>vq := d', ks := s'\<rparr>)" "in_phase evs x \<Longrightarrow> in_phase evs (x\<lparr>vq := d', ks := s'\<rparr>)"
proof -
  let ?y = "x\<lparr>vq := d', ks := s'\<rparr>"
  have used: "info_status (vq x) i = 0 \<and> info_b (vq x) i \<noteq> None \<and> (info_b (vq x) i = Some b \<longleftrightarrow> (\<exists>r. fl x b = Some (i, r)))"
    if "i \<in> set (used_heads (vq x))" for i b
  proof -
    have "i \<in> set (in_rings x)" using that by (simp add: in_rings_def)
    from vinvD(6) [OF v this] obtain c wr sec where c: "fl x c = Some (i, wr, sec)" by auto
    then show ?thesis
      using vinvD(7) [OF v that] ready_chain(5) [OF vinvD(1) [OF v c]] heads_differ [OF v c, of b i] by auto
  qed
  from virtio_disk_intr_eq [OF h, of "vq x" rd] used e obtain
    d': "d' = (vq x)\<lparr>used_idx := us_idx (vq x), vd_mmio := vd_mmio d'\<rparr>"
    and s': "same ((ks x)\<lparr>bufs := undisk (\<lambda>b. \<exists>i\<in>set (used_heads (vq x)). info_b (vq x) i = Some b) (bufs (ks x))\<rparr>) s'" by auto
  have f: "vq_desc d' = vq_desc (vq x)" "vq_free d' = vq_free (vq x)" "ops d' = ops (vq x)" "info_b d' = info_b (vq x)"
    "av_ring d' = av_ring (vq x)" "av_idx d' = av_idx (vq x)" "used_idx d' = us_idx d'"
    by (subst d', simp)+
  have r: "waiting ?y = waiting x" "in_rings ?y = waiting x" by (simp_all add: waiting_def in_rings_def f)
  show "vinv ?y"
  proof (rule keep_inv [OF v])
    fix b i r assume b: "fl x b = Some (i, r)"
    obtain wr sec where r': "r = (wr, sec)" by (cases r)
    have "b_disk (bufs s' b) \<longleftrightarrow> b_disk (bufs (ks x) b) \<and> \<not> (\<exists>i\<in>set (used_heads (vq x)). info_b (vq x) i = Some b)"
      using s' by (simp add: same_def undisk_def)
    also have "\<dots> \<longleftrightarrow> i \<in> set (in_rings x) \<and> i \<notin> set (used_heads (vq x))"
      using vinvD(2) [OF v, of b i wr sec] b used r' by auto
    also have "\<dots> \<longleftrightarrow> i \<in> set (waiting x)" using vinvD(5) [OF v] by (auto simp: in_rings_def)
    finally show "b_disk (bufs (ks ?y) b) \<longleftrightarrow> i \<in> set (in_rings ?y)" unfolding r by simp
  qed (use f r vinvD(5) [OF v] in \<open>auto simp: in_rings_def\<close>)
  show "in_phase evs x \<Longrightarrow> in_phase evs ?y" by (rule in_phase_same) (simp_all add: r)
qed

text \<open>A new request.\<close>

lemma submit_rings:
  assumes v: "vinv x" and n: "distinct [i, j, k]" "\<forall>m\<in>{i, j, k}. m < NUM \<and> vq_free (vq x) m"
    and y: "vq y = posted b wr bn i j k (vq x)" "dv y = dv x"
  shows "i \<notin> set (in_rings x)" "mset (waiting y) = add_mset i (mset (waiting x))" "used_heads (vq y) = used_heads (vq x)"
    "\<And>c l wr sec. fl x c = Some (l, wr, sec) \<Longrightarrow> chain (vq x) l \<inter> {i, j, k} = {} \<and> ready (vq y) c wr sec l \<and> chain (vq y) l = chain (vq x) l"
proof -
  note p = posted_fields [OF n(1), where b = b and wr = wr and bn = bn and d = "vq x", folded y(1)]
  show c: "chain (vq x) l \<inter> {i, j, k} = {} \<and> ready (vq y) c wr sec l \<and> chain (vq y) l = chain (vq x) l"
    if "fl x c = Some (l, wr, sec)" for c l wr sec
  proof -
    note r = vinvD(1) [OF v that]
    have o: "m \<notin> {i, j, k} \<and> \<not> vq_free (vq x) m" if "m \<in> chain (vq x) l" for m using ready_chain(4) [OF r that] n(2) by auto
    have l: "l \<noteq> i" using o [OF ready_chain(1) [OF r]] by auto
    have "vq_desc (vq y) m = vq_desc (vq x) m \<and> \<not> vq_free (vq y) m" if "m \<in> chain (vq x) l" for m
      using o [OF that] p(6,7) by blast
    from ready_cong [OF r this p(8) [OF l] p(9) [OF l]] show ?thesis using o by blast
  qed
  show i: "i \<notin> set (in_rings x)"
  proof
    assume "i \<in> set (in_rings x)"
    from vinvD(6) [OF v this] obtain c wr sec where f: "fl x c = Some (i, wr, sec)" by auto
    from c [OF f] ready_chain(1) [OF vinvD(1) [OF v f]] show False by auto
  qed
  have "distinct (avail_heads x)" "set (avail_heads x) \<subseteq> {..<NUM}" "i \<notin> set (avail_heads x)"
    using vinvD(5) [OF v] in_rings_small [OF v] i by (auto simp: in_rings_def waiting_def)
  from short_ring [OF this(1,2) _ this(3)] n(2) have "length (avail_heads x) < NUM" by simp
  then have "avail_heads y = avail_heads x @ [i]" using n(2) y(2) by (simp add: p(1,2) entries_push unat_of_nat)
  then show "mset (waiting y) = add_mset i (mset (waiting x))" using y(2) by (simp add: waiting_def)
  show "used_heads (vq y) = used_heads (vq x)" by (simp add: p(3-5))
qed

lemma submit_inv:
  assumes v: "vinv x" and b: "fl x b = None" and n: "distinct [i, j, k]" "\<forall>m\<in>{i, j, k}. m < NUM \<and> vq_free (vq x) m"
    and y: "vq y = posted b wr bn i j k (vq x)" "dv y = dv x" "fl y = (fl x)(b := Some (i, wr, sector bn))"
    and s: "\<And>c. b_disk (bufs (ks y) c) \<longleftrightarrow> c = b \<or> b_disk (bufs (ks x) c)"
  shows "vinv y" "in_phase evs x \<Longrightarrow> in_phase (evs @ [Submit b wr (sector bn)]) y"
proof -
  note r = submit_rings [OF v n y(1,2)]
  have rdy: "ready_at (vq y) b wr (sector bn) i j k" using posted_ready [OF n(1)] n(2) y(1) by auto
  note own = ready_at_chain(1) [OF rdy]
  have oth: "chain (vq x) l \<inter> {i, j, k} = {} \<and> chain (vq y) l = chain (vq x) l" if "fl x c = Some (l, r)" for c l r
    using that r(4) [of c l "fst r" "snd r"] by auto
  have m: "mset (in_rings y) = add_mset i (mset (in_rings x))" using r(2,3) by (simp add: in_rings_def)
  then have rs: "set (in_rings y) = insert i (set (in_rings x))" using mset_eq_setD [of "in_rings y" "i # in_rings x"] by simp
  have ws: "set (waiting y) = insert i (set (waiting x))" using r(2) mset_eq_setD [of "waiting y" "i # waiting x"] by simp
  have hd: "l \<noteq> i" if "fl x c = Some (l, r)" for c l r
    using oth [OF that] ready_chain(1) [OF vinvD(1) [OF v]] that by (cases r) blast
  show "vinv y"
  proof (rule vinvI)
    show "ready (vq y) c wr' sec l \<and> (b_disk (bufs (ks y) c) \<longleftrightarrow> l \<in> set (in_rings y))" if "fl y c = Some (l, wr', sec)" for c l wr' sec
      using that y(3) rdy r(4) [of c l] hd [of c l] vinvD(2) [OF v, of c l] s rs by (auto simp: ready_def split: if_splits)
    show "chain (vq y) l \<inter> chain (vq y) l' = {}" if "fl y c = Some (l, r)" "fl y c' = Some (l', r')" "c \<noteq> c'" for c c' l r l' r'
      using that y(3) oth [of c l] oth [of c' l'] vinvD(3) [OF v, of c l r c' l' r'] own by (auto split: if_splits)
    show "\<exists>c l r. fl y c = Some (l, r) \<and> m \<in> chain (vq y) l" if "m < NUM" "\<not> vq_free (vq y) m" for m
    proof (cases "m \<in> {i, j, k}")
      case True
      then have "fl y b = Some (i, wr, sector bn) \<and> m \<in> chain (vq y) i" using own y(3) by simp
      then show ?thesis by blast
    next
      case False
      then have "\<not> vq_free (vq x) m" using that(2) posted_fields(6) [OF n(1)] y(1) by auto
      from vinvD(4) [OF v that(1) this] obtain c l r where c: "fl x c = Some (l, r)" "m \<in> chain (vq x) l" by auto
      then have "fl y c = Some (l, r)" using b y(3) by auto
      then show ?thesis using oth [OF c(1)] c(2) by blast
    qed
    show "distinct (in_rings y)"
      using mset_eq_imp_distinct_iff [of "in_rings y" "i # in_rings x"] m r(1) vinvD(5) [OF v] by simp
    show "\<exists>c r. fl y c = Some (l, r)" if "l \<in> set (in_rings y)" for l
    proof (cases "l = i")
      case True
      then have "fl y b = Some (l, wr, sector bn)" using y(3) by simp
      then show ?thesis by blast
    next
      case False
      then have "l \<in> set (in_rings x)" using that rs by simp
      from vinvD(6) [OF v this] obtain c r where c: "fl x c = Some (l, r)" by blast
      then have "fl y c = Some (l, r)" using b y(3) by (cases "c = b") simp_all
      then show ?thesis by blast
    qed
    show "info_status (vq y) l = 0" if "l \<in> set (used_heads (vq y))" for l
    proof -
      have l: "l \<in> set (used_heads (vq x))" using that unfolding r(3) .
      then have "l \<noteq> i" using r(1) unfolding in_rings_def by auto
      then show ?thesis using vinvD(7) [OF v l] posted_fields(10) [OF n(1)] y(1) by simp
    qed
  qed
  assume p: "in_phase evs x"
  show "in_phase (evs @ [Submit b wr (sector bn)]) y"
  proof (rule in_phase_step [OF p, of b])
    show "current y c = current x c" if "c \<noteq> b" for c
      unfolding current_def ws using that y(3) hd by (auto split: option.splits)
    fix rs
    have "current x b @ [Submit b wr (sector bn)] = current y b" unfolding current_def ws using b y(3) by simp
    then show "\<exists>rs'. served b rs @ current x b @ [Submit b wr (sector bn)] = served b rs' @ current y b" by auto
  qed simp
qed

text \<open>The end of a request.\<close>

lemma finish_inv:
  assumes v: "vinv x" and b: "fl x b = Some (i, wr, sec)" "\<not> b_disk (bufs (ks x) b)"
    and y: "vq y = freed (chain (vq x) i) ((vq x)\<lparr>info_b := (info_b (vq x))(i := None)\<rparr>)" "dv y = dv x"
      "fl y = (fl x)(b := None)" "bufs (ks y) = bufs (ks x)"
  shows "vinv y" "in_phase evs x \<Longrightarrow> in_phase (evs @ [Finish b]) y"
proof -
  have i: "i \<notin> set (in_rings x)" using vinvD(2) [OF v b(1)] b(2) by simp
  have r: "in_rings y = in_rings x" "waiting y = waiting x" "used_heads (vq y) = used_heads (vq x)"
    by (simp_all add: in_rings_def waiting_def y freed_def)
  have oth: "ready (vq y) c wr' sec' l \<and> chain (vq y) l = chain (vq x) l" if "fl x c = Some (l, wr', sec')" "c \<noteq> b" for c l wr' sec'
  proof -
    note R = vinvD(1) [OF v that(1)]
    have "vq_desc (vq y) m = vq_desc (vq x) m \<and> \<not> vq_free (vq y) m" if "m \<in> chain (vq x) l" for m
      using vinvD(3) [OF v \<open>fl x c = _\<close> b(1) \<open>c \<noteq> b\<close>] ready_chain(4) [OF R that] that unfolding y by (auto simp: freed_def)
    then show ?thesis
      using ready_cong [OF R, of "vq y"] heads_differ [OF v that(1) b(1) that(2)] unfolding y by (simp add: freed_def)
  qed
  have oc: "chain (vq y) l = chain (vq x) l" if "fl x c = Some (l, r)" "c \<noteq> b" for c l r
    using that oth [of c l "fst r" "snd r"] by simp
  have keep: "fl x c = Some z \<and> c \<noteq> b" if "fl y c = Some z" for c z using that y(3) by (auto split: if_splits)
  show "vinv y"
  proof (rule vinvI)
    show "ready (vq y) c wr' sec' l \<and> (b_disk (bufs (ks y) c) \<longleftrightarrow> l \<in> set (in_rings y))" if "fl y c = Some (l, wr', sec')" for c l wr' sec'
      using keep [OF that] oth [of c l wr' sec'] vinvD(2) [OF v, of c l wr' sec'] y(4) r by simp
    show "chain (vq y) l \<inter> chain (vq y) l' = {}" if "fl y c = Some (l, q)" "fl y c' = Some (l', q')" "c \<noteq> c'" for c c' l q l' q'
      using keep [OF that(1)] keep [OF that(2)] oc [of c l q] oc [of c' l' q'] vinvD(3) [OF v, of c l q c' l' q'] that(3) by simp
    show "\<exists>c l q. fl y c = Some (l, q) \<and> m \<in> chain (vq y) l" if m: "m < NUM" "\<not> vq_free (vq y) m" for m
    proof -
      have n: "m \<notin> chain (vq x) i" "\<not> vq_free (vq x) m" using m(2) unfolding y by (simp_all add: freed_def)
      from vinvD(4) [OF v m(1) n(2)] obtain c l q where c: "fl x c = Some (l, q)" "m \<in> chain (vq x) l" by auto
      then have "c \<noteq> b" using b(1) n(1) by auto
      then have "fl y c = Some (l, q) \<and> m \<in> chain (vq y) l" using c oc y(3) by simp
      then show ?thesis by blast
    qed
    show "\<exists>c q. fl y c = Some (l, q)" if "l \<in> set (in_rings y)" for l
    proof -
      have l: "l \<in> set (in_rings x)" using that r by simp
      from vinvD(6) [OF v l] obtain c q where c: "fl x c = Some (l, q)" by auto
      then have "c \<noteq> b" using b(1) i l by auto
      then have "fl y c = Some (l, q)" using c y(3) by simp
      then show ?thesis by blast
    qed
    show "info_status (vq y) l = 0" if "l \<in> set (used_heads (vq y))" for l
      using that vinvD(7) [OF v] r(3) unfolding y by (simp add: freed_def)
  qed (use r vinvD(5) [OF v] in simp)
  assume p: "in_phase evs x"
  show "in_phase (evs @ [Finish b]) y"
  proof (rule in_phase_step [OF p, of b])
    show "current y c = current x c" if "c \<noteq> b" for c unfolding current_def y(3) r using that by simp
    fix rs
    have "i \<notin> set (waiting x)" using i by (simp add: in_rings_def)
    then have "current x b @ [Finish b] = [Submit b wr sec, Transfer b wr sec, Finish b]" "current y b = []"
      using b(1) y(3) by (simp_all add: current_def)
    then have "served b rs @ current x b @ [Finish b] = served b (rs @ [(wr, sec)]) @ current y b" by (simp add: served_snoc)
    then show "\<exists>rs'. served b rs @ current x b @ [Finish b] = served b rs' @ current y b" ..
  qed simp
qed

lemma resume_cases:
  assumes v: "vinv x" and b: "fl x b = Some (i, wr, sec)" and h: "held (ks x) = [Lk_proc (cur (ks x))]"
  shows "b_disk (bufs (ks x) b) \<and> (\<exists>s'. virtio_resume b i (vq x) (ks x) = Inr (Wait_disk i, vq x, s') \<and> same (ks x) s') \<or>
    \<not> b_disk (bufs (ks x) b) \<and> (\<exists>s'. virtio_resume b i (vq x) (ks x) =
       Inr (Returned, freed (chain (vq x) i) ((vq x)\<lparr>info_b := (info_b (vq x))(i := None)\<rparr>), s') \<and> same (ks x) s')"
proof -
  from sleep_exit_same [OF h] obtain s where s: "sleep_exit Lk_vdisk (ks x) = Inr s" "same (ks x) s" "held s = [Lk_vdisk]" by blast
  have bd: "b_disk (bufs s b) = b_disk (bufs (ks x) b)" using s(2) by (simp add: same_def)
  show ?thesis
  proof (cases "b_disk (bufs (ks x) b)")
    case True
    with virtio_wait_sleep [OF s(3), of b i "vq x"] bd s(1,2) same_trans show ?thesis by (auto simp: virtio_resume_def)
  next
    case False
    with virtio_wait_done [OF vinvD(1) [OF v b] s(3)] bd s(1,2) same_trans show ?thesis by (auto simp: virtio_resume_def)
  qed
qed

lemma request_inv:
  assumes v: "vinv x" and b: "fl x b = None" and r: "requests b wr x (Inr (Wait_disk i, d', s'))"
  shows "vinv (x\<lparr>vq := d', ks := s', fl := (fl x)(b := Some (i, wr, sector (b_blockno (bufs (ks x) b))))\<rparr>)"
    "in_phase evs x \<Longrightarrow> in_phase (evs @ [Submit b wr (sector (b_blockno (bufs (ks x) b)))])
       (x\<lparr>vq := d', ks := s', fl := (fl x)(b := Some (i, wr, sector (b_blockno (bufs (ks x) b))))\<rparr>)"
proof -
  let ?bn = "b_blockno (bufs (ks x) b)"
  obtain s where s: "held s = [Lk_vdisk]" "same (ks x) s" "Inr (Wait_disk i, d', s') = virtio_request b wr (vq x) s"
    using requests_cases [OF r] by blast
  with virtio_request_eq [OF s(1), of "vq x" b wr] obtain j k where n: "distinct [i, j, k]" "\<forall>m\<in>{i, j, k}. m < NUM \<and> vq_free (vq x) m"
    and d': "d' = posted b wr ?bn i j k (vq x)" and s': "same (set_buf b (\<lambda>x. x\<lparr>b_disk := True\<rparr>) s) s'"
    by (auto simp: same_def)
  note inv = submit_inv [OF v b n, of "x\<lparr>vq := d', ks := s', fl := (fl x)(b := Some (i, wr, sector ?bn))\<rparr>" wr ?bn]
  have "b_disk (bufs s' c) \<longleftrightarrow> c = b \<or> b_disk (bufs (ks x) c)" for c using s' s(2) by (simp add: same_def set_buf_def)
  then show "vinv (x\<lparr>vq := d', ks := s', fl := (fl x)(b := Some (i, wr, sector ?bn))\<rparr>)"
    "in_phase evs x \<Longrightarrow> in_phase (evs @ [Submit b wr (sector ?bn)]) (x\<lparr>vq := d', ks := s', fl := (fl x)(b := Some (i, wr, sector ?bn))\<rparr>)"
    using inv d' by simp_all
qed

lemma vrun_inv:
  assumes dev: "virtio_blk dev" and run: "vrun dev evs x"
  shows "vinv x \<and> in_phase evs x"
  using run
proof induction
  case (v_idle x)
  then show ?case using idle_inv by blast
next
  case (v_else evs x s')
  then have "vinv (x\<lparr>ks := s'\<rparr>)" by (intro else_inv) (simp_all add: elsewhere_def)
  moreover have "in_phase evs (x\<lparr>ks := s'\<rparr>)" by (rule in_phase_same [of evs x]) (use v_else in \<open>simp_all add: waiting_def\<close>)
  ultimately show ?case ..
next
  case (v_device evs x l y)
  with dev consider "l = []" "fetch x y" | b wr sec where "l = [Transfer b wr sec]" "serve b wr sec x y"
    unfolding virtio_blk_def by blast
  then show ?case
  proof cases
    case 1
    then show ?thesis using fetch_inv [OF 1(2)] v_device by simp
  next
    case 2
    then show ?thesis using serve_inv [OF 2(2)] v_device by simp
  qed
next
  case (v_submit evs x b wr i d' s' sec)
  then show ?case using request_inv [OF _ v_submit.hyps(2,3)] by simp
next
  case (v_full evs x b wr d' s')
  obtain s where s: "held s = [Lk_vdisk]" "same (ks x) s" "Inr (Wait_desc, d', s') = virtio_request b wr (vq x) s"
    using requests_cases [OF v_full.hyps(3)] by blast
  with virtio_request_eq [OF s(1), of "vq x" b wr] obtain I where "\<forall>m\<in>I. vq_free (vq x) m" "d' = freed I (vq x)" "same (ks x) s'"
    using same_trans by auto
  then show ?case using full_inv [of x I s'] v_full.IH by simp
next
  case (v_again evs x b i wr sec j d' s')
  then have vx: "vinv x" and p: "in_phase evs x" by simp_all
  from resume_cases [OF vx v_again.hyps(2,3)] v_again.hyps(4) have e: "d' = vq x" "same (ks x) s'" by auto
  have "vinv (x\<lparr>vq := d', ks := s'\<rparr>)" using else_inv [OF vx, of s'] e by (simp add: same_def)
  moreover have "in_phase evs (x\<lparr>vq := d', ks := s'\<rparr>)" by (rule in_phase_same [OF p]) (simp_all add: e(1) waiting_def)
  ultimately show ?case ..
next
  case (v_finish evs x b i wr sec d' s')
  then have vx: "vinv x" and p: "in_phase evs x" by simp_all
  from resume_cases [OF vx v_finish.hyps(2,3)] v_finish.hyps(4)
  have e: "\<not> b_disk (bufs (ks x) b)" "d' = freed (chain (vq x) i) ((vq x)\<lparr>info_b := (info_b (vq x))(i := None)\<rparr>)" "same (ks x) s'" by auto
  from finish_inv [OF vx v_finish.hyps(2) e(1), where y = "x\<lparr>vq := d', ks := s', fl := (fl x)(b := None)\<rparr>"] e p show ?case by (simp add: same_def)
next
  case (v_intr evs x rd d' s')
  then show ?case using intr_inv [OF _ v_intr.hyps(2,3)] by simp
qed

end
