(* ===== verification/Virtio_Props.thy ===== *)
theory Virtio_Props
  imports Virtio_Inv
begin

text \<open>
  The properties of the disk driver. They hold for every device that keeps to the standard, and
  however threads, interrupts and the device interleave.
\<close>

subsection \<open>A request that runs alone\<close>

lemma sector_block: "bn < 2 ^ 31 \<Longrightarrow> ucast (sector bn div 2) = bn"
proof -
  assume "bn < 2 ^ 31"
  then have "unat bn < 2 ^ 31" by (simp add: word_less_nat_alt)
  then have "unat (sector bn div 2) = unat bn"
    by (simp add: sector_def unat_div unsigned_ucast_eq take_bit_nat_eq_self unat_word_ariths)
  then show ?thesis using \<open>unat bn < 2 ^ 31\<close> by (simp add: word_unat_eq_iff unsigned_ucast_eq take_bit_nat_eq_self)
qed

text \<open>
  The steps of one request with nothing else under way: the thread submits and sleeps, the device
  takes and serves it, the interrupt wakes the thread, which resumes as process \<open>p\<close>.
\<close>

definition alone :: "mmio \<Rightarrow> nat \<Rightarrow> nat \<Rightarrow> bool \<Rightarrow> vsys \<Rightarrow> vrw \<Rightarrow> vdisk \<Rightarrow> kstate \<Rightarrow> bool" where
  "alone rd p b wr x r d s \<longleftrightarrow> (\<exists>i d1 s1 x2 c w sec x3 d4 s4.
     virtio_start b wr (vq x) (ks x) = Inr (Wait_disk i, d1, s1) \<and>
     fetch (x\<lparr>vq := d1, ks := s1, fl := (fl x)(b := Some (i, wr, sector (b_blockno (bufs (ks x) b))))\<rparr>) x2 \<and>
     serve c w sec x2 x3 \<and>
     virtio_disk_intr rd (vq x3) ((ks x3)\<lparr>held := []\<rparr>) = Inr (d4, s4) \<and>
     virtio_resume b i d4 (s4\<lparr>held := [Lk_proc p], cur := p\<rparr>) = Inr (r, d, s))"

lemma virtio_disk_rw_effect:
  assumes "held s = []" "b_blockno (bufs s b) < 2 ^ 31"
  shows "\<exists>s'. virtio_disk_rw b wr s = Inr s' \<and>
    same ((transfer wr (sector (b_blockno (bufs s b))) b s)
            \<lparr>bufs := undisk ((=) b) (bufs (transfer wr (sector (b_blockno (bufs s b))) b s))\<rparr>) s'"
  using assms(1) sector_block [OF assms(2)]
  by (auto simp: virtio_disk_rw_def transfer_def same_def undisk_def set_buf_def Let_def release_def fun_eq_iff)

lemma alone_effect:
  assumes x: "idle x" "held (ks x) = []" and a: "alone rd p b wr x r d s"
  shows "r = Returned \<and> same ((transfer wr (sector (b_blockno (bufs (ks x) b))) b (ks x))
      \<lparr>bufs := undisk ((=) b) (bufs (transfer wr (sector (b_blockno (bufs (ks x) b))) b (ks x)))\<rparr>) s \<and>
    (\<forall>m<NUM. vq_free d m)"
proof -
  let ?sec = "sector (b_blockno (bufs (ks x) b))"
  obtain i d1 s1 x2 c w sec x3 d4 s4 where st: "virtio_start b wr (vq x) (ks x) = Inr (Wait_disk i, d1, s1)"
    and f: "fetch (x\<lparr>vq := d1, ks := s1, fl := (fl x)(b := Some (i, wr, ?sec))\<rparr>) x2"
    and sv: "serve c w sec x2 x3" and it: "virtio_disk_intr rd (vq x3) ((ks x3)\<lparr>held := []\<rparr>) = Inr (d4, s4)"
    and re: "virtio_resume b i d4 (s4\<lparr>held := [Lk_proc p], cur := p\<rparr>) = Inr (r, d, s)"
    using a unfolding alone_def by blast
  let ?x1 = "x\<lparr>vq := d1, ks := s1, fl := (fl x)(b := Some (i, wr, ?sec))\<rparr>"
  have fl: "fl x = (\<lambda>_. None)" using x(1) by (simp add: idle_def)
  have rq: "requests b wr x (Inr (Wait_disk i, d1, s1))" using x(2) st by (simp add: requests_def)
  have v1: "vinv ?x1" using request_inv(1) [OF idle_inv(1) [OF x(1)] _ rq] fl by simp
  have s1: "same (set_buf b (\<lambda>y. y\<lparr>b_disk := True\<rparr>) (ks x)) s1"
    using st x(2) virtio_request_eq [of "(ks x)\<lparr>held := [Lk_vdisk]\<rparr>" "vq x" b wr] by (auto simp: virtio_start_def same_def set_buf_def)
  note f2 = fetch_rings [OF f]
  have v2: "vinv x2" using fetch_inv(1) [OF f v1] .
  obtain j where j: "fl x2 c = Some (j, w, sec)" "j \<in> set (waiting x2)" "fl x3 = fl x2" "used_heads (vq x3) = used_heads (vq x2) @ [j]"
    "ks x3 = transfer w sec c (ks x2)" using serve_rings [OF sv v2] by metis
  have e: "c = b" "j = i" "w = wr" "sec = ?sec" using j(1) f2(4) fl by (auto split: if_splits)
  have v3: "vinv x3" using serve_inv(1) [OF sv v2] .
  let ?x3 = "x3\<lparr>ks := (ks x3)\<lparr>held := []\<rparr>\<rparr>"
  have v3': "vinv ?x3" by (rule else_inv [OF v3]) simp
  have v4: "vinv (?x3\<lparr>vq := d4, ks := s4\<rparr>)" by (rule intr_inv(1) [OF v3', of rd]) (simp_all add: it)
  have one: "l = i" if "l \<in> set (in_rings x3)" for l using vinvD(6) [OF v3 that] j(3) f2(4) fl by (auto split: if_splits)
  have ui: "set (used_heads (vq x3)) = {i}" using one j(4) e(2) by (auto simp: in_rings_def)
  have fl3: "fl x3 b = Some (i, wr, ?sec)" using j(1,3) e by simp
  have ib: "info_b (vq x3) i = Some b" using ready_chain(5) [OF vinvD(1) [OF v3 fl3]] .
  have "info_status (vq x3) i = 0" using vinvD(7) [OF v3] ui by auto
  moreover have "(\<lambda>b'. b = b') = (=) b" by auto
  ultimately have s4: "same ((ks x3)\<lparr>bufs := undisk ((=) b) (bufs (ks x3))\<rparr>) s4"
    using virtio_disk_intr_eq [of "(ks x3)\<lparr>held := []\<rparr>" "vq x3" rd, unfolded ui] it ib by (auto simp: same_def)
  let ?x4 = "?x3\<lparr>vq := d4, ks := s4\<lparr>held := [Lk_proc p], cur := p\<rparr>\<rparr>"
  have v4': "vinv ?x4" using else_inv [OF v4, of "s4\<lparr>held := [Lk_proc p], cur := p\<rparr>"] by simp
  have nd: "\<not> b_disk (bufs (ks ?x4) b)" using s4 by (simp add: same_def undisk_def)
  from resume_cases [OF v4', of b i wr ?sec] fl3 nd re have r: "r = Returned" "same s4 s"
    "d = freed (chain d4 i) (d4\<lparr>info_b := (info_b d4)(i := None)\<rparr>)" by (auto simp: same_def)
  have "vinv (?x4\<lparr>vq := d, ks := s, fl := (fl x3)(b := None)\<rparr>)"
    by (rule finish_inv(1) [OF v4' _ nd]) (use fl3 r in \<open>simp_all add: same_def\<close>)
  moreover have "(fl x3)(b := None) = (\<lambda>_. None)" using j(3) f2(4) fl by (simp add: fun_eq_iff)
  ultimately have "\<forall>m<NUM. vq_free d m" using vinvD(4) by fastforce
  moreover have "bufs (ks x3) = bufs (transfer wr ?sec b (set_buf b (\<lambda>y. y\<lparr>b_disk := True\<rparr>) (ks x)))"
    "disk (ks x3) = disk (transfer wr ?sec b (ks x))" "dwrites (ks x3) = dwrites (transfer wr ?sec b (ks x))"
    using s1 j(5) e f2(3) by (simp_all add: same_def transfer_def set_buf_def Let_def)
  moreover have "undisk ((=) b) (bufs (transfer wr ?sec b (set_buf b (\<lambda>y. y\<lparr>b_disk := True\<rparr>) (ks x)))) =
      undisk ((=) b) (bufs (transfer wr ?sec b (ks x)))"
    by (auto simp: undisk_def transfer_def set_buf_def Let_def fun_eq_iff)
  ultimately show ?thesis using r(1,2) s4 by (simp add: same_def)
qed

subsection \<open>Accounting\<close>

abbreviation (input) head_of :: "vsys \<Rightarrow> nat \<Rightarrow> nat" where
  "head_of x b \<equiv> fst (the (fl x b))"

lemma dom_fl: "b \<in> dom (fl x) \<Longrightarrow> \<exists>wr sec. fl x b = Some (head_of x b, wr, sec)"
  by auto

lemma chains_cover:
  assumes "vinv x"
  shows "{m. m < NUM \<and> \<not> vq_free (vq x) m} = (\<Union>b\<in>dom (fl x). chain (vq x) (head_of x b))"
proof (intro equalityI subsetI)
  fix m assume "m \<in> {m. m < NUM \<and> \<not> vq_free (vq x) m}"
  then obtain b i r where "fl x b = Some (i, r)" "m \<in> chain (vq x) i" using vinvD(4) [OF assms, of m] by blast
  then have "b \<in> dom (fl x)" "m \<in> chain (vq x) (head_of x b)" by auto
  then show "m \<in> (\<Union>b\<in>dom (fl x). chain (vq x) (head_of x b))" by blast
next
  fix m assume "m \<in> (\<Union>b\<in>dom (fl x). chain (vq x) (head_of x b))"
  then obtain b wr sec where b: "fl x b = Some (head_of x b, wr, sec)" "m \<in> chain (vq x) (head_of x b)" using dom_fl by blast
  note r = vinvD(1) [OF assms b(1)]
  show "m \<in> {m. m < NUM \<and> \<not> vq_free (vq x) m}" using ready_chain(2) [OF r] ready_chain(4) [OF r b(2)] b(2) by auto
qed

lemma requests_finite: "vinv x \<Longrightarrow> finite (dom (fl x))"
proof -
  assume v: "vinv x"
  have inj: "inj_on (head_of x) (dom (fl x))"
  proof (rule inj_onI, rule ccontr)
    fix b b' assume "b \<in> dom (fl x)" "b' \<in> dom (fl x)" "head_of x b = head_of x b'" "b \<noteq> b'"
    then show False using heads_differ [OF v] dom_fl [of b x] dom_fl [of b' x] by metis
  qed
  have "head_of x b < NUM" if "b \<in> dom (fl x)" for b using head_small [OF v] dom_fl [OF that] by metis
  then have "head_of x ` dom (fl x) \<subseteq> {..<NUM}" by blast
  then have "finite (head_of x ` dom (fl x))" by (rule finite_subset) simp
  then show ?thesis using inj by (rule finite_imageD)
qed

lemma busy_three: "vinv x \<Longrightarrow> busy (vq x) = 3 * card (dom (fl x))"
proof -
  assume v: "vinv x"
  have c: "finite (chain (vq x) (head_of x b)) \<and> card (chain (vq x) (head_of x b)) = 3" if "b \<in> dom (fl x)" for b
  proof -
    from dom_fl [OF that] obtain wr sec where "fl x b = Some (head_of x b, wr, sec)" by blast
    from vinvD(1) [OF v this] have r: "ready (vq x) b wr sec (head_of x b)" .
    show ?thesis using ready_chain(2,3) [OF r] finite_subset [OF _ finite_lessThan] by blast
  qed
  have d: "chain (vq x) (head_of x b) \<inter> chain (vq x) (head_of x b') = {}"
    if "b \<in> dom (fl x)" "b' \<in> dom (fl x)" "b \<noteq> b'" for b b'
    using vinvD(3) [OF v _ _ that(3)] dom_fl [OF that(1)] dom_fl [OF that(2)] by metis
  have "busy (vq x) = (\<Sum>b\<in>dom (fl x). card (chain (vq x) (head_of x b)))"
    unfolding busy_def chains_cover [OF v] using c d requests_finite [OF v] by (intro card_UN_disjoint) simp_all
  then show ?thesis using c by simp
qed

lemma used_known:
  assumes v: "vinv x" and i: "i \<in> set (used_heads (vq x))"
  shows "info_status (vq x) i = 0 \<and> info_b (vq x) i \<noteq> None"
proof -
  have "i \<in> set (in_rings x)" using i by (simp add: in_rings_def)
  from vinvD(6) [OF v this] obtain c wr sec where c: "fl x c = Some (i, wr, sec)" by auto
  show ?thesis using vinvD(7) [OF v i] ready_chain(5) [OF vinvD(1) [OF v c]] by simp
qed

subsection \<open>An example\<close>

text \<open>The driver after \<^verbatim>\<open>virtio_disk_init\<close>, and a device that does all that the standard allows.\<close>

definition vsys0 :: vsys where
  "vsys0 = \<lparr>vq = vdisk0\<lparr>vq_free := (\<lambda>i. i < NUM)\<rparr>, ks = kstate0 0x80020000 (\<lambda>_ _. 0),
     dv = \<lparr>dv_last = 0, dv_pend = []\<rparr>, fl = (\<lambda>_. None)\<rparr>"

definition any_device :: "vevent list \<Rightarrow> vsys \<Rightarrow> vsys \<Rightarrow> bool" where
  "any_device l x y \<longleftrightarrow> l = [] \<and> fetch x y \<or> (\<exists>b wr sec. l = [Transfer b wr sec] \<and> serve b wr sec x y)"

lemma any_device_blk: "virtio_blk any_device"
  by (simp add: virtio_blk_def any_device_def)

lemma vsys0_idle: "idle vsys0" "held (ks vsys0) = []" "dom (fl vsys0) = {}"
  by (simp_all add: idle_def vsys0_def vdisk0_def)

lemma alloc_desc_first:
  assumes "i < NUM" "vq_free d i" "\<And>j. j < i \<Longrightarrow> \<not> vq_free d j"
  shows "alloc_desc d = (Some i, taken {i} d)"
proof -
  have "scan (vq_free d) 0 NUM = Some i" using assms by (simp add: scan_Some_iff)
  moreover have "(\<lambda>k. k \<noteq> i \<and> vq_free d k) = (vq_free d)(i := False)" by (simp add: fun_eq_iff)
  ultimately show ?thesis by (simp add: alloc_desc_def taken_def)
qed

lemma vsys0_start: "\<exists>d s. virtio_start b wr (vq vsys0) (ks vsys0) = Inr (Wait_disk 0, d, s)"
proof -
  let ?s = "(ks vsys0)\<lparr>held := [Lk_vdisk]\<rparr>" and ?d = "vq vsys0"
  let ?d1 = "taken {0} ?d" and ?d2 = "taken {1} (taken {0} ?d)" and ?d3 = "taken {2} (taken {1} (taken {0} ?d))"
  have f: "vq_free ?d k \<longleftrightarrow> k < NUM" for k by (simp add: vsys0_def)
  have "alloc_desc ?d = (Some 0, ?d1)" by (rule alloc_desc_first) (simp_all add: f)
  moreover have "alloc_desc ?d1 = (Some 1, ?d2)" by (rule alloc_desc_first) (simp_all add: f)
  moreover have "alloc_desc ?d2 = (Some 2, ?d3)" by (rule alloc_desc_first) (auto simp: f less_2_cases_iff)
  ultimately have d: "alloc3_desc ?d ?s = Inr (Some [0, 1, 2], ?d3, ?s)"
    by (simp add: alloc3_desc_def numeral_3_eq_3)
  let ?s1 = "set_buf b (\<lambda>y. y\<lparr>b_disk := True\<rparr>) ?s"
  have "held ?s1 = [Lk_vdisk]" "b_disk (bufs ?s1 b)" by (simp_all add: set_buf_def)
  from virtio_wait_sleep [OF this, of 0 "post b 0 (format_descs b wr [0, 1, 2] (b_blockno (bufs ?s b)) ?d3)"] show ?thesis
    using d vsys0_idle(2) by (auto simp: virtio_start_def virtio_request_def Let_def)
qed

lemma vsys0_sector: "sector (b_blockno (bufs (ks vsys0) 0)) = 0"
  by (simp add: vsys0_def sector_def buf0_def)

text \<open>A run in which a request for buffer 0 is submitted, taken and served.\<close>

lemma vsys0_steps:
  obtains d s x2 x3 where "virtio_start 0 True (vq vsys0) (ks vsys0) = Inr (Wait_disk 0, d, s)"
    "vrun any_device [Submit 0 True 0] (vsys0\<lparr>vq := d, ks := s, fl := (fl vsys0)(0 := Some (0, True, 0))\<rparr>)"
    "fetch (vsys0\<lparr>vq := d, ks := s, fl := (fl vsys0)(0 := Some (0, True, 0))\<rparr>) x2" "serve 0 True 0 x2 x3"
    "vrun any_device [Submit 0 True 0, Transfer 0 True 0] x3" "fl x3 0 = Some (0, True, 0)"
proof -
  from vsys0_start obtain d s where st: "virtio_start 0 True (vq vsys0) (ks vsys0) = Inr (Wait_disk 0, d, s)" by blast
  let ?x1 = "vsys0\<lparr>vq := d, ks := s, fl := (fl vsys0)(0 := Some (0, True, 0))\<rparr>"
  have "requests 0 True vsys0 (Inr (Wait_disk 0, d, s))" using st vsys0_idle(2) by (simp add: requests_def)
  from v_submit [OF v_idle [OF vsys0_idle(1)] _ this vsys0_sector [symmetric]] have run1: "vrun any_device [Submit 0 True 0] ?x1"
    by (simp add: vsys0_def)
  have v1: "vinv ?x1" using vrun_inv [OF any_device_blk run1] by blast
  note rq = virtio_request_eq [of "(ks vsys0)\<lparr>held := [Lk_vdisk]\<rparr>" "vq vsys0" 0 True]
  have "b_disk (bufs s 0)" using st vsys0_idle(2) rq by (auto simp: virtio_start_def same_def set_buf_def)
  then have "0 \<in> set (in_rings ?x1)" using vinvD(2) [OF v1, of 0 0 True 0] by simp
  moreover have "used_heads d = []" "dv_pend (dv ?x1) = []"
    using st vsys0_idle(2) rq by (auto simp: virtio_start_def posted_fields freed_def vsys0_def vdisk0_def)
  ultimately have "dv_last (dv ?x1) \<noteq> av_idx (vq ?x1)" by (auto simp: in_rings_def waiting_def)
  then obtain x2 where f: "fetch ?x1 x2" by (simp add: fetch_def)
  then have v2: "vinv x2" using fetch_inv(1) v1 by blast
  have run2: "vrun any_device [Submit 0 True 0] x2" using v_device [OF run1, of "[]" x2] f by (simp add: any_device_def)
  have fl2: "fl x2 = fl ?x1" using fetch_rings(4) [OF f] .
  obtain l where l: "l \<in> set (dv_pend (dv x2))" using f by (auto simp: fetch_def)
  then have "l \<in> set (in_rings x2)" by (simp add: in_rings_def waiting_def)
  from vinvD(6) [OF v2 this] have "l = 0" unfolding fl2 by (auto simp: vsys0_def split: if_splits)
  moreover have "request_at (vq x2) 0 = Some (True, 0, 0, 0)" using ready_request [OF vinvD(1) [OF v2, of 0 0 True 0]] fl2 by simp
  ultimately obtain x3 where sv: "serve 0 True 0 x2 x3" using l unfolding serve_def by blast
  have "any_device [Transfer 0 True 0] x2 x3" using sv by (auto simp: any_device_def)
  from v_device [OF run2 this] have run3: "vrun any_device [Submit 0 True 0, Transfer 0 True 0] x3" by simp
  have "fl x3 0 = Some (0, True, 0)" using sv fl2 by (auto simp: serve_def)
  from that [OF st run1 f sv run3 this] show ?thesis .
qed

lemma vsys0_alone: "\<exists>r d s. alone rd 0 0 True vsys0 r d s"
proof -
  obtain d s x2 x3 where st: "virtio_start 0 True (vq vsys0) (ks vsys0) = Inr (Wait_disk 0, d, s)"
    "fetch (vsys0\<lparr>vq := d, ks := s, fl := (fl vsys0)(0 := Some (0, True, 0))\<rparr>) x2" "serve 0 True 0 x2 x3"
    and r3: "vrun any_device [Submit 0 True 0, Transfer 0 True 0] x3" "fl x3 0 = Some (0, True, 0)"
    using vsys0_steps by metis
  have v3: "vinv x3" using vrun_inv [OF any_device_blk r3(1)] by blast
  let ?x3 = "x3\<lparr>ks := (ks x3)\<lparr>held := []\<rparr>\<rparr>"
  have v3': "vinv ?x3" by (rule else_inv [OF v3]) simp
  obtain d4 s4 where it: "virtio_disk_intr rd (vq x3) ((ks x3)\<lparr>held := []\<rparr>) = Inr (d4, s4)"
    using virtio_disk_intr_eq [of "(ks x3)\<lparr>held := []\<rparr>" "vq x3" rd] used_known [OF v3] by auto
  have v4: "vinv (?x3\<lparr>vq := d4, ks := s4\<rparr>)" by (rule intr_inv(1) [OF v3', of rd]) (simp_all add: it)
  let ?x4 = "?x3\<lparr>vq := d4, ks := s4\<lparr>held := [Lk_proc 0], cur := 0\<rparr>\<rparr>"
  have "vinv ?x4" using else_inv [OF v4, of "s4\<lparr>held := [Lk_proc 0], cur := 0\<rparr>"] by simp
  from resume_cases [OF this, of 0 0 True 0] r3(2) obtain r d' s' where
    "virtio_resume 0 0 d4 (s4\<lparr>held := [Lk_proc 0], cur := 0\<rparr>) = Inr (r, d', s')" by auto
  then have "alone rd 0 0 True vsys0 r d' s'" unfolding alone_def vsys0_sector using st it by blast
  then show ?thesis by blast
qed

subsection \<open>Properties\<close>

text \<open>
  C28: every request is carried out exactly once, and before \<^verbatim>\<open>virtio_disk_rw\<close> returns. The events of
  a buffer are requests that were submitted, transferred by the device and finished, in this order
  and with the same direction and sector, then at most one request that is still under way.
\<close>

theorem virtio_exactly_once:
  assumes "virtio_blk dev" "vrun dev evs x"
  shows "\<exists>rs l. about b evs = served b rs @ l \<and>
    (l = [] \<or> (\<exists>wr sec. l = [Submit b wr sec] \<or> l = [Submit b wr sec, Transfer b wr sec]))"
proof -
  obtain rs where "about b evs = served b rs @ current x b"
    using vrun_inv [OF assms] unfolding in_phase_def by blast
  moreover have "current x b = [] \<or> (\<exists>wr sec. current x b = [Submit b wr sec] \<or> current x b = [Submit b wr sec, Transfer b wr sec])"
    by (simp add: current_def split: option.split)
  ultimately show ?thesis by blast
qed

theorem virtio_exactly_once_witness:
  "\<exists>x rs l. vrun any_device [Submit 0 True 0, Transfer 0 True 0] x \<and>
     about 0 [Submit 0 True 0, Transfer 0 True 0] = served 0 rs @ l"
proof -
  obtain x where x: "vrun any_device [Submit 0 True 0, Transfer 0 True 0] x" using vsys0_steps by metis
  from virtio_exactly_once [OF any_device_blk x, of 0] x show ?thesis by blast
qed



text \<open>
  C30: no descriptor is lost. In every state that the driver can reach, the descriptors in use are three
  for each request under way, so at most two requests are under way and all descriptors are free
  when there is none.
\<close>

theorem virtio_no_leak:
  assumes "virtio_blk dev" "vrun dev evs x"
  shows "card {i. i < NUM \<and> \<not> vq_free (vq x) i} = 3 * card (dom (fl x)) \<and> card (dom (fl x)) \<le> 2"
proof -
  have e: "busy (vq x) = 3 * card (dom (fl x))" using busy_three vrun_inv [OF assms] by blast
  have "busy (vq x) \<le> card {..<NUM}" unfolding busy_def by (rule card_mono) auto
  then show ?thesis using e by (simp add: busy_def)
qed

theorem virtio_no_leak_witness:
  "\<exists>x. vrun any_device [Submit 0 True 0] x \<and> card {i. i < NUM \<and> \<not> vq_free (vq x) i} = 3"
proof -
  obtain d s where r: "vrun any_device [Submit 0 True 0] (vsys0\<lparr>vq := d, ks := s, fl := (fl vsys0)(0 := Some (0, True, 0))\<rparr>)"
    using vsys0_steps by metis
  let ?x = "vsys0\<lparr>vq := d, ks := s, fl := (fl vsys0)(0 := Some (0, True, 0))\<rparr>"
  from virtio_no_leak [OF any_device_blk r] vsys0_idle(3) have "card {i. i < NUM \<and> \<not> vq_free (vq ?x) i} = 3" by simp
  then show ?thesis using r by blast
qed

text \<open>
  C31: the driver implements the disk that the buffer cache uses. A request that runs alone returns, and
  has the effect on the disk and the buffers that \<^verbatim>\<open>virtio_disk_rw\<close> of theory \<open>Bio\<close> has at once.
\<close>

theorem virtio_refines_disk:
  assumes "idle x" "held (ks x) = []" "b_blockno (bufs (ks x) b) < 2 ^ 31" "alone rd p b wr x r d s"
  shows "r = Returned \<and> (\<exists>s'. virtio_disk_rw b wr (ks x) = Inr s' \<and> bufs s = bufs s' \<and> disk s = disk s' \<and> dwrites s = dwrites s')"
  using alone_effect [OF assms(1,2,4)] virtio_disk_rw_effect [OF assms(2,3), of wr] by (auto simp: same_def)

theorem virtio_refines_disk_witness:
  "\<exists>r d s. alone (\<lambda>_ _. 1) 0 0 True vsys0 r d s \<and> r = Returned"
proof -
  obtain r d s where a: "alone (\<lambda>_ _. 1) 0 0 True vsys0 r d s" using vsys0_alone by blast
  have "b_blockno (bufs (ks vsys0) 0) < 2 ^ 31" by (simp add: vsys0_def buf0_def)
  from virtio_refines_disk [OF vsys0_idle(1,2) this a] a show ?thesis by blast
qed

end
