(* ===== verification/Ulib.thy ===== *)
theory Ulib
  imports Prelude
begin

text \<open>
  The library of the user programs, \<^verbatim>\<open>user/ulib.c\<close>. A C string is the list of its bytes before the
  terminating 0, a pointer into it a suffix of that list, and 0 is read at the end. An area of memory
  is a function from offsets to bytes. What \<^verbatim>\<open>read\<close> returns is a parameter: a function of the number
  of bytes wanted and the state of the stream.
\<close>

subsection \<open>Strings\<close>

text \<open>\<^verbatim>\<open>strcpy(s, t)\<close> leaves \<open>t\<close> and a 0 at offset \<open>i\<close> of the destination.\<close>

fun strcpy :: "bytes \<Rightarrow> nat \<Rightarrow> byte list \<Rightarrow> bytes" where
  "strcpy s i [] = s(i := 0)"
| "strcpy s i (c # t) = strcpy (s(i := c)) (Suc i) t"

fun strcmp :: "byte list \<Rightarrow> byte list \<Rightarrow> int" where
  "strcmp [] [] = 0"
| "strcmp [] (d # q) = - uint d"
| "strcmp (c # p) [] = uint c"
| "strcmp (c # p) (d # q) = (if c = d then strcmp p q else uint c - uint d)"

definition strlen_u :: "byte list \<Rightarrow> u32" where
  "strlen_u s = of_nat (length s)"

text \<open>The offset at which \<^verbatim>\<open>strchr\<close> finds the character; the search ends at a 0.\<close>

fun strchr :: "byte list \<Rightarrow> byte \<Rightarrow> nat option" where
  "strchr [] c = None"
| "strchr (x # s) c = (if x = 0 then None else if x = c then Some 0 else map_option Suc (strchr s c))"

text \<open>\<^verbatim>\<open>atoi\<close> computes with a 32-bit \<^verbatim>\<open>int\<close>.\<close>

fun atoi_loop :: "int \<Rightarrow> byte list \<Rightarrow> int" where
  "atoi_loop n [] = n"
| "atoi_loop n (c # s) =
     (if 0x30 \<le> c \<and> c \<le> 0x39 then atoi_loop (signed_take_bit 31 (n * 10 + uint c - 0x30)) s else n)"

definition atoi :: "byte list \<Rightarrow> int" where
  "atoi s = atoi_loop 0 s"

subsection \<open>Memory\<close>

primrec memset_u :: "bytes \<Rightarrow> nat \<Rightarrow> byte \<Rightarrow> nat \<Rightarrow> bytes" where
  "memset_u m dst c 0 = m"
| "memset_u m dst c (Suc n) = memset_u (m(dst := c)) (Suc dst) c n"

primrec copy_up :: "bytes \<Rightarrow> nat \<Rightarrow> nat \<Rightarrow> nat \<Rightarrow> bytes" where
  "copy_up m dst src 0 = m"
| "copy_up m dst src (Suc n) = copy_up (m(dst := m src)) (Suc dst) (Suc src) n"

primrec copy_down :: "bytes \<Rightarrow> nat \<Rightarrow> nat \<Rightarrow> nat \<Rightarrow> bytes" where
  "copy_down m dst src 0 = m"
| "copy_down m dst src (Suc n) = copy_down (m(dst + n := m (src + n))) dst src n"

text \<open>The count of \<^verbatim>\<open>memmove\<close> is an \<^verbatim>\<open>int\<close>; a negative one copies nothing.\<close>

definition memmove_u :: "bytes \<Rightarrow> nat \<Rightarrow> nat \<Rightarrow> int \<Rightarrow> bytes" where
  "memmove_u m dst src n =
     (if src > dst then copy_up m dst src (nat n) else copy_down m dst src (nat n))"

definition memcpy_u :: "bytes \<Rightarrow> nat \<Rightarrow> nat \<Rightarrow> u32 \<Rightarrow> bytes" where
  "memcpy_u m dst src n = memmove_u m dst src (sint n)"

text \<open>\<^verbatim>\<open>memcmp\<close> compares plain \<^verbatim>\<open>char\<close>s, which are unsigned on this architecture.\<close>

primrec memcmp_u :: "bytes \<Rightarrow> nat \<Rightarrow> nat \<Rightarrow> nat \<Rightarrow> int" where
  "memcmp_u m p q 0 = 0"
| "memcmp_u m p q (Suc n) =
     (if m p \<noteq> m q then uint (m p) - uint (m q) else memcmp_u m (Suc p) (Suc q) n)"

subsection \<open>Input\<close>

type_synonym 's reader = "nat \<Rightarrow> 's \<Rightarrow> byte list \<times> 's"

text \<open>The loop of \<^verbatim>\<open>gets\<close>: \<open>k\<close> more bytes fit in the buffer.\<close>

primrec gets_loop :: "'s reader \<Rightarrow> nat \<Rightarrow> 's \<Rightarrow> byte list \<times> 's" where
  "gets_loop rd 0 s = ([], s)"
| "gets_loop rd (Suc k) s =
     (let (cs, s) = rd 1 s in
      if cs = [] then ([], s)
      else if hd cs = 0x0A \<or> hd cs = 0x0D then ([hd cs], s)
      else let (r, s) = gets_loop rd k s in (hd cs # r, s))"

definition gets :: "'s reader \<Rightarrow> int \<Rightarrow> 's \<Rightarrow> byte list \<times> 's" where
  "gets rd maxlen s = gets_loop rd (nat (maxlen - 1)) s"

text \<open>
  What the programs rely on of \<^verbatim>\<open>read\<close>: at the end of the stream it returns nothing, otherwise at
  least one and at most the wanted number of the bytes that come next.
\<close>

inductive delivers :: "'s reader \<Rightarrow> 's \<Rightarrow> byte list \<Rightarrow> bool" for rd where
  eof: "\<forall>k. fst (rd k s) = [] \<Longrightarrow> delivers rd s []"
| more: "xs \<noteq> [] \<Longrightarrow> fst (rd 0 s) = [] \<Longrightarrow>
    \<forall>k>0. \<exists>j>0. j \<le> k \<and> j \<le> length xs \<and> fst (rd k s) = take j xs \<and> delivers rd (snd (rd k s)) (drop j xs) \<Longrightarrow>
    delivers rd s xs"

subsection \<open>Lemmas\<close>

lemma strchr_eq:
  "0 \<notin> set s \<Longrightarrow> strchr s c = (if c \<in> set s then Some (length (takeWhile (\<lambda>x. x \<noteq> c) s)) else None)"
  by (induction s) auto

lemma strcmp_eq_0: "strcmp p q = 0 \<longleftrightarrow> p = q" if "0 \<notin> set p" "0 \<notin> set q"
  using that by (induction p q rule: strcmp.induct) (auto simp: word_uint_eq_iff)

lemma copy_up_eq:
  "dst < src \<Longrightarrow> copy_up m dst src n = (\<lambda>i. if dst \<le> i \<and> i < dst + n then m (src + (i - dst)) else m i)"
proof (induction n arbitrary: m dst src)
  case 0
  then show ?case by (auto simp: fun_eq_iff)
next
  case (Suc n)
  then show ?case by (auto simp: fun_eq_iff Suc_diff_Suc not_less less_Suc_eq_le)
qed

lemma copy_down_eq:
  "src \<le> dst \<Longrightarrow> copy_down m dst src n = (\<lambda>i. if dst \<le> i \<and> i < dst + n then m (src + (i - dst)) else m i)"
proof (induction n arbitrary: m)
  case 0
  then show ?case by (auto simp: fun_eq_iff)
next
  case (Suc n)
  then show ?case by (auto simp: fun_eq_iff less_Suc_eq)
qed

end
