(* ===== verification/Grep.thy ===== *)
theory Grep
  imports Ulib
begin

text \<open>
  The program \<^verbatim>\<open>user/grep.c\<close>: the matcher for patterns with \<^verbatim>\<open>^ . * $\<close>, and the loop that reads the
  input in pieces and prints the lines that match. A C string is the list of its bytes before the
  terminating 0, so that a pointer into it is a suffix of the list and 0 is read at the end. The
  matcher is compared with the language that the pattern denotes, the loop with the lines of the
  whole input.
\<close>

subsection \<open>The matcher\<close>

abbreviation (input) star_char :: byte where "star_char \<equiv> 0x2A"
abbreviation (input) dot_char :: byte where "dot_char \<equiv> 0x2E"
abbreviation (input) dollar_char :: byte where "dollar_char \<equiv> 0x24"
abbreviation (input) caret_char :: byte where "caret_char \<equiv> 0x5E"
abbreviation (input) newline_char :: byte where "newline_char \<equiv> 0x0A"

function matchhere :: "byte list \<Rightarrow> byte list \<Rightarrow> bool"
  and matchstar :: "byte \<Rightarrow> byte list \<Rightarrow> byte list \<Rightarrow> bool" where
  "matchhere re text =
     (case re of
        [] \<Rightarrow> True
      | c # re' \<Rightarrow>
          if re' \<noteq> [] \<and> hd re' = star_char then matchstar c (tl re') text
          else if c = dollar_char \<and> re' = [] then text = []
          else case text of
            [] \<Rightarrow> False
          | x # text' \<Rightarrow> if c = dot_char \<or> c = x then matchhere re' text' else False)"
| "matchstar c re text =
     (if matchhere re text then True
      else case text of
        [] \<Rightarrow> False
      | x # text' \<Rightarrow> if x = c \<or> c = dot_char then matchstar c re text' else False)"
  by pat_completeness auto
termination
  by (relation "measure (\<lambda>a. case a of Inl (re, t) \<Rightarrow> 2 * (length re + length t)
        | Inr (c, re, t) \<Rightarrow> Suc (2 * (length re + length t)))") (auto simp: neq_Nil_conv)

declare matchhere.simps [simp del] matchstar.simps [simp del]

text \<open>The loop \<^verbatim>\<open>do ... while(*text++ != '\0')\<close> of \<^verbatim>\<open>match\<close>.\<close>

fun match_from :: "byte list \<Rightarrow> byte list \<Rightarrow> bool" where
  "match_from re text =
     (if matchhere re text then True
      else case text of [] \<Rightarrow> False | x # text' \<Rightarrow> match_from re text')"

declare match_from.simps [simp del]

definition match :: "byte list \<Rightarrow> byte list \<Rightarrow> bool" where
  "match re text =
     (if re \<noteq> [] \<and> hd re = caret_char then matchhere (tl re) text else match_from re text)"

subsection \<open>The language of a pattern\<close>

datatype atom = Lit byte | Any

datatype item = One atom | Star atom

fun sat :: "atom \<Rightarrow> byte \<Rightarrow> bool" where
  "sat (Lit c) x \<longleftrightarrow> c = x"
| "sat Any x \<longleftrightarrow> True"

fun lang :: "item list \<Rightarrow> byte list set" where
  "lang [] = {[]}"
| "lang (One a # es) = {x # w | x w. sat a x \<and> w \<in> lang es}"
| "lang (Star a # es) = {u @ w | u w. (\<forall>x\<in>set u. sat a x) \<and> w \<in> lang es}"

definition atom_of :: "byte \<Rightarrow> atom" where
  "atom_of c = (if c = dot_char then Any else Lit c)"

text \<open>
  The items of a pattern, and whether it ends with the anchor: a character before a star is a
  repetition, a \<^verbatim>\<open>$\<close> at the end is the anchor, and every other character stands for itself.
\<close>

fun items :: "byte list \<Rightarrow> item list \<times> bool" where
  "items [] = ([], False)"
| "items [c] = (if c = dollar_char then ([], True) else ([One (atom_of c)], False))"
| "items (c # d # re) =
     (if d = star_char then let (es, e) = items re in (Star (atom_of c) # es, e)
      else let (es, e) = items (d # re) in (One (atom_of c) # es, e))"

definition begins :: "byte list \<Rightarrow> byte list \<Rightarrow> bool" where
  "begins re text \<longleftrightarrow> (\<exists>u v. text = u @ v \<and> u \<in> lang (fst (items re)) \<and> (snd (items re) \<longrightarrow> v = []))"

lemma sat_atom_of: "sat (atom_of c) x \<longleftrightarrow> c = dot_char \<or> c = x"
  by (auto simp: atom_of_def)

lemma begins_Nil: "begins [] text"
  by (auto simp: begins_def)

lemma begins_end: "begins [dollar_char] text \<longleftrightarrow> text = []"
  by (auto simp: begins_def)

lemma begins_one:
  assumes "re = [] \<Longrightarrow> c \<noteq> dollar_char" "re \<noteq> [] \<Longrightarrow> hd re \<noteq> star_char"
  shows "begins (c # re) text \<longleftrightarrow> (\<exists>x t. text = x # t \<and> sat (atom_of c) x \<and> begins re t)"
proof -
  have i: "items (c # re) = (One (atom_of c) # fst (items re), snd (items re))"
    using assms by (cases re) (auto simp: split_beta)
  show ?thesis
    unfolding begins_def i fst_conv snd_conv lang.simps mem_Collect_eq by (metis append_Cons)
qed

lemma begins_star:
  "begins (c # star_char # re) text \<longleftrightarrow> (\<exists>u t. text = u @ t \<and> (\<forall>x\<in>set u. sat (atom_of c) x) \<and> begins re t)"
proof -
  let ?L = "lang (fst (items re))" and ?e = "snd (items re)"
  have i: "items (c # star_char # re) = (Star (atom_of c) # fst (items re), ?e)"
    by (simp add: split_beta)
  have "begins (c # star_char # re) text \<longleftrightarrow>
      (\<exists>u w v. text = (u @ w) @ v \<and> (\<forall>x\<in>set u. sat (atom_of c) x) \<and> w \<in> ?L \<and> (?e \<longrightarrow> v = []))"
    unfolding begins_def i fst_conv snd_conv lang.simps mem_Collect_eq by blast
  also have "\<dots> \<longleftrightarrow> (\<exists>u t. text = u @ t \<and> (\<forall>x\<in>set u. sat (atom_of c) x) \<and> begins re t)"
    unfolding begins_def append_assoc by blast
  finally show ?thesis .
qed

lemma split_Cons:
  "(\<exists>u v. x # t = u @ v \<and> (\<forall>y\<in>set u. P y) \<and> Q v) \<longleftrightarrow> Q (x # t) \<or> P x \<and> (\<exists>u v. t = u @ v \<and> (\<forall>y\<in>set u. P y) \<and> Q v)"
proof
  assume "\<exists>u v. x # t = u @ v \<and> (\<forall>y\<in>set u. P y) \<and> Q v"
  then obtain u v where u: "x # t = u @ v" "\<forall>y\<in>set u. P y" "Q v" by blast
  show "Q (x # t) \<or> P x \<and> (\<exists>u v. t = u @ v \<and> (\<forall>y\<in>set u. P y) \<and> Q v)"
  proof (cases u)
    case Nil
    then show ?thesis using u by simp
  next
    case (Cons y u')
    then have "P x" "t = u' @ v" "\<forall>y\<in>set u'. P y" using u by simp_all
    then show ?thesis using u(3) by blast
  qed
next
  assume "Q (x # t) \<or> P x \<and> (\<exists>u v. t = u @ v \<and> (\<forall>y\<in>set u. P y) \<and> Q v)"
  then show "\<exists>u v. x # t = u @ v \<and> (\<forall>y\<in>set u. P y) \<and> Q v"
  proof (elim disjE conjE exE)
    assume "Q (x # t)"
    then have "x # t = [] @ (x # t) \<and> (\<forall>y\<in>set []. P y) \<and> Q (x # t)" by simp
    then show ?thesis by blast
  next
    fix u v assume "P x" "t = u @ v" "\<forall>y\<in>set u. P y" "Q v"
    then have "x # t = (x # u) @ v \<and> (\<forall>y\<in>set (x # u). P y) \<and> Q v" by simp
    then show ?thesis by blast
  qed
qed

lemma matchhere_begins: "matchhere re tx \<longleftrightarrow> begins re tx"
  and matchstar_begins: "matchstar c re tx \<longleftrightarrow> (\<exists>u t. tx = u @ t \<and> (\<forall>x\<in>set u. sat (atom_of c) x) \<and> begins re t)"
proof (induction re tx and c re tx rule: matchhere_matchstar.induct)
  case (1 re tx)
  show ?case
  proof (cases re)
    case Nil
    then show ?thesis by (simp add: matchhere.simps begins_Nil)
  next
    case (Cons c re')
    consider "re' \<noteq> [] \<and> hd re' = star_char" | "\<not> (re' \<noteq> [] \<and> hd re' = star_char)" "c = dollar_char \<and> re' = []"
      | "\<not> (re' \<noteq> [] \<and> hd re' = star_char)" "\<not> (c = dollar_char \<and> re' = [])" by blast
    then show ?thesis
    proof cases
      case 1
      then have "re = c # star_char # tl re'" using Cons by (cases re') auto
      moreover have "matchhere re tx = matchstar c (tl re') tx" using 1 Cons by (subst matchhere.simps) simp
      ultimately show ?thesis using "1.IH"(1) [OF Cons 1] begins_star by metis
    next
      case 2
      then show ?thesis using Cons by (subst matchhere.simps) (simp add: begins_end)
    next
      case 3
      then have b: "begins re tx \<longleftrightarrow> (\<exists>x t. tx = x # t \<and> sat (atom_of c) x \<and> begins re' t)"
        using begins_one [of re' c tx] Cons by blast
      show ?thesis
      proof (cases tx)
        case Nil
        then show ?thesis using 3 Cons b by (subst matchhere.simps) auto
      next
        case tx: (Cons x t)
        have "matchhere re tx \<longleftrightarrow> (c = dot_char \<or> c = x) \<and> matchhere re' t"
          using 3 Cons tx by (subst matchhere.simps) auto
        then show ?thesis using b tx "1.IH"(2) [OF Cons 3(1) 3(2) tx] by (auto simp: sat_atom_of)
      qed
    qed
  qed
next
  case (2 c re tx)
  show ?case
  proof (cases tx)
    case Nil
    then show ?thesis using 2(1) by (subst matchstar.simps) simp
  next
    case (Cons x t)
    have m: "matchstar c re tx \<longleftrightarrow> begins re tx \<or> (x = c \<or> c = dot_char) \<and> matchstar c re t"
      using 2(1) Cons by (subst matchstar.simps) auto
    have s: "(\<exists>u v. tx = u @ v \<and> (\<forall>y\<in>set u. sat (atom_of c) y) \<and> begins re v) \<longleftrightarrow>
      begins re tx \<or> sat (atom_of c) x \<and> (\<exists>u v. t = u @ v \<and> (\<forall>y\<in>set u. sat (atom_of c) y) \<and> begins re v)"
      unfolding Cons by (rule split_Cons)
    show ?thesis
    proof (cases "begins re tx")
      case True
      then show ?thesis using m s by simp
    next
      case False
      then show ?thesis using m s 2(1) 2(2) [OF _ Cons] by (auto simp: sat_atom_of)
    qed
  qed
qed

lemma match_from_begins: "match_from re tx \<longleftrightarrow> (\<exists>p t. tx = p @ t \<and> begins re t)"
proof (induction tx)
  case Nil
  then show ?case by (subst match_from.simps) (simp add: matchhere_begins)
next
  case (Cons x tx)
  have "match_from re (x # tx) \<longleftrightarrow> begins re (x # tx) \<or> match_from re tx"
    by (subst match_from.simps) (simp add: matchhere_begins)
  then show ?case using Cons.IH split_Cons [of x tx "\<lambda>_. True" "begins re"] by simp
qed

subsection \<open>The program\<close>

text \<open>
  The inner loop of \<^verbatim>\<open>grep\<close> on the content of the buffer from \<open>p\<close> on: what it writes, and the bytes
  that are left. The position of a newline is overwritten with 0 while the line is matched.
\<close>

lemma strchr_less: "strchr s c = Some i \<Longrightarrow> i < length s"
  by (induction s arbitrary: i) (auto split: if_splits)

function grep_lines :: "byte list \<Rightarrow> byte list \<Rightarrow> byte list \<times> byte list" where
  "grep_lines pattern p =
     (case strchr p newline_char of
        None \<Rightarrow> ([], p)
      | Some q \<Rightarrow>
          let (out, rest) = grep_lines pattern (drop (Suc q) p) in
          ((if match pattern (take q p) then take (Suc q) p else []) @ out, rest))"
  by pat_completeness auto
termination
  by (relation "measure (\<lambda>(pattern, p). length p)") (auto dest: strchr_less)

declare grep_lines.simps [simp del]

text \<open>The outer loop, with the bytes in the buffer, of which there are 1024; the result is what is written.\<close>

partial_function (option) grep_loop :: "'s reader \<Rightarrow> byte list \<Rightarrow> byte list \<Rightarrow> 's \<Rightarrow> byte list option" where
  "grep_loop rd pattern buf s =
     (let (cs, s) = rd (1024 - length buf - 1) s in
      if cs = [] then Some []
      else
        let (out, rest) = grep_lines pattern (buf @ cs) in
        Option.bind (grep_loop rd pattern rest s) (\<lambda>more. Some (out @ more)))"

definition grep :: "'s reader \<Rightarrow> byte list \<Rightarrow> 's \<Rightarrow> byte list option" where
  "grep rd pattern s = grep_loop rd pattern [] s"

text \<open>
  \<^verbatim>\<open>main\<close>, with what \<^verbatim>\<open>open\<close> returns for a name as a parameter: the exit status and the two outputs.
\<close>

fun grep_files :: "'s reader \<Rightarrow> (byte list \<Rightarrow> 's option) \<Rightarrow> byte list \<Rightarrow> byte list list \<Rightarrow> (int \<times> byte list) option" where
  "grep_files rd open_file pattern [] = Some (0, [])"
| "grep_files rd open_file pattern (name # names) =
     (case open_file name of
        None \<Rightarrow> Some (1, str ''grep: cannot open '' @ name @ [newline_char])
      | Some s \<Rightarrow>
          Option.bind (grep rd pattern s) (\<lambda>out.
          Option.bind (grep_files rd open_file pattern names) (\<lambda>(st, more). Some (st, out @ more))))"

definition grep_main ::
  "'s reader \<Rightarrow> 's \<Rightarrow> (byte list \<Rightarrow> 's option) \<Rightarrow> byte list list \<Rightarrow> (int \<times> byte list \<times> byte list) option" where
  "grep_main rd stdin open_file argv =
     (if length argv \<le> 1 then Some (1, [], str ''usage: grep pattern [file ...]'' @ [newline_char])
      else if length argv \<le> 2 then Option.bind (grep rd (argv ! 1) stdin) (\<lambda>out. Some (0, out, []))
      else Option.bind (grep_files rd open_file (argv ! 1) (drop 2 argv)) (\<lambda>(st, out). Some (st, out, [])))"

subsection \<open>Lines\<close>

text \<open>The complete lines of a text, without their newlines, and what follows the last newline.\<close>

function lines :: "byte list \<Rightarrow> byte list list" where
  "lines xs =
     (if newline_char \<in> set xs
      then takeWhile (\<lambda>c. c \<noteq> newline_char) xs # lines (tl (dropWhile (\<lambda>c. c \<noteq> newline_char) xs)) else [])"
  by pat_completeness auto
termination
proof (relation "measure length")
  fix xs :: "byte list" assume "newline_char \<in> set xs"
  then have "dropWhile (\<lambda>c. c \<noteq> newline_char) xs \<noteq> []" by auto
  then have "length (tl (dropWhile (\<lambda>c. c \<noteq> newline_char) xs)) < length (dropWhile (\<lambda>c. c \<noteq> newline_char) xs)"
    by (cases "dropWhile (\<lambda>c. c \<noteq> newline_char) xs") auto
  also have "\<dots> \<le> length xs" by (rule length_dropWhile_le)
  finally show "(tl (dropWhile (\<lambda>c. c \<noteq> newline_char) xs), xs) \<in> measure length" by simp
qed simp

declare lines.simps [simp del]

lemma lines_none: "newline_char \<notin> set xs \<Longrightarrow> lines xs = []"
  by (simp add: lines.simps)

lemma lines_line: "newline_char \<notin> set l \<Longrightarrow> lines (l @ newline_char # xs) = l # lines xs"
proof -
  assume "newline_char \<notin> set l"
  then have "takeWhile (\<lambda>c. c \<noteq> newline_char) (l @ newline_char # xs) = l"
    "dropWhile (\<lambda>c. c \<noteq> newline_char) (l @ newline_char # xs) = newline_char # xs" by (induction l) auto
  then show ?thesis by (subst lines.simps) simp
qed

lemma split_newline: "newline_char \<in> set xs \<Longrightarrow> \<exists>l r. xs = l @ newline_char # r \<and> newline_char \<notin> set l"
  by (metis split_list_first)

lemma grep_lines_line:
  assumes "newline_char \<notin> set l" "0 \<notin> set l"
  shows "grep_lines pattern (l @ newline_char # xs) =
    (let (out, rest) = grep_lines pattern xs in ((if match pattern l then l @ [newline_char] else []) @ out, rest))"
proof -
  have "strchr (l @ newline_char # xs) newline_char = Some (length l)"
    using assms by (induction l) auto
  then show ?thesis by (subst grep_lines.simps) simp
qed

lemma grep_lines_none: "newline_char \<notin> set p \<Longrightarrow> grep_lines pattern p = ([], p)"
proof -
  assume "newline_char \<notin> set p"
  then have "strchr p newline_char = None" by (induction p) auto
  then show ?thesis by (subst grep_lines.simps) simp
qed

definition printed :: "byte list \<Rightarrow> byte list list \<Rightarrow> byte list" where
  "printed pattern ls = concat (map (\<lambda>l. l @ [newline_char]) (filter (match pattern) ls))"

lemma grep_lines_eq:
  assumes "0 \<notin> set p"
  shows "\<exists>rest. grep_lines pattern p = (printed pattern (lines p), rest) \<and> newline_char \<notin> set rest \<and> set rest \<subseteq> set p \<and>
    length rest \<le> length p \<and> (\<forall>xs. lines (p @ xs) = lines p @ lines (rest @ xs))"
  using assms
proof (induction "length p" arbitrary: p rule: less_induct)
  case less
  show ?case
  proof (cases "newline_char \<in> set p")
    case False
    then show ?thesis by (auto simp: grep_lines_none lines_none printed_def)
  next
    case True
    then obtain l r where p: "p = l @ newline_char # r" "newline_char \<notin> set l" using split_newline by blast
    then obtain rest where r: "grep_lines pattern r = (printed pattern (lines r), rest)" "newline_char \<notin> set rest" "set rest \<subseteq> set r"
        "length rest \<le> length r" "\<forall>xs. lines (r @ xs) = lines r @ lines (rest @ xs)"
      using less.hyps [of r] less.prems by auto
    show ?thesis
      using p less.prems r by (auto simp: grep_lines_line lines_line printed_def)
  qed
qed

lemma lines_long:
  assumes "newline_char \<notin> set buf" "\<forall>l\<in>set (lines (buf @ xs)). length l < n" "n \<le> length buf"
  shows "lines (buf @ xs) = []"
proof (rule ccontr)
  assume "lines (buf @ xs) \<noteq> []"
  then have "newline_char \<in> set (buf @ xs)" using lines_none by blast
  then obtain l r where s: "xs = l @ newline_char # r" "newline_char \<notin> set l" using assms(1) split_newline [of xs] by auto
  then have "lines (buf @ xs) = (buf @ l) # lines r" using lines_line [of "buf @ l" r] assms(1) by simp
  then show False using assms(2,3) by simp
qed

lemma grep_loop_eq:
  assumes "delivers rd s xs" "newline_char \<notin> set buf" "0 \<notin> set buf \<union> set xs" "length buf \<le> 1023"
    "\<forall>l\<in>set (lines (buf @ xs)). length l < 1023"
  shows "grep_loop rd pattern buf s = Some (printed pattern (lines (buf @ xs)))"
  using assms
proof (induction arbitrary: buf rule: delivers.induct)
  case (eof s)
  then show ?case by (subst grep_loop.simps) (simp add: split_beta lines_none printed_def)
next
  case (more xs s)
  show ?case
  proof (cases "length buf = 1023")
    case True
    then have "fst (rd (1024 - length buf - 1) s) = []" using more.hyps(2) by simp
    then have "grep_loop rd pattern buf s = Some []" by (subst grep_loop.simps) (simp add: split_beta)
    moreover have "lines (buf @ xs) = []" by (rule lines_long [OF more.prems(1,4)]) (simp add: True)
    ultimately show ?thesis by (simp add: printed_def)
  next
    case False
    let ?k = "1024 - length buf - 1"
    have "0 < ?k" using False more.prems(3) by simp
    with more.IH obtain j where j: "0 < j" "j \<le> ?k" "j \<le> length xs" "fst (rd ?k s) = take j xs" "delivers rd (snd (rd ?k s)) (drop j xs)"
      and IH: "\<And>buf. newline_char \<notin> set buf \<Longrightarrow> 0 \<notin> set buf \<union> set (drop j xs) \<Longrightarrow> length buf \<le> 1023 \<Longrightarrow>
        \<forall>l\<in>set (lines (buf @ drop j xs)). length l < 1023 \<Longrightarrow>
        grep_loop rd pattern buf (snd (rd ?k s)) = Some (printed pattern (lines (buf @ drop j xs)))" by blast
    have z: "0 \<notin> set (buf @ take j xs)" using more.prems(2) by (auto dest: in_set_takeD)
    obtain rest where r: "grep_lines pattern (buf @ take j xs) = (printed pattern (lines (buf @ take j xs)), rest)"
        "newline_char \<notin> set rest" "set rest \<subseteq> set (buf @ take j xs)" "length rest \<le> length (buf @ take j xs)"
        "\<forall>ys. lines ((buf @ take j xs) @ ys) = lines (buf @ take j xs) @ lines (rest @ ys)"
      using grep_lines_eq [OF z] by blast
    have l: "lines (buf @ xs) = lines (buf @ take j xs) @ lines (rest @ drop j xs)"
      using spec [OF r(5), of "drop j xs"] by simp
    have "grep_loop rd pattern rest (snd (rd ?k s)) = Some (printed pattern (lines (rest @ drop j xs)))"
    proof (rule IH [OF r(2)])
      show "0 \<notin> set rest \<union> set (drop j xs)" using r(3) z more.prems(2) by (auto dest: in_set_dropD)
      show "length rest \<le> 1023" using r(4) j(2,3) more.prems(3) by simp
      show "\<forall>l\<in>set (lines (rest @ drop j xs)). length l < 1023" using more.prems(4) l by simp
    qed
    moreover have "take j xs \<noteq> []" using j(1) more.hyps(1) by simp
    ultimately show ?thesis using j(4) r(1) l
      by (subst grep_loop.simps) (simp add: split_beta printed_def)
  qed
qed

subsection \<open>Properties\<close>

text \<open>
  C32: the recursive matcher accepts a text exactly if a part of it is in the language that the pattern
  denotes: at the start of the text for a pattern that begins with \<^verbatim>\<open>^\<close>, up to its end for a pattern
  that ends with \<^verbatim>\<open>$\<close>, anywhere otherwise.
\<close>

theorem match_language:
  "match re text \<longleftrightarrow>
     (if re \<noteq> [] \<and> hd re = caret_char then begins (tl re) text else \<exists>p t. text = p @ t \<and> begins re t)"
  by (simp add: match_def matchhere_begins match_from_begins)

text \<open>
  C33: \<^verbatim>\<open>grep\<close> ends, and writes exactly the complete lines of its input that match, in order and each with
  its newline, however \<^verbatim>\<open>read\<close> cuts the input into pieces, as long as every such line is shorter than
  the buffer and the input has no 0 byte.
\<close>

theorem grep_prints_matches:
  assumes "delivers rd s input" "0 \<notin> set input" "\<forall>l\<in>set (lines input). length l < 1023"
  shows "grep rd pattern s = Some (concat (map (\<lambda>l. l @ [newline_char]) (filter (match pattern) (lines input))))"
  using grep_loop_eq [OF assms(1), of "[]"] assms(2,3) by (simp add: grep_def printed_def)

text \<open>A stream that delivers at most three bytes at a time.\<close>

definition three_bytes :: "byte list reader" where
  "three_bytes k s = (take (min k 3) s, drop (min k 3) s)"

lemma three_bytes_delivers: "delivers three_bytes xs xs"
proof (induction "length xs" arbitrary: xs rule: less_induct)
  case less
  show ?case
  proof (cases "xs = []")
    case True
    then show ?thesis by (auto intro: eof simp: three_bytes_def)
  next
    case False
    show ?thesis
    proof (rule more [OF False])
      show "\<forall>k>0. \<exists>j>0. j \<le> k \<and> j \<le> length xs \<and> fst (three_bytes k xs) = take j xs \<and> delivers three_bytes (snd (three_bytes k xs)) (drop j xs)"
      proof (intro allI impI)
        fix k :: nat assume k: "0 < k"
        let ?j = "min (min k 3) (length xs)"
        have j: "0 < ?j" using k False by simp
        have "length (drop ?j xs) < length xs" using j False by (simp del: min_less_iff_conj)
        then have "delivers three_bytes (drop ?j xs) (drop ?j xs)" by (rule less)
        moreover have "take ?j xs = take (min k 3) xs" "drop ?j xs = drop (min k 3) xs" by (auto simp: min_def)
        ultimately show "\<exists>j>0. j \<le> k \<and> j \<le> length xs \<and> fst (three_bytes k xs) = take j xs \<and> delivers three_bytes (snd (three_bytes k xs)) (drop j xs)"
          using j by (intro exI [of _ ?j]) (auto simp: three_bytes_def)
      qed
    qed (simp add: three_bytes_def)
  qed
qed

theorem grep_prints_matches_witness:
  "grep three_bytes (str ''b.*$'') (str ''abc'' @ [10] @ str ''xyz'' @ [10]) = Some (str ''abc'' @ [10])"
proof -
  let ?in = "str ''abc'' @ [10] @ str ''xyz'' @ [10]"
  have l: "lines ?in = [str ''abc'', str ''xyz'']"
    by (simp add: str_def lines.simps)
  have "0 \<notin> set ?in" by (simp add: str_def)
  moreover have "match (str ''b.*$'') (str ''abc'')" "\<not> match (str ''b.*$'') (str ''xyz'')"
    by (simp_all add: str_def match_def match_from.simps matchhere.simps matchstar.simps)
  ultimately show ?thesis
    using grep_prints_matches [OF three_bytes_delivers, of ?in "str ''b.*$''"] unfolding l by (simp add: str_def)
qed

text \<open>A first line that fills the buffer ends the program, whatever follows.\<close>

lemma grep_stops_at_long_line:
  assumes "delivers rd s input" "length buf = 1023"
  shows "grep_loop rd pattern buf s = Some []"
proof -
  have "fst (rd (1024 - length buf - 1) s) = []" using assms by (cases rule: delivers.cases) auto
  then show ?thesis by (subst grep_loop.simps) (simp add: split_beta)
qed

end
