(* ===== verification/Uprintf.thy ===== *)
theory Uprintf
  imports Printf Ulib
begin

text \<open>
  The \<^verbatim>\<open>printf\<close> of the user programs, \<^verbatim>\<open>user/printf.c\<close>. The result of a function is what it writes to
  the file descriptor, one byte at a time. The variable arguments are as in theory \<open>Printf\<close>.
\<close>

subsection \<open>Numbers\<close>

text \<open>The digits of \<^verbatim>\<open>0123456789ABCDEF\<close>.\<close>

definition digit_char_u :: "nat \<Rightarrow> byte" where
  "digit_char_u d = (if d < 10 then of_nat (48 + d) else of_nat (55 + d))"

function digit_loop_u :: "nat \<Rightarrow> nat \<Rightarrow> byte list \<Rightarrow> byte list" where
  "digit_loop_u base x buf =
     (let buf = buf @ [digit_char_u (x mod base)]; x' = x div base in
      if x' \<noteq> 0 \<and> x' < x then digit_loop_u base x' buf else buf)"
  by pat_completeness auto
termination
  by (relation "measure (\<lambda>(base, x, buf). x)") auto

declare digit_loop_u.simps [simp del]

text \<open>The number is a \<^verbatim>\<open>long long\<close>, but the variable that holds its magnitude is a \<^verbatim>\<open>uint\<close>.\<close>

definition printint_u :: "u64 \<Rightarrow> nat \<Rightarrow> bool \<Rightarrow> byte list" where
  "printint_u xx base sign =
     (let neg = (sign \<and> sint xx < 0);
          x = ucast (if neg then - xx else xx) :: u32;
          buf = digit_loop_u base (unat x) []
      in rev (if neg then buf @ [45] else buf))"

primrec printptr_loop_u :: "nat \<Rightarrow> u64 \<Rightarrow> byte list" where
  "printptr_loop_u 0 x = []"
| "printptr_loop_u (Suc k) x = digit_char_u (unat (drop_bit 60 x)) # printptr_loop_u k (push_bit 4 x)"

definition printptr_u :: "u64 \<Rightarrow> byte list" where
  "printptr_u x = [0x30, 0x78] @ printptr_loop_u 16 x"

subsection \<open>Formats\<close>

text \<open>One directive: how many characters after \<^verbatim>\<open>c0\<close> it takes, the arguments left, and the output.\<close>

definition directive_u :: "byte \<Rightarrow> byte \<Rightarrow> byte \<Rightarrow> parg list \<Rightarrow> (nat \<times> parg list \<times> byte list) result" where
  "directive_u c0 c1 c2 ap =
     (let d = of_char CHR ''d''; l = of_char CHR ''l''; u = of_char CHR ''u''; x = of_char CHR ''x'';
          num = (\<lambda>conv base sign k. rbind (arg_num ap) (\<lambda>(v, ap). Inr (k, ap, printint_u (conv v) base sign))) in
      if c0 = d then num as_int 10 True 0
      else if c0 = l \<and> c1 = d then num id 10 True 1
      else if c0 = l \<and> c1 = l \<and> c2 = d then num id 10 True 2
      else if c0 = u then num as_uint 10 False 0
      else if c0 = l \<and> c1 = u then num id 10 False 1
      else if c0 = l \<and> c1 = l \<and> c2 = u then num id 10 False 2
      else if c0 = x then num as_uint 16 False 0
      else if c0 = l \<and> c1 = x then num id 16 False 1
      else if c0 = l \<and> c1 = l \<and> c2 = x then num id 16 False 2
      else if c0 = of_char CHR ''p'' then rbind (arg_num ap) (\<lambda>(v, ap). Inr (0, ap, printptr_u v))
      else if c0 = of_char CHR ''c'' then rbind (arg_num ap) (\<lambda>(v, ap). Inr (0, ap, [ucast v]))
      else if c0 = of_char CHR ''s'' then
        rbind (arg_str ap) (\<lambda>(v, ap). Inr (0, ap, case v of None \<Rightarrow> str ''(null)'' | Some bs \<Rightarrow> bs))
      else if c0 = of_char CHR ''%'' then Inr (0, ap, [0x25])
      else Inr (0, ap, [0x25, c0]))"

text \<open>The loop of \<^verbatim>\<open>vprintf\<close>; \<open>pct\<close> says that \<^verbatim>\<open>state\<close> is a percent sign.\<close>

function vprintf_loop :: "byte list \<Rightarrow> nat \<Rightarrow> bool \<Rightarrow> parg list \<Rightarrow> byte list result" where
  "vprintf_loop fmt i pct ap =
     (if i < length fmt then
        let c0 = fmt ! i in
        if \<not> pct then
          (if c0 = 0x25 then vprintf_loop fmt (Suc i) True ap
           else rbind (vprintf_loop fmt (Suc i) False ap) (\<lambda>out. Inr (c0 # out)))
        else
          let c1 = char_at fmt (i + 1); c2 = (if c1 \<noteq> 0 then char_at fmt (i + 2) else 0) in
          rbind (directive_u c0 c1 c2 ap) (\<lambda>(k, ap, o1).
          rbind (vprintf_loop fmt (Suc (i + k)) False ap) (\<lambda>out. Inr (o1 @ out)))
      else Inr [])"
  by pat_completeness auto
termination
  by (relation "measure (\<lambda>(fmt, i, pct, ap). length fmt - i)") auto

declare vprintf_loop.simps [simp del]

definition vprintf :: "byte list \<Rightarrow> parg list \<Rightarrow> byte list result" where
  "vprintf fmt ap = vprintf_loop fmt 0 False ap"

text \<open>\<^verbatim>\<open>fprintf(fd, ...)\<close> with its descriptor, and \<^verbatim>\<open>printf(...)\<close> on descriptor 1.\<close>

definition fprintf_u :: "int \<Rightarrow> byte list \<Rightarrow> parg list \<Rightarrow> (int \<times> byte list) result" where
  "fprintf_u fd fmt ap = rbind (vprintf fmt ap) (\<lambda>out. Inr (fd, out))"

definition printf_u :: "byte list \<Rightarrow> parg list \<Rightarrow> (int \<times> byte list) result" where
  "printf_u fmt ap = rbind (vprintf fmt ap) (\<lambda>out. Inr (1, out))"

subsection \<open>Lemmas\<close>

lemma digit_loop_u_10: "digit_loop_u 10 x buf = digit_loop 10 x buf"
proof (induction x arbitrary: buf rule: less_induct)
  case (less x)
  have "digit_char_u (x mod 10) = digit_char (x mod 10)" by (simp add: digit_char_u_def digit_char_def)
  then show ?case using less.IH by (subst digit_loop_u.simps, subst digit_loop.simps) (simp add: Let_def)
qed

lemma printint_u_digits:
  obtains ds where "printint_u xx 10 True = (if sint xx < 0 then [45] else []) @ ds"
    "int (numeral_val 10 ds) = \<bar>sint xx\<bar> mod 2 ^ 32" "set ds \<subseteq> digit_char ` {..<10}" "ds \<noteq> []"
proof -
  let ?y = "if sint xx < 0 then - xx else xx" and ?x = "ucast (if sint xx < 0 then - xx else xx) :: u32"
  have "unat ?x = unat ?y mod 2 ^ 32" by (simp add: unsigned_ucast_eq take_bit_eq_mod)
  then have ux: "int (unat ?x) = \<bar>sint xx\<bar> mod 2 ^ 32" using unat_abs_sint [of xx] by (simp add: zmod_int)
  obtain ds where ds: "digit_loop 10 (unat ?x) [] = ds" "digits_of 10 (unat ?x) ds"
    using digit_loop_digits [of 10 "unat ?x" "[]"] by auto
  have "printint_u xx 10 True = (if sint xx < 0 then [45] else []) @ rev ds"
    using ds(1) by (auto simp: printint_u_def Let_def digit_loop_u_10)
  then show ?thesis using ds(2) ux by (intro that [of "rev ds"]) (simp_all add: digits_of_def)
qed

lemma digit_bounds:
  assumes "c \<in> digit_char ` {..<10}"
  shows "0x30 \<le> c" "c \<le> 0x39" "uint c - 0x30 = int (digit_val c)"
proof -
  obtain d where d: "c = digit_char d" "d < 10" using assms by auto
  have "unat (of_nat (48 + d) :: byte) = 48 + d" by (rule unat_of_nat_small) (use d in simp)
  then have u: "unat c = 48 + d" using d unfolding digit_char_def by simp
  then show "0x30 \<le> c" "c \<le> 0x39" using d(2) by (simp_all add: word_le_nat_alt)
  show "uint c - 0x30 = int (digit_val c)" using u d(2) by (simp add: digit_val_def uint_nat)
qed

lemma foldl_digits_mono: "a \<le> foldl (\<lambda>a c. a * 10 + digit_val c) a ds"
proof (induction ds arbitrary: a)
  case Nil
  then show ?case by simp
next
  case (Cons c ds)
  have "a \<le> a * 10 + digit_val c" by simp
  also have "\<dots> \<le> foldl (\<lambda>a c. a * 10 + digit_val c) (a * 10 + digit_val c) ds" by (rule Cons.IH)
  finally show ?case by simp
qed

lemma atoi_loop_digits:
  assumes "set ds \<subseteq> digit_char ` {..<10}" "foldl (\<lambda>a c. a * 10 + digit_val c) a ds < 2 ^ 31"
  shows "atoi_loop (int a) ds = int (foldl (\<lambda>a c. a * 10 + digit_val c) a ds)"
  using assms
proof (induction ds arbitrary: a)
  case Nil
  then show ?case by simp
next
  case (Cons c ds)
  then have c: "0x30 \<le> c" "c \<le> 0x39" "uint c - 0x30 = int (digit_val c)" using digit_bounds [of c] by simp_all
  have b: "a * 10 + digit_val c < 2 ^ 31" using foldl_digits_mono [of "a * 10 + digit_val c" ds] Cons.prems(2) by simp
  have "int a * 10 + uint c - 0x30 = int (a * 10 + digit_val c)" using c(3) by simp
  moreover have "signed_take_bit 31 (int (a * 10 + digit_val c)) = int (a * 10 + digit_val c)"
    using b by (intro signed_take_bit_int_eq_self) simp_all
  ultimately have e: "signed_take_bit 31 (int a * 10 + uint c - 0x30) = int (a * 10 + digit_val c)" by argo
  have "atoi_loop (int a) (c # ds) = atoi_loop (signed_take_bit 31 (int a * 10 + uint c - 0x30)) ds" using c(1,2) by simp
  then show ?case unfolding e using Cons.IH [of "a * 10 + digit_val c"] Cons.prems by simp
qed

subsection \<open>Properties\<close>

text \<open>
  C35: \<^verbatim>\<open>printf("%ld", x)\<close> of the user library prints the sign of the 64-bit number and the decimal
  digits of its magnitude modulo 2^32: it is right for magnitudes below 2^32 and drops the upper half
  of every larger number.
\<close>

theorem user_printf_truncates:
  "\<exists>ds. vprintf (str ''%ld'') [Num xx] = Inr ((if sint xx < 0 then [45] else []) @ ds) \<and>
     int (numeral_val 10 ds) = \<bar>sint xx\<bar> mod 2 ^ 32 \<and> set ds \<subseteq> digit_char ` {..<10} \<and> ds \<noteq> []"
proof -
  obtain ds where ds: "printint_u xx 10 True = (if sint xx < 0 then [45] else []) @ ds"
    "int (numeral_val 10 ds) = \<bar>sint xx\<bar> mod 2 ^ 32" "set ds \<subseteq> digit_char ` {..<10}" "ds \<noteq> []"
    by (rule printint_u_digits)
  have "vprintf (str ''%ld'') [Num xx] = Inr (printint_u xx 10 True)"
    by (simp add: vprintf_def str_def vprintf_loop.simps directive_u_def arg_num_def char_at_def Let_def)
  then show ?thesis using ds by auto
qed

text \<open>
  C34: \<^verbatim>\<open>atoi\<close> reads back what \<^verbatim>\<open>printf("%d", n)\<close> prints, for every non-negative \<^verbatim>\<open>int\<close>.
\<close>

theorem atoi_reads_printf:
  assumes "0 \<le> n" "n < 2 ^ 31"
  shows "\<exists>out. vprintf (str ''%d'') [Num (word_of_int n)] = Inr out \<and> atoi out = n"
proof -
  have n: "sint (word_of_int n :: u64) = n" "sint (word_of_int n :: u32) = n"
    using assms by (simp_all add: sint_uint uint_word_of_int signed_take_bit_int_eq_self)
  have "(ucast (word_of_int n :: u64) :: u32) = word_of_int n"
    using assms by (simp add: word_uint_eq_iff unsigned_ucast_eq uint_word_of_int take_bit_eq_mod)
  then have "as_int (word_of_int n) = word_of_int n" using n(2) by (simp add: as_int_def)
  then have v: "vprintf (str ''%d'') [Num (word_of_int n)] = Inr (printint_u (word_of_int n) 10 True)"
    by (simp add: vprintf_def str_def vprintf_loop.simps directive_u_def arg_num_def char_at_def Let_def)
  obtain ds where ds: "printint_u (word_of_int n) 10 True = (if sint (word_of_int n :: u64) < 0 then [45] else []) @ ds"
    "int (numeral_val 10 ds) = \<bar>sint (word_of_int n :: u64)\<bar> mod 2 ^ 32" "set ds \<subseteq> digit_char ` {..<10}" "ds \<noteq> []"
    by (rule printint_u_digits)
  have "int (numeral_val 10 ds) = n" using ds(2) n(1) assms by simp
  then have "atoi ds = n" using atoi_loop_digits [OF ds(3), of 0] assms by (simp add: atoi_def numeral_val_def)
  then show ?thesis using v ds(1) n(1) assms by simp
qed

theorem atoi_reads_printf_witness:
  "\<exists>out. vprintf (str ''%d'') [Num 2025] = Inr out \<and> atoi out = 2025"
  using atoi_reads_printf [of 2025] by simp

end
