(* ===== verification/Sh_Parse.thy ===== *)
theory Sh_Parse
  imports Ulib
begin

text \<open>
  The parser of the shell, \<^verbatim>\<open>user/sh.c\<close>. The line is a C string; a pointer into it is the rest of the
  line from there on, so \<^verbatim>\<open>es\<close>, the end of the line, is the empty list, and the address of a pointer is
  the length of the line less its own. \<^verbatim>\<open>panic\<close> prints its message and ends the process, a failure of
  the result type. Memory for the commands is assumed to be there.
\<close>

subsection \<open>Commands\<close>

abbreviation (input) MAXARGS :: nat where "MAXARGS \<equiv> 10"

type_synonym ptr = "byte list"

text \<open>
  A word of a command is given, while the line is parsed, by the pointers to its start and its end, and
  later by the C string at its start.
\<close>

datatype 'w cmd =
    EXEC "'w list"
  | REDIR "'w cmd" 'w int int
  | PIPE "'w cmd" "'w cmd"
  | LIST "'w cmd" "'w cmd"
  | BACK "'w cmd"

type_synonym pcmd = "(ptr \<times> ptr) cmd"

text \<open>The constructors, which only allocate and fill a structure.\<close>

abbreviation (input) execcmd :: pcmd where "execcmd \<equiv> EXEC []"
abbreviation (input) redircmd :: "pcmd \<Rightarrow> ptr \<Rightarrow> ptr \<Rightarrow> int \<Rightarrow> int \<Rightarrow> pcmd" where
  "redircmd c q eq m fd \<equiv> REDIR c (q, eq) m fd"
abbreviation (input) pipecmd :: "pcmd \<Rightarrow> pcmd \<Rightarrow> pcmd" where "pipecmd l r \<equiv> PIPE l r"
abbreviation (input) listcmd :: "pcmd \<Rightarrow> pcmd \<Rightarrow> pcmd" where "listcmd l r \<equiv> LIST l r"
abbreviation (input) backcmd :: "pcmd \<Rightarrow> pcmd" where "backcmd c \<equiv> BACK c"

text \<open>Modes of \<^verbatim>\<open>open\<close>.\<close>

abbreviation (input) O_RDONLY_u :: int where "O_RDONLY_u \<equiv> 0"
abbreviation (input) O_WR_CREATE_TRUNC :: int where "O_WR_CREATE_TRUNC \<equiv> 0x601"
abbreviation (input) O_WR_CREATE :: int where "O_WR_CREATE \<equiv> 0x201"

subsection \<open>Tokens\<close>

definition whitespace :: "byte list" where
  "whitespace = [0x20, 0x09, 0x0D, 0x0A, 0x0B]"

definition symbols :: "byte list" where
  "symbols = [0x3C, 0x7C, 0x3E, 0x26, 0x3B, 0x28, 0x29]"

text \<open>\<^verbatim>\<open>while(s < es && strchr(whitespace, *s)) s++;\<close>\<close>

definition skip_white :: "ptr \<Rightarrow> ptr" where
  "skip_white s = dropWhile (\<lambda>c. strchr whitespace c \<noteq> None) s"

definition in_word :: "byte \<Rightarrow> bool" where
  "in_word c \<longleftrightarrow> strchr whitespace c = None \<and> strchr symbols c = None"

text \<open>The token, \<^verbatim>\<open>*q\<close>, \<^verbatim>\<open>*eq\<close> and \<^verbatim>\<open>*ps\<close>.\<close>

definition gettoken :: "ptr \<Rightarrow> byte \<times> ptr \<times> ptr \<times> ptr" where
  "gettoken ps =
     (let s = skip_white ps;
          (ret, eq) =
            (case s of
               [] \<Rightarrow> (0, s)
             | c # r \<Rightarrow>
                 if c = 0 then (0, s)
                 else if c = 0x7C \<or> c = 0x28 \<or> c = 0x29 \<or> c = 0x3B \<or> c = 0x26 \<or> c = 0x3C then (c, r)
                 else if c = 0x3E then
                   (case r of d # r' \<Rightarrow> if d = 0x3E then (0x2B, r') else (c, r) | [] \<Rightarrow> (c, r))
                 else (0x61, dropWhile in_word s)) in
      (ret, s, eq, skip_white eq))"

definition peek :: "byte list \<Rightarrow> ptr \<Rightarrow> bool \<times> ptr" where
  "peek toks ps =
     (let s = skip_white ps in
      (case s of [] \<Rightarrow> False | c # _ \<Rightarrow> strchr toks c \<noteq> None, s))"

lemma skip_white_le: "length (skip_white s) \<le> length s"
  by (simp add: skip_white_def length_dropWhile_le)

lemma peek_le: "peek toks s = (r, s') \<Longrightarrow> length s' \<le> length s"
  by (auto simp: peek_def Let_def skip_white_le)

text \<open>Every token but the end of the line takes at least one character.\<close>

lemma skip_white_first: "skip_white s = c # r \<Longrightarrow> strchr whitespace c = None"
  unfolding skip_white_def by (metis (mono_tags, lifting) dropWhile_eq_Cons_conv)

lemma in_word_other:
  assumes "strchr whitespace c = None" "c \<notin> set symbols" "c \<noteq> 0"
  shows "in_word c"
  using assms by (simp add: in_word_def symbols_def)

lemma gettoken_less:
  assumes g: "gettoken s = (t, q, eq, s')" and t: "t \<noteq> 0"
  shows "length s' < length s"
proof (cases "skip_white s")
  case Nil
  then show ?thesis using g t by (simp add: gettoken_def)
next
  case (Cons c r)
  have "length eq \<le> length r"
  proof (cases "c \<in> set symbols \<or> c = 0")
    case True
    then show ?thesis using g t Cons by (auto simp: gettoken_def symbols_def Let_def split: list.splits if_splits)
  next
    case False
    then have "in_word c" using in_word_other skip_white_first [OF Cons] by blast
    then show ?thesis using g t Cons False
      by (auto simp: gettoken_def symbols_def Let_def length_dropWhile_le split: if_splits)
  qed
  moreover have "s' = skip_white eq" using g by (auto simp: gettoken_def Let_def split: prod.splits)
  moreover have "length (c # r) \<le> length s" using skip_white_le [of s] Cons by simp
  ultimately show ?thesis using skip_white_le [of eq] by simp
qed

lemma gettoken_le: "gettoken s = (t, q, eq, s') \<Longrightarrow> length s' \<le> length s"
proof (cases "t = 0")
  case True
  assume g: "gettoken s = (t, q, eq, s')"
  then have "eq = skip_white s" "s' = skip_white eq"
    using True by (auto simp: gettoken_def Let_def split: list.splits if_splits)
  then show ?thesis using skip_white_le [of s] skip_white_le [of eq] by simp
next
  case False
  assume "gettoken s = (t, q, eq, s')"
  then show ?thesis using gettoken_less False by fastforce
qed

text \<open>A token that \<^verbatim>\<open>peek\<close> saw is there.\<close>

lemma strchr_zero: "strchr s 0 = None"
  by (induction s) auto

lemma gettoken_peeked:
  assumes "peek toks s = (True, s1)" "gettoken s1 = (t, q, eq, s')"
  shows "length s' < length s"
proof -
  obtain c r where s1: "skip_white s = c # r" "s1 = c # r" "strchr toks c \<noteq> None"
    using assms(1) by (auto simp: peek_def Let_def split: list.splits)
  have "skip_white s1 = s1" using s1 skip_white_first [OF s1(1)] by (simp add: skip_white_def)
  moreover have "c \<noteq> 0" using s1(3) strchr_zero by metis
  ultimately have "t \<noteq> 0" using assms(2) s1(2) by (auto simp: gettoken_def Let_def split: list.splits if_splits)
  then have "length s' < length s1" using gettoken_less assms(2) by blast
  moreover have "length s1 \<le> length s" using skip_white_le [of s] s1 by simp
  ultimately show ?thesis by simp
qed

subsection \<open>Parsing\<close>

text \<open>What a redirection adds to the command; every other token leaves it as it is.\<close>

definition redirected :: "byte \<Rightarrow> ptr \<Rightarrow> ptr \<Rightarrow> pcmd \<Rightarrow> pcmd" where
  "redirected tok q eq c =
     (if tok = 0x3C then redircmd c q eq O_RDONLY_u 0
      else if tok = 0x3E then redircmd c q eq O_WR_CREATE_TRUNC 1
      else if tok = 0x2B then redircmd c q eq O_WR_CREATE 1
      else c)"

function parseredirs :: "pcmd \<Rightarrow> ptr \<Rightarrow> (pcmd \<times> ptr) result" where
  "parseredirs c s =
     (let (p, s1) = peek [0x3C, 0x3E] s in
      if p then
        let (tok, _, _, s2) = gettoken s1; (t, q, eq, s3) = gettoken s2 in
        if t \<noteq> 0x61 then Inl (Panic ''missing file for redirection'')
        else parseredirs (redirected tok q eq c) s3
      else Inr (c, s1))"
  by pat_completeness auto
termination
proof (relation "measure (\<lambda>(c, s). length s)", goal_cases)
  case (2 c s p x s1 r tok r1 q1 r2 eq1 s2 r3 t r4 q r5 eq s3)
  then have "peek [0x3C, 0x3E] s = (True, s1)" "gettoken s1 = (tok, q1, eq1, s2)" "gettoken s2 = (t, q, eq, s3)"
    by auto
  then show ?case using gettoken_peeked gettoken_le by fastforce
qed simp

declare parseredirs.simps [simp del]

text \<open>
  \<^verbatim>\<open>parseexec\<close> adds an argument to the \<^verbatim>\<open>execcmd\<close> that it has allocated, which redirections may have
  wrapped meanwhile.
\<close>

fun add_arg :: "ptr \<times> ptr \<Rightarrow> pcmd \<Rightarrow> pcmd" where
  "add_arg a (EXEC as) = EXEC (as @ [a])"
| "add_arg a (REDIR c w m fd) = REDIR (add_arg a c) w m fd"
| "add_arg a c = c"

function parse_args :: "nat \<Rightarrow> pcmd \<Rightarrow> ptr \<Rightarrow> (pcmd \<times> ptr) result" where
  "parse_args argc c s =
     (let (p, s1) = peek [0x7C, 0x29, 0x26, 0x3B] s in
      if p then Inr (c, s1)
      else
        let (tok, q, eq, s2) = gettoken s1 in
        if tok = 0 then Inr (c, s2)
        else if tok \<noteq> 0x61 then Inl (Panic ''syntax'')
        else if Suc argc \<ge> MAXARGS then Inl (Panic ''too many args'')
        else rbind (parseredirs (add_arg (q, eq) c) s2) (\<lambda>(c, s3). parse_args (Suc argc) c s3))"
  by pat_completeness auto
termination
  by (relation "measure (\<lambda>(argc, c, s). MAXARGS - argc)") auto

declare parse_args.simps [simp del]

text \<open>
  The functions of the recursive descent take \<^verbatim>\<open>parseline\<close>, which they call for a block, as an argument;
  the natural numbers bound the depth of the recursion.
\<close>

definition parseblock :: "(ptr \<Rightarrow> (pcmd \<times> ptr) result) \<Rightarrow> ptr \<Rightarrow> (pcmd \<times> ptr) result" where
  "parseblock pl s =
     (let (p, s) = peek [0x28] s in
      if \<not> p then Inl (Panic ''parseblock'')
      else
        let (_, _, _, s) = gettoken s in
        rbind (pl s) (\<lambda>(c, s).
        let (p, s) = peek [0x29] s in
        if \<not> p then Inl (Panic ''syntax - missing )'')
        else let (_, _, _, s) = gettoken s in parseredirs c s))"

definition parseexec :: "(ptr \<Rightarrow> (pcmd \<times> ptr) result) \<Rightarrow> ptr \<Rightarrow> (pcmd \<times> ptr) result" where
  "parseexec pl s =
     (let (p, s) = peek [0x28] s in
      if p then parseblock pl s
      else rbind (parseredirs execcmd s) (\<lambda>(c, s). parse_args 0 c s))"

primrec parsepipe :: "(ptr \<Rightarrow> (pcmd \<times> ptr) result) \<Rightarrow> nat \<Rightarrow> ptr \<Rightarrow> (pcmd \<times> ptr) result" where
  "parsepipe pl 0 s = Inl Spinning"
| "parsepipe pl (Suc n) s =
     rbind (parseexec pl s) (\<lambda>(c, s).
     let (p, s) = peek [0x7C] s in
     if p then
       let (_, _, _, s) = gettoken s in
       rbind (parsepipe pl n s) (\<lambda>(r, s). Inr (pipecmd c r, s))
     else Inr (c, s))"

text \<open>\<^verbatim>\<open>while(peek(ps, es, "&")) { gettoken(ps, es, 0, 0); cmd = backcmd(cmd); }\<close>\<close>

function back_loop :: "pcmd \<Rightarrow> ptr \<Rightarrow> pcmd \<times> ptr" where
  "back_loop c s =
     (let (p, s1) = peek [0x26] s in
      if p then let (_, _, _, s2) = gettoken s1 in back_loop (backcmd c) s2 else (c, s1))"
  by pat_completeness auto
termination
  by (relation "measure (\<lambda>(c, s). length s)") (auto intro: gettoken_peeked [OF sym sym])

declare back_loop.simps [simp del]

primrec parseline :: "nat \<Rightarrow> ptr \<Rightarrow> (pcmd \<times> ptr) result" where
  "parseline 0 s = Inl Spinning"
| "parseline (Suc n) s =
     rbind (parsepipe (parseline n) n s) (\<lambda>(c, s).
     let (c, s) = back_loop c s; (p, s) = peek [0x3B] s in
     if p then
       let (_, _, _, s) = gettoken s in
       rbind (parseline n s) (\<lambda>(r, s). Inr (listcmd c r, s))
     else Inr (c, s))"

text \<open>
  \<^verbatim>\<open>nulterminate\<close> on the buffer of the line and its terminating 0: a 0 is stored where a pointer points
  to, at the length of the line less the length of what follows.
\<close>

definition store0 :: "ptr \<Rightarrow> byte list \<Rightarrow> byte list" where
  "store0 p buf = buf[length buf - 1 - length p := 0]"

primrec nulterminate :: "pcmd \<Rightarrow> byte list \<Rightarrow> byte list" where
  "nulterminate (EXEC as) buf = fold (\<lambda>w. store0 (snd w)) as buf"
| "nulterminate (REDIR c w m fd) buf = store0 (snd w) (nulterminate c buf)"
| "nulterminate (PIPE l r) buf = nulterminate r (nulterminate l buf)"
| "nulterminate (LIST l r) buf = nulterminate r (nulterminate l buf)"
| "nulterminate (BACK c) buf = nulterminate c buf"

text \<open>The C string that the buffer holds at the start of a word.\<close>

definition string_at :: "byte list \<Rightarrow> ptr \<times> ptr \<Rightarrow> byte list" where
  "string_at buf w = takeWhile (\<lambda>c. c \<noteq> 0) (drop (length buf - 1 - length (fst w)) buf)"

text \<open>The command and the buffer that \<^verbatim>\<open>parsecmd\<close> leaves; before the last panic it prints what is left over.\<close>

definition parsecmd :: "ptr \<Rightarrow> (pcmd \<times> byte list) result" where
  "parsecmd s =
     rbind (parseline (length s + 2) s) (\<lambda>(c, s').
     let (_, s') = peek [] s' in
     if s' \<noteq> [] then Inl (Panic ''syntax'') else Inr (c, nulterminate c (s @ [0])))"

end
