(* ===== verification/Sh_Ends.thy ===== *)
theory Sh_Ends
  imports Sh_Parse
begin

text \<open>
  The shell's parser ends on every line: every round of its loops and of its recursion takes at least
  one character, so that a depth of two more than the length of the line is enough.
\<close>

subsection \<open>Termination\<close>

text \<open>A part of the parser has ended: with an error, or with a rest of at most \<open>k\<close> characters.\<close>

definition ended :: "nat \<Rightarrow> (pcmd \<times> ptr) result \<Rightarrow> bool" where
  "ended k r = (case r of Inl e \<Rightarrow> e \<noteq> Spinning | Inr (c, s) \<Rightarrow> length s \<le> k)"

lemma ended_simps [simp]:
  "ended k (Inl e) \<longleftrightarrow> e \<noteq> Spinning"
  "ended k (Inr (c, s)) \<longleftrightarrow> length s \<le> k"
  by (simp_all add: ended_def)

lemma ended_mono: "ended k r \<Longrightarrow> k \<le> l \<Longrightarrow> ended l r"
  by (auto simp: ended_def split: sum.splits)

lemma ended_bind:
  assumes "ended k r" "\<And>c s. r = Inr (c, s) \<Longrightarrow> length s \<le> k \<Longrightarrow> ended l (f (c, s))"
  shows "ended l (rbind r f)"
  using assms by (cases r) auto

lemma parseredirs_ended: "ended (length s) (parseredirs c s)"
proof (induction c s rule: parseredirs.induct)
  case (1 c s)
  obtain p s1 where p: "peek [0x3C, 0x3E] s = (p, s1)" by fastforce
  obtain tok q1 eq1 s2 where g1: "gettoken s1 = (tok, q1, eq1, s2)" by (cases "gettoken s1") auto
  obtain t q eq s3 where g2: "gettoken s2 = (t, q, eq, s3)" by (cases "gettoken s2") auto
  have le: "length s3 \<le> length s" "length s1 \<le> length s"
    using peek_le [OF p] gettoken_le [OF g1] gettoken_le [OF g2] by simp_all
  show ?case
    using 1 [OF p [symmetric] refl _ g1 [symmetric] refl refl refl g2 [symmetric] refl refl refl] le
    by (subst parseredirs.simps) (auto simp: p g1 g2 intro: ended_mono)
qed

lemma parse_args_ended: "ended (length s) (parse_args argc c s)"
proof (induction argc c s rule: parse_args.induct)
  case (1 argc c s)
  obtain p s1 where p: "peek [0x7C, 0x29, 0x26, 0x3B] s = (p, s1)" by fastforce
  obtain tok q eq s2 where g: "gettoken s1 = (tok, q, eq, s2)" by (cases "gettoken s1") auto
  have le: "length s1 \<le> length s" "length s2 \<le> length s"
    using peek_le [OF p] gettoken_le [OF g] by simp_all
  have "ended (length s) (rbind (parseredirs (add_arg (q, eq) c) s2) (\<lambda>(c, s3). parse_args (Suc argc) c s3))"
    if "\<not> p" "tok \<noteq> 0" "\<not> tok \<noteq> 0x61" "\<not> Suc argc \<ge> MAXARGS"
  proof (rule ended_bind [OF parseredirs_ended])
    fix c' and s3 :: ptr
    assume r: "parseredirs (add_arg (q, eq) c) s2 = Inr (c', s3)" and "length s3 \<le> length s2"
    then show "ended (length s) (case (c', s3) of (c, s3) \<Rightarrow> parse_args (Suc argc) c s3)"
      using 1 [OF p [symmetric] refl that(1) g [symmetric] refl refl refl that(2-4) r refl] le(2)
      by (auto intro: ended_mono)
  qed
  then show ?case using le by (subst parse_args.simps) (auto simp: p g)
qed

lemma parseblock_ended:
  assumes pl: "\<And>s'. length s' < length s \<Longrightarrow> ended (length s') (pl s')"
  shows "ended (length s) (parseblock pl s)"
proof -
  obtain p s1 where p: "peek [0x28] s = (p, s1)" by fastforce
  obtain tok q eq s2 where g: "gettoken s1 = (tok, q, eq, s2)" by (cases "gettoken s1") auto
  show ?thesis
  proof (cases p)
    case True
    then have l: "length s2 < length s" using gettoken_peeked p g by simp
    have "ended (length s) (rbind (pl s2) (\<lambda>(c, s).
        let (p, s) = peek [0x29] s in
        if \<not> p then Inl (Panic ''syntax - missing )'')
        else let (_, _, _, s) = gettoken s in parseredirs c s))"
    proof (rule ended_bind [OF pl [OF l]])
      fix c and s3 :: ptr assume s3: "length s3 \<le> length s2"
      obtain p4 s4 where p4: "peek [0x29] s3 = (p4, s4)" by fastforce
      obtain tok q eq s5 where g5: "gettoken s4 = (tok, q, eq, s5)" by (cases "gettoken s4") auto
      have "length s5 \<le> length s" using peek_le [OF p4] gettoken_le [OF g5] s3 l by simp
      then show "ended (length s) (case (c, s3) of (c, s) \<Rightarrow>
          let (p, s) = peek [0x29] s in
          if \<not> p then Inl (Panic ''syntax - missing )'')
          else let (_, _, _, s) = gettoken s in parseredirs c s)"
        using ended_mono [OF parseredirs_ended] by (simp add: p4 g5)
    qed
    then show ?thesis using True by (simp add: parseblock_def p g)
  qed (simp add: parseblock_def p)
qed

lemma peek_peek: "peek toks s = (p, s1) \<Longrightarrow> skip_white s1 = s1"
  by (auto simp: peek_def skip_white_def Let_def dropWhile_idem)

lemma parseexec_ended:
  assumes pl: "\<And>s'. length s' < length s \<Longrightarrow> ended (length s') (pl s')"
  shows "ended (length s) (parseexec pl s)"
proof -
  obtain p s1 where p: "peek [0x28] s = (p, s1)" by fastforce
  have l: "length s1 \<le> length s" by (rule peek_le [OF p])
  have "ended (length s) (rbind (parseredirs (EXEC []) s1) (\<lambda>(c, s). parse_args 0 c s))"
    by (rule ended_bind [OF parseredirs_ended]) (use l in \<open>auto intro: ended_mono [OF parse_args_ended]\<close>)
  moreover have "ended (length s) (parseblock pl s1)"
    using parseblock_ended [of s1 pl] pl l by (auto intro: ended_mono)
  ultimately show ?thesis by (simp add: parseexec_def p)
qed

lemma parsepipe_ended:
  assumes pl: "\<And>s'. length s' < length s \<Longrightarrow> ended (length s') (pl s')" and n: "length s < n"
  shows "ended (length s) (parsepipe pl n s)"
  using assms
proof (induction n arbitrary: s)
  case (Suc n)
  have "ended (length s) (rbind (parseexec pl s) (\<lambda>(c, s).
     let (p, s) = peek [0x7C] s in
     if p then
       let (_, _, _, s) = gettoken s in
       rbind (parsepipe pl n s) (\<lambda>(r, s). Inr (PIPE c r, s))
     else Inr (c, s)))"
  proof (rule ended_bind [OF parseexec_ended [OF Suc.prems(1)]])
    fix c and s1 :: ptr assume s1: "length s1 \<le> length s"
    obtain p s2 where p: "peek [0x7C] s1 = (p, s2)" by fastforce
    obtain tok q eq s3 where g: "gettoken s2 = (tok, q, eq, s3)" by (cases "gettoken s2") auto
    have "ended (length s) (rbind (parsepipe pl n s3) (\<lambda>(r, s). Inr (PIPE c r, s)))" if p
    proof -
      have l: "length s3 < length s" using gettoken_peeked p g that s1 by fastforce
      have "ended (length s3) (parsepipe pl n s3)" using Suc.IH [of s3] Suc.prems l by simp
      then show ?thesis by (rule ended_bind) (use l in simp)
    qed
    then show "ended (length s) (case (c, s1) of (c, s) \<Rightarrow>
       let (p, s) = peek [0x7C] s in
       if p then
         let (_, _, _, s) = gettoken s in
         rbind (parsepipe pl n s) (\<lambda>(r, s). Inr (PIPE c r, s))
       else Inr (c, s))" using peek_le [OF p] s1 by (auto simp: p g)
  qed
  then show ?case by simp
qed simp

lemma back_loop_le: "back_loop c s = (c', s') \<Longrightarrow> length s' \<le> length s"
proof (induction c s rule: back_loop.induct)
  case (1 c s)
  obtain p s1 where p: "peek [0x26] s = (p, s1)" by fastforce
  obtain tok q eq s2 where g: "gettoken s1 = (tok, q, eq, s2)" by (cases "gettoken s1") auto
  have "length s1 \<le> length s" "length s2 \<le> length s1" by (rule peek_le [OF p], rule gettoken_le [OF g])
  then show ?case
    using 1(1) [OF p [symmetric] refl _ g [symmetric] refl refl refl] 1(2)
    by (subst (asm) (2) back_loop.simps) (auto simp: p g split: if_splits)
qed

lemma parseline_ended: "length s + 1 < n \<Longrightarrow> ended (length s) (parseline n s)"
proof (induction n arbitrary: s)
  case (Suc n)
  have "ended (length s) (rbind (parsepipe (parseline n) n s) (\<lambda>(c, s).
     let (c, s) = back_loop c s; (p, s) = peek [0x3B] s in
     if p then
       let (_, _, _, s) = gettoken s in
       rbind (parseline n s) (\<lambda>(r, s). Inr (LIST c r, s))
     else Inr (c, s)))"
  proof (rule ended_bind)
    show "ended (length s) (parsepipe (parseline n) n s)"
      by (rule parsepipe_ended) (use Suc in auto)
    fix c and s1 :: ptr assume s1: "length s1 \<le> length s"
    obtain c2 s2 where b: "back_loop c s1 = (c2, s2)" by fastforce
    obtain p s3 where p: "peek [0x3B] s2 = (p, s3)" by fastforce
    obtain tok q eq s4 where g: "gettoken s3 = (tok, q, eq, s4)" by (cases "gettoken s3") auto
    have l3: "length s3 \<le> length s" using peek_le [OF p] back_loop_le [OF b] s1 by simp
    have "ended (length s) (rbind (parseline n s4) (\<lambda>(r, s). Inr (LIST c2 r, s)))" if p
    proof -
      have l: "length s4 < length s" using gettoken_peeked p g that s1 back_loop_le [OF b] by fastforce
      have "ended (length s4) (parseline n s4)" using Suc l by simp
      then show ?thesis by (rule ended_bind) (use l in simp)
    qed
    then show "ended (length s) (case (c, s1) of (c, s) \<Rightarrow>
       let (c, s) = back_loop c s; (p, s) = peek [0x3B] s in
       if p then
         let (_, _, _, s) = gettoken s in
         rbind (parseline n s) (\<lambda>(r, s). Inr (LIST c r, s))
       else Inr (c, s))" using l3 by (auto simp: b p g)
  qed
  then show ?case by simp
qed simp

text \<open>The bound on the depth does not matter once it exceeds the length of the line by two.\<close>

lemma parseblock_cong:
  assumes "\<And>s'. length s' < length s \<Longrightarrow> pl s' = pl' s'"
  shows "parseblock pl s = parseblock pl' s"
proof -
  obtain p s1 where p: "peek [0x28] s = (p, s1)" by fastforce
  obtain tok q eq s2 where g: "gettoken s1 = (tok, q, eq, s2)" by (cases "gettoken s1") auto
  have "p \<Longrightarrow> pl s2 = pl' s2" using gettoken_peeked p g assms by simp
  then show ?thesis by (simp add: parseblock_def p g)
qed

lemma parseexec_cong:
  assumes "\<And>s'. length s' < length s \<Longrightarrow> pl s' = pl' s'"
  shows "parseexec pl s = parseexec pl' s"
proof -
  obtain p s1 where p: "peek [0x28] s = (p, s1)" by fastforce
  have "parseblock pl s1 = parseblock pl' s1"
    by (rule parseblock_cong) (use assms peek_le [OF p] in simp)
  then show ?thesis by (simp add: parseexec_def p)
qed

lemma rest_le: "ended k r \<Longrightarrow> r = Inr (c, s) \<Longrightarrow> length s \<le> k"
  by simp

lemma parsepipe_fuel:
  assumes "\<And>s'. length s' < length s \<Longrightarrow> pl s' = pl' s' \<and> ended (length s') (pl s')"
    and "length s < n" "length s < m"
  shows "parsepipe pl n s = parsepipe pl' m s"
  using assms
proof (induction n arbitrary: s m)
  case (Suc n)
  obtain m' where m: "m = Suc m'" using Suc.prems(3) by (cases m) auto
  have e: "parseexec pl s = parseexec pl' s" by (rule parseexec_cong) (use Suc.prems(1) in blast)
  have en: "ended (length s) (parseexec pl s)" by (rule parseexec_ended) (use Suc.prems(1) in blast)
  have "rbind (parsepipe pl n s3) f = rbind (parsepipe pl' m' s3) f"
    if r: "parseexec pl s = Inr (c, s1)" and p: "peek [0x7C] s1 = (True, s2)" "gettoken s2 = (tok, q, eq, s3)"
    for c s1 s2 tok q eq s3 and f :: "pcmd \<times> ptr \<Rightarrow> (pcmd \<times> ptr) result"
  proof -
    have l: "length s3 < length s" using gettoken_peeked [OF p] rest_le [OF en r] by simp
    then have "\<And>s'. length s' < length s3 \<Longrightarrow> pl s' = pl' s' \<and> ended (length s') (pl s')"
      using Suc.prems(1) less_trans by blast
    then have "parsepipe pl n s3 = parsepipe pl' m' s3"
      by (rule Suc.IH) (use Suc.prems(2,3) m l in auto)
    then show ?thesis by simp
  qed
  then show ?case unfolding m parsepipe.simps e [symmetric]
    by (intro rbind_cong) (auto simp: Let_def split: prod.split)
qed simp

lemma parseline_fuel:
  assumes "length s + 1 < n" "length s + 1 < m"
  shows "parseline n s = parseline m s"
  using assms
proof (induction n arbitrary: s m)
  case (Suc n)
  obtain m' where m: "m = Suc m'" using Suc.prems(2) by (cases m) auto
  have e: "parsepipe (parseline n) n s = parsepipe (parseline m') m' s"
    by (rule parsepipe_fuel) (use Suc m parseline_ended in auto)
  have en: "ended (length s) (parsepipe (parseline n) n s)"
    by (rule parsepipe_ended) (use Suc.prems parseline_ended in auto)
  have "rbind (parseline n s4) f = rbind (parseline m' s4) f"
    if r: "parsepipe (parseline n) n s = Inr (c, s1)" and b: "back_loop c s1 = (c2, s2)"
      and p: "peek [0x3B] s2 = (True, s3)" "gettoken s3 = (tok, q, eq, s4)"
    for c s1 c2 s2 s3 tok q eq s4 and f :: "pcmd \<times> ptr \<Rightarrow> (pcmd \<times> ptr) result"
  proof -
    have "length s4 < length s" using gettoken_peeked [OF p] back_loop_le [OF b] rest_le [OF en r] by simp
    then show ?thesis using Suc.IH [of s4 m'] Suc.prems m by simp
  qed
  then show ?case unfolding m parseline.simps e [symmetric]
    by (intro rbind_cong) (auto simp: Let_def split: prod.split)
qed simp

subsection \<open>Property\<close>

text \<open>
  C37: the parser ends on every line, however its brackets nest: with a depth of two more than the length
  of the line it returns a command or a syntax error, and any larger depth gives the same result.
\<close>

theorem sh_parse_ends:
  "parsecmd line \<noteq> Inl Spinning \<and> parseline (length line + 2 + k) line = parseline (length line + 2) line"
proof -
  have "ended (length line) (parseline (length line + 2) line)" by (rule parseline_ended) simp
  then have "parseline (length line + 2) line \<noteq> Inl Spinning" by auto
  then have "parsecmd line \<noteq> Inl Spinning"
    by (auto simp: parsecmd_def rbind_Inl_iff Let_def split: prod.splits if_splits)
  then show ?thesis using parseline_fuel [of line "length line + 2 + k" "length line + 2"] by simp
qed

end
