(* ===== verification/Sh_Words.thy ===== *)
theory Sh_Words
  imports Sh_Parse "HOL-Library.Sublist"
begin

text \<open>
  The words of the commands that the shell's parser returns: \<^verbatim>\<open>nulterminate\<close> makes C strings of exactly
  the words of the line, and a command that is written out with brackets is read back as it is.
\<close>

subsection \<open>Tokens\<close>

text \<open>The pointers \<open>w\<close> enclose a word of the line: a longest run of characters that are neither white space nor symbols.\<close>

definition token :: "ptr \<Rightarrow> ptr \<times> ptr \<Rightarrow> bool" where
  "token line w \<longleftrightarrow> suffix (fst w) line \<and>
     (\<exists>u. fst w = u @ snd w \<and> u \<noteq> [] \<and> (\<forall>c\<in>set u. in_word c) \<and> (snd w = [] \<or> \<not> in_word (hd (snd w))))"

definition word_of :: "ptr \<times> ptr \<Rightarrow> byte list" where
  "word_of w = take (length (fst w) - length (snd w)) (fst w)"

lemma token_suffix: "token s w \<Longrightarrow> suffix s line \<Longrightarrow> token line w"
  unfolding token_def using suffix_order.trans by blast

lemma skip_white_suffix: "suffix (skip_white s) s"
  unfolding skip_white_def by (rule suffix_dropWhile)

lemma peek_suffix: "peek toks s = (p, s') \<Longrightarrow> suffix s' s"
  using skip_white_suffix by (auto simp: peek_def Let_def)

lemma gettoken_suffix:
  assumes "gettoken s = (t, q, eq, s')"
  shows "suffix s' s"
proof -
  have q: "q = skip_white s" "s' = skip_white eq" using assms by (auto simp: gettoken_def Let_def split: prod.splits)
  have "suffix eq q"
    using assms suffix_dropWhile [of in_word q]
    by (auto simp: gettoken_def Let_def q(1) suffix_Cons split: list.splits if_splits)
  then show ?thesis using q skip_white_suffix suffix_order.trans by metis
qed

lemma gettoken_token:
  assumes g: "gettoken s = (0x61, q, eq, s')"
  shows "token s (q, eq)"
proof -
  obtain c r where s: "skip_white s = c # r" using g by (auto simp: gettoken_def Let_def split: list.splits)
  have q: "q = c # r" using g s by (auto simp: gettoken_def Let_def split: prod.splits)
  have c: "c \<notin> set symbols \<and> c \<noteq> 0 \<and> eq = dropWhile in_word (c # r)"
    using g s by (auto simp: gettoken_def symbols_def Let_def split: if_splits list.splits)
  then have w: "in_word c" using in_word_other skip_white_first [OF s] by blast
  have "q = takeWhile in_word q @ eq" using c q by simp
  moreover have "takeWhile in_word q \<noteq> []" using w q by simp
  moreover have "\<forall>c\<in>set (takeWhile in_word q). in_word c" by (auto dest: set_takeWhileD)
  moreover have "eq = [] \<or> \<not> in_word (hd eq)" using c hd_dropWhile by metis
  moreover have "suffix q s" using skip_white_suffix [of s] s q by simp
  ultimately show ?thesis unfolding token_def fst_conv snd_conv by blast
qed

text \<open>The words of a command are words of the line, and its redirections are of the input or the output.\<close>

primrec std_redirs :: "'w cmd \<Rightarrow> bool" where
  "std_redirs (EXEC ws) \<longleftrightarrow> True"
| "std_redirs (REDIR c w m fd) \<longleftrightarrow> fd \<in> {0, 1} \<and> std_redirs c"
| "std_redirs (PIPE l r) \<longleftrightarrow> std_redirs l \<and> std_redirs r"
| "std_redirs (LIST l r) \<longleftrightarrow> std_redirs l \<and> std_redirs r"
| "std_redirs (BACK c) \<longleftrightarrow> std_redirs c"

lemma std_redirs_map [simp]: "std_redirs (map_cmd f c) = std_redirs c"
  by (induction c) auto

definition parsed :: "ptr \<Rightarrow> pcmd \<Rightarrow> bool" where
  "parsed line c \<longleftrightarrow> (\<forall>w\<in>set_cmd c. token line w) \<and> std_redirs c"

lemma parsed_simps [simp]:
  "parsed line (EXEC [])"
  "parsed line (PIPE l r) \<longleftrightarrow> parsed line l \<and> parsed line r"
  "parsed line (LIST l r) \<longleftrightarrow> parsed line l \<and> parsed line r"
  "parsed line (BACK c) \<longleftrightarrow> parsed line c"
  by (auto simp: parsed_def)

lemma parsed_redirected: "parsed line c \<Longrightarrow> token line (q, eq) \<Longrightarrow> parsed line (redirected tok q eq c)"
  by (auto simp: parsed_def redirected_def)

lemma parsed_add_arg: "parsed line c \<Longrightarrow> token line a \<Longrightarrow> parsed line (add_arg a c)"
  by (induction a c rule: add_arg.induct) (auto simp: parsed_def)

text \<open>A part of the parser returns a command whose words, like the rest of the line, lie in the line.\<close>

definition within :: "ptr \<Rightarrow> (pcmd \<times> ptr) result \<Rightarrow> bool" where
  "within line r = (case r of Inl e \<Rightarrow> True | Inr (c, s) \<Rightarrow> suffix s line \<and> parsed line c)"

lemma within_simps [simp]:
  "within line (Inl e)"
  "within line (Inr (c, s)) \<longleftrightarrow> suffix s line \<and> parsed line c"
  by (simp_all add: within_def)

lemma within_bind:
  assumes "within line r"
    "\<And>c s. r = Inr (c, s) \<Longrightarrow> suffix s line \<Longrightarrow> parsed line c \<Longrightarrow> within line (f (c, s))"
  shows "within line (rbind r f)"
  using assms by (cases r) auto

lemma parseredirs_within:
  assumes "suffix s line" "parsed line c"
  shows "within line (parseredirs c s)"
  using assms
proof (induction c s rule: parseredirs.induct)
  case (1 c s)
  obtain p s1 where p: "peek [0x3C, 0x3E] s = (p, s1)" by fastforce
  obtain tok q1 eq1 s2 where g1: "gettoken s1 = (tok, q1, eq1, s2)" by (cases "gettoken s1") auto
  obtain t q eq s3 where g2: "gettoken s2 = (t, q, eq, s3)" by (cases "gettoken s2") auto
  have s: "suffix s1 line" "suffix s2 line" "suffix s3 line"
    using peek_suffix [OF p] gettoken_suffix [OF g1] gettoken_suffix [OF g2] 1(2) suffix_order.trans by metis+
  have "parsed line (redirected tok q eq c)" if "t = 0x61"
    using parsed_redirected [OF 1(3)] token_suffix [OF _ s(2)] gettoken_token g2 that by blast
  then show ?case
    using 1(1) [OF p [symmetric] refl _ g1 [symmetric] refl refl refl g2 [symmetric] refl refl refl] s 1(3)
    by (subst parseredirs.simps) (auto simp: p g1 g2)
qed

lemma parse_args_within:
  assumes "suffix s line" "parsed line c"
  shows "within line (parse_args argc c s)"
  using assms
proof (induction argc c s rule: parse_args.induct)
  case (1 argc c s)
  obtain p s1 where p: "peek [0x7C, 0x29, 0x26, 0x3B] s = (p, s1)" by fastforce
  obtain tok q eq s2 where g: "gettoken s1 = (tok, q, eq, s2)" by (cases "gettoken s1") auto
  have s: "suffix s1 line" "suffix s2 line"
    using peek_suffix [OF p] gettoken_suffix [OF g] 1(2) suffix_order.trans by metis+
  have "within line (rbind (parseredirs (add_arg (q, eq) c) s2) (\<lambda>(c, s3). parse_args (Suc argc) c s3))"
    if c: "\<not> p" "tok \<noteq> 0" "\<not> tok \<noteq> 0x61" "\<not> Suc argc \<ge> MAXARGS"
  proof (rule within_bind)
    have "token line (q, eq)" using token_suffix [OF _ s(1)] gettoken_token g c(3) by simp
    then have "parsed line (add_arg (q, eq) c)" by (rule parsed_add_arg [OF 1(3)])
    then show "within line (parseredirs (add_arg (q, eq) c) s2)" by (rule parseredirs_within [OF s(2)])
  qed (use 1(1) [OF p [symmetric] refl c(1) g [symmetric] refl refl refl c(2-4) _ refl] in simp)
  then show ?case using s 1(3) by (subst parse_args.simps) (auto simp: p g)
qed

lemma parseblock_within:
  assumes pl: "\<And>s. suffix s line \<Longrightarrow> within line (pl s)" and s: "suffix s line"
  shows "within line (parseblock pl s)"
proof -
  obtain p s1 where p: "peek [0x28] s = (p, s1)" by fastforce
  obtain tok q eq s2 where g: "gettoken s1 = (tok, q, eq, s2)" by (cases "gettoken s1") auto
  have s2: "suffix s2 line"
    using peek_suffix [OF p] gettoken_suffix [OF g] s suffix_order.trans by metis
  have "within line (rbind (pl s2) (\<lambda>(c, s).
      let (p, s) = peek [0x29] s in
      if \<not> p then Inl (Panic ''syntax - missing )'')
      else let (_, _, _, s) = gettoken s in parseredirs c s))"
  proof (rule within_bind [OF pl [OF s2]])
    fix c and s3 :: ptr assume s3: "suffix s3 line" "parsed line c"
    obtain p4 s4 where p4: "peek [0x29] s3 = (p4, s4)" by fastforce
    obtain tok q eq s5 where g5: "gettoken s4 = (tok, q, eq, s5)" by (cases "gettoken s4") auto
    have "suffix s5 line" using peek_suffix [OF p4] gettoken_suffix [OF g5] s3(1) suffix_order.trans by metis
    then show "within line (case (c, s3) of (c, s) \<Rightarrow>
        let (p, s) = peek [0x29] s in
        if \<not> p then Inl (Panic ''syntax - missing )'')
        else let (_, _, _, s) = gettoken s in parseredirs c s)"
      using parseredirs_within s3(2) by (simp add: p4 g5)
  qed
  then show ?thesis by (simp add: parseblock_def p g)
qed

lemma parseexec_within:
  assumes pl: "\<And>s. suffix s line \<Longrightarrow> within line (pl s)" and s: "suffix s line"
  shows "within line (parseexec pl s)"
proof -
  obtain p s1 where p: "peek [0x28] s = (p, s1)" by fastforce
  have s1: "suffix s1 line" using peek_suffix [OF p] s suffix_order.trans by metis
  have "within line (rbind (parseredirs (EXEC []) s1) (\<lambda>(c, s). parse_args 0 c s))"
    by (rule within_bind [OF parseredirs_within [OF s1]]) (auto intro: parse_args_within)
  then show ?thesis using parseblock_within [OF pl s1] by (simp add: parseexec_def p)
qed

lemma parsepipe_within:
  assumes pl: "\<And>s. suffix s line \<Longrightarrow> within line (pl s)" and s: "suffix s line"
  shows "within line (parsepipe pl n s)"
  using s
proof (induction n arbitrary: s)
  case (Suc n)
  show ?case unfolding parsepipe.simps
  proof (rule within_bind [OF parseexec_within [OF pl Suc.prems]])
    fix c and s1 :: ptr assume s1: "suffix s1 line" "parsed line c"
    obtain p s2 where p: "peek [0x7C] s1 = (p, s2)" by fastforce
    obtain tok q eq s3 where g: "gettoken s2 = (tok, q, eq, s3)" by (cases "gettoken s2") auto
    have s: "suffix s2 line" "suffix s3 line"
      using peek_suffix [OF p] gettoken_suffix [OF g] s1(1) suffix_order.trans by metis+
    have "within line (rbind (parsepipe pl n s3) (\<lambda>(r, s). Inr (PIPE c r, s)))"
      by (rule within_bind [OF Suc.IH [OF s(2)]]) (use s1(2) in auto)
    then show "within line (case (c, s1) of (c, s) \<Rightarrow>
       let (p, s) = peek [0x7C] s in
       if p then
         let (_, _, _, s) = gettoken s in
         rbind (parsepipe pl n s) (\<lambda>(r, s). Inr (PIPE c r, s))
       else Inr (c, s))" using s s1(2) by (simp add: p g)
  qed simp
qed simp

lemma back_loop_within:
  "back_loop c s = (c', s') \<Longrightarrow> suffix s line \<Longrightarrow> parsed line c \<Longrightarrow>
    suffix s' line \<and> parsed line c'"
proof (induction c s rule: back_loop.induct)
  case (1 c s)
  obtain p s1 where p: "peek [0x26] s = (p, s1)" by fastforce
  obtain tok q eq s2 where g: "gettoken s1 = (tok, q, eq, s2)" by (cases "gettoken s1") auto
  have s: "suffix s1 line" "suffix s2 line"
    using peek_suffix [OF p] gettoken_suffix [OF g] 1(3) suffix_order.trans by metis+
  show ?case
  proof (cases p)
    case True
    then have "back_loop (BACK c) s2 = (c', s')" using 1(2) by (subst (asm) back_loop.simps) (simp add: p g)
    then show ?thesis using 1(1) [OF p [symmetric] refl True g [symmetric] refl refl refl] s 1(4) by simp
  next
    case False
    then have "c' = c \<and> s' = s1" using 1(2) by (subst (asm) back_loop.simps) (simp add: p)
    then show ?thesis using s 1(4) by simp
  qed
qed

lemma parseline_within: "suffix s line \<Longrightarrow> within line (parseline n s)"
proof (induction n arbitrary: s)
  case (Suc n)
  show ?case unfolding parseline.simps
  proof (rule within_bind [OF parsepipe_within [OF Suc.IH Suc.prems]])
    fix c and s1 :: ptr assume s1: "suffix s1 line" "parsed line c"
    obtain c2 s2 where b: "back_loop c s1 = (c2, s2)" by fastforce
    obtain p s3 where p: "peek [0x3B] s2 = (p, s3)" by fastforce
    obtain tok q eq s4 where g: "gettoken s3 = (tok, q, eq, s4)" by (cases "gettoken s3") auto
    have s2: "suffix s2 line" "parsed line c2" using back_loop_within [OF b s1] by simp_all
    have s: "suffix s3 line" "suffix s4 line"
      using peek_suffix [OF p] gettoken_suffix [OF g] s2(1) suffix_order.trans by metis+
    have "within line (rbind (parseline n s4) (\<lambda>(r, s). Inr (LIST c2 r, s)))"
      by (rule within_bind [OF Suc.IH [OF s(2)]]) (use s2(2) in auto)
    then show "within line (case (c, s1) of (c, s) \<Rightarrow>
       let (c, s) = back_loop c s; (p, s) = peek [0x3B] s in
       if p then
         let (_, _, _, s) = gettoken s in
         rbind (parseline n s) (\<lambda>(r, s). Inr (LIST c r, s))
       else Inr (c, s))" using s s2(2) by (simp add: b p g)
  qed simp
qed simp

subsection \<open>Termination of the words\<close>

lemma length_store0 [simp]: "length (store0 p buf) = length buf"
  by (simp add: store0_def)

lemma length_fold_store0 [simp]: "length (fold (\<lambda>w. store0 (snd w)) ws buf) = length buf"
  by (induction ws arbitrary: buf) auto

lemma length_nulterminate [simp]: "length (nulterminate c buf) = length buf"
  by (induction c arbitrary: buf) auto

lemma nth_fold_store0:
  assumes "i < length buf"
  shows "fold (\<lambda>w. store0 (snd w)) ws buf ! i =
    (if \<exists>w\<in>set ws. i = length buf - 1 - length (snd w) then 0 else buf ! i)"
  using assms by (induction ws arbitrary: buf) (auto simp: store0_def nth_list_update)

text \<open>\<^verbatim>\<open>nulterminate\<close> stores a 0 at the end of every word of the command and nowhere else.\<close>

lemma nth_nulterminate:
  assumes "i < length buf"
  shows "nulterminate c buf ! i =
    (if \<exists>w\<in>set_cmd c. i = length buf - 1 - length (snd w) then 0 else buf ! i)"
  using assms by (induction c arbitrary: buf) (auto simp: nth_fold_store0 store0_def nth_list_update)

lemma nulterminate_keeps:
  assumes ws: "\<forall>w\<in>set_cmd c. token line w" and i: "i < length line" "in_word (line ! i)"
  shows "nulterminate c (line @ [0]) ! i = line ! i"
proof -
  have "i \<noteq> length line - length (snd v)" if v: "v \<in> set_cmd c" for v
  proof
    assume eq: "i = length line - length (snd v)"
    obtain pre u where v': "line = pre @ u @ snd v" "snd v = [] \<or> \<not> in_word (hd (snd v))"
      using ws v unfolding token_def suffix_def by metis
    have ne: "snd v \<noteq> []" using eq v' i(1) by auto
    then have "line ! (length line - length (snd v)) = hd (snd v)"
      using v'(1) by (simp add: nth_append hd_conv_nth)
    then show False using eq v'(2) ne i(2) by simp
  qed
  then show ?thesis using i(1) by (subst nth_nulterminate) (auto simp: nth_append)
qed

lemma nulterminate_word:
  assumes z: "0 \<notin> set line" and ws: "\<forall>w\<in>set_cmd c. token line w" and w: "w \<in> set_cmd c"
  shows "string_at (nulterminate c (line @ [0])) w = word_of w"
proof -
  let ?buf = "nulterminate c (line @ [0])"
  obtain pre u where l: "line = pre @ fst w" and u: "fst w = u @ snd w" "\<forall>c\<in>set u. in_word c"
    using ws w unfolding token_def suffix_def by blast
  have len: "length line - length (fst w) = length pre" using l by simp
  have nth: "?buf ! (length pre + i) = u ! i" if i: "i < length u" for i
  proof -
    have "line ! (length pre + i) = u ! i" "length pre + i < length line" using l u(1) i by (simp_all add: nth_append)
    then show ?thesis using nulterminate_keeps [OF ws] u(2) i by simp
  qed
  have "take (length u + 1) (drop (length pre) ?buf) = u @ [0]"
  proof (rule nth_equalityI)
    fix i assume "i < length (take (length u + 1) (drop (length pre) ?buf))"
    then have i: "i \<le> length u" by simp
    have "?buf ! (length pre + length u) = 0"
      using w l u(1) by (subst nth_nulterminate) auto
    then show "take (length u + 1) (drop (length pre) ?buf) ! i = (u @ [0]) ! i"
      using i nth l u(1) by (cases "i = length u") (auto simp: nth_append)
  qed (use l u(1) in simp)
  then have "drop (length pre) ?buf = u @ 0 # drop (length u + 1) (drop (length pre) ?buf)"
    using append_take_drop_id [of "length u + 1" "drop (length pre) ?buf"] by (metis append.assoc append_Cons append_Nil)
  moreover have "\<forall>c\<in>set u. c \<noteq> 0" using z l u(1) by auto
  ultimately have "takeWhile (\<lambda>c. c \<noteq> 0) (drop (length pre) ?buf) = u"
    by (metis (mono_tags, lifting) takeWhile_append2 takeWhile.simps(2) append_Nil2)
  then show ?thesis using len u(1) by (simp add: string_at_def word_of_def)
qed

lemma parsecmd_words:
  assumes "0 \<notin> set line" "parsecmd line = Inr (c, buf)"
  shows "std_redirs c \<and> (\<forall>w\<in>set_cmd c. token line w) \<and> map_cmd (string_at buf) c = map_cmd word_of c"
proof -
  obtain c' s where l: "parseline (length line + 2) line = Inr (c', s)"
    using assms(2) by (cases "parseline (length line + 2) line") (auto simp: parsecmd_def simp del: parseline.simps)
  obtain p s' where p: "peek [] s = (p, s')" by fastforce
  have "c' = c \<and> buf = nulterminate c (line @ [0])"
    using assms(2) unfolding parsecmd_def l by (auto simp: p split: if_splits)
  then have b: "buf = nulterminate c (line @ [0])" and c: "parseline (length line + 2) line = Inr (c, s)"
    using l by auto
  have "within line (parseline (length line + 2) line)" by (rule parseline_within) simp
  then have ws: "\<forall>w\<in>set_cmd c. token line w" and "std_redirs c" unfolding c by (simp_all add: parsed_def)
  have "map_cmd (string_at buf) c = map_cmd word_of c"
    by (rule cmd.map_cong0) (use nulterminate_word [OF assms(1) ws] b in simp)
  then show ?thesis using ws \<open>std_redirs c\<close> by simp
qed

end
