(* ===== verification/Sh_Round.thy ===== *)
theory Sh_Round
  imports Sh_Words
begin

text \<open>
  A command that is written out with brackets around every part is read back by the shell's parser as
  the same command, with the same words in the buffer.
\<close>

subsection \<open>Writing a command\<close>

definition redir_symbol :: "int \<Rightarrow> byte list" where
  "redir_symbol m = (if m = O_RDONLY_u then [0x3C] else if m = O_WR_CREATE then [0x3E, 0x3E] else [0x3E])"

primrec unparse :: "byte list cmd \<Rightarrow> byte list" where
  "unparse (EXEC ws) = [0x28] @ concat (map (\<lambda>w. w @ [0x20]) ws) @ [0x29]"
| "unparse (REDIR c w m fd) = [0x28] @ unparse c @ redir_symbol m @ w @ [0x29]"
| "unparse (PIPE l r) = [0x28] @ unparse l @ [0x7C] @ unparse r @ [0x29]"
| "unparse (LIST l r) = [0x28] @ unparse l @ [0x3B] @ unparse r @ [0x29]"
| "unparse (BACK c) = [0x28] @ unparse c @ [0x26, 0x29]"

text \<open>
  The commands that can be written: words are not empty and have no white space, symbols or 0, there are
  less than ten of them, and a redirection is one of the three kinds that the shell has.
\<close>

definition word :: "byte list \<Rightarrow> bool" where
  "word w \<longleftrightarrow> w \<noteq> [] \<and> (\<forall>c\<in>set w. in_word c \<and> c \<noteq> 0)"

primrec writable :: "byte list cmd \<Rightarrow> bool" where
  "writable (EXEC ws) \<longleftrightarrow> length ws < MAXARGS \<and> (\<forall>w\<in>set ws. word w)"
| "writable (REDIR c w m fd) \<longleftrightarrow> writable c \<and> word w \<and>
     (m, fd) \<in> {(O_RDONLY_u, 0), (O_WR_CREATE_TRUNC, 1), (O_WR_CREATE, 1)}"
| "writable (PIPE l r) \<longleftrightarrow> writable l \<and> writable r"
| "writable (LIST l r) \<longleftrightarrow> writable l \<and> writable r"
| "writable (BACK c) \<longleftrightarrow> writable c"

subsection \<open>Reading it back\<close>

declare parseline.simps [simp del]

lemma word_of_append [simp]: "word_of (w @ r, r) = w"
  by (simp add: word_of_def)

lemma in_word_facts:
  "in_word c \<Longrightarrow> strchr whitespace c = None"
  "in_word c \<Longrightarrow> c \<noteq> 0x7C \<and> c \<noteq> 0x28 \<and> c \<noteq> 0x29 \<and> c \<noteq> 0x3B \<and> c \<noteq> 0x26 \<and> c \<noteq> 0x3C \<and> c \<noteq> 0x3E"
  by (auto simp: in_word_def symbols_def split: if_splits)

lemma skip_white_word [simp]: "word w \<Longrightarrow> skip_white (w @ r) = w @ r"
  using in_word_facts(1) by (cases w) (auto simp: word_def skip_white_def)

lemma gettoken_word:
  assumes "word w" "\<not> in_word d"
  shows "gettoken (w @ d # r) = (0x61, w @ d # r, d # r, skip_white (d # r))"
proof -
  obtain c v where w: "w = c # v" using assms(1) by (cases w) (auto simp: word_def)
  have c: "in_word c" "c \<noteq> 0" using assms(1) w by (auto simp: word_def)
  have "dropWhile in_word (w @ d # r) = d # r" using assms by (simp add: word_def)
  then show ?thesis
    using in_word_facts(2) [OF c(1)] c(2) skip_white_word [OF assms(1), of "d # r"] by (simp add: gettoken_def w Let_def)
qed

lemma symbols_not_white:
  "skip_white (0x28 # r) = 0x28 # r" "skip_white (0x29 # r) = 0x29 # r" "skip_white (0x7C # r) = 0x7C # r"
  "skip_white (0x3B # r) = 0x3B # r" "skip_white (0x26 # r) = 0x26 # r" "skip_white (0x3C # r) = 0x3C # r"
  "skip_white (0x3E # r) = 0x3E # r" "skip_white [] = []"
  by (simp_all add: skip_white_def whitespace_def)

lemma skip_white_unparse [simp]: "skip_white (unparse t @ r) = unparse t @ r"
  by (cases t) (simp_all add: symbols_not_white)

lemma skip_white_idem [simp]: "skip_white (skip_white s) = skip_white s"
  by (simp add: skip_white_def dropWhile_idem)

lemma peek_skip_white: "peek toks (skip_white s) = peek toks s"
  by (simp add: peek_def)

lemma parseredirs_skip_white: "parseredirs c (skip_white s) = parseredirs c s"
  by (subst (1 2) parseredirs.simps) (simp add: peek_skip_white)

lemma peek_word:
  assumes "word w" "set toks \<subseteq> set symbols"
  shows "peek toks (w @ r) = (False, w @ r)"
proof -
  obtain c v where w: "w = c # v" using assms(1) by (cases w) (auto simp: word_def)
  have c: "in_word c" using assms(1) w by (auto simp: word_def)
  have "c \<notin> set toks" using in_word_facts(2) [OF c] assms(2) by (auto simp: symbols_def)
  then have "strchr toks c = None" by (induction toks) auto
  then show ?thesis using skip_white_word [OF assms(1), of r] by (simp add: peek_def w)
qed

lemmas scan_simps = symbols_not_white peek_def gettoken_def Let_def

lemma not_in_word: "\<not> in_word 0x20" "\<not> in_word 0x29"
  by (simp_all add: in_word_def whitespace_def symbols_def)

lemma skip_space [simp]: "skip_white (0x20 # r) = skip_white r"
  by (simp add: skip_white_def whitespace_def)

lemma skip_white_words:
  assumes "\<forall>w\<in>set ws. word w"
  shows "skip_white (concat (map (\<lambda>w. w @ [0x20]) ws) @ 0x29 # r) = concat (map (\<lambda>w. w @ [0x20]) ws) @ 0x29 # r"
  using assms by (cases ws) (simp_all add: symbols_not_white)

lemma parse_args_words:
  assumes "\<forall>w\<in>set ws. word w" "length as + length ws < MAXARGS"
  shows "\<exists>bs. map word_of bs = ws \<and>
    parse_args (length as) (EXEC as) (concat (map (\<lambda>w. w @ [0x20]) ws) @ 0x29 # r) = Inr (EXEC (as @ bs), 0x29 # r)"
  using assms
proof (induction ws arbitrary: as)
  case Nil
  then show ?case by (subst parse_args.simps) (simp add: scan_simps)
next
  case (Cons w ws)
  let ?rest = "concat (map (\<lambda>w. w @ [0x20]) ws) @ 0x29 # r"
  let ?a = "(w @ 0x20 # ?rest, 0x20 # ?rest)"
  have w: "word w" using Cons.prems(1) by simp
  have g: "gettoken (w @ 0x20 # ?rest) = (0x61, w @ 0x20 # ?rest, 0x20 # ?rest, ?rest)"
    using gettoken_word [OF w not_in_word(1)] skip_white_words [of ws r] Cons.prems(1) by simp
  have p: "peek [0x7C, 0x29, 0x26, 0x3B] (w @ 0x20 # ?rest) = (False, w @ 0x20 # ?rest)"
    by (rule peek_word [OF w]) (auto simp: symbols_def)
  have q: "peek [0x3C, 0x3E] ?rest = (False, ?rest)"
  proof (cases ws)
    case (Cons v vs)
    then show ?thesis using peek_word [of v "[0x3C, 0x3E]"] Cons.prems(1) by (auto simp: symbols_def)
  qed (simp add: scan_simps)
  have "\<exists>bs. map word_of bs = ws \<and>
      parse_args (length (as @ [?a])) (EXEC (as @ [?a])) ?rest = Inr (EXEC ((as @ [?a]) @ bs), 0x29 # r)"
    by (rule Cons.IH) (use Cons.prems in auto)
  then obtain bs where bs: "map word_of bs = ws"
    "parse_args (Suc (length as)) (EXEC (as @ [?a])) ?rest = Inr (EXEC (as @ ?a # bs), 0x29 # r)"
    by auto
  have "parseredirs (EXEC (as @ [?a])) ?rest = Inr (EXEC (as @ [?a]), ?rest)"
    by (subst parseredirs.simps) (simp add: q)
  then have "parse_args (length as) (EXEC as) (w @ 0x20 # ?rest) = Inr (EXEC (as @ ?a # bs), 0x29 # r)"
    using Cons.prems(2) bs(2) by (subst parse_args.simps) (simp add: p g)
  moreover have "map word_of (?a # bs) = w # ws" using bs(1) by simp
  ultimately show ?case by (intro exI [of _ "?a # bs"]) simp
qed

lemma parseredirs_stop:
  "parseredirs c (0x29 # r) = Inr (c, 0x29 # r)" "parseredirs c (0x7C # r) = Inr (c, 0x7C # r)"
  "parseredirs c (0x3B # r) = Inr (c, 0x3B # r)" "parseredirs c (0x26 # r) = Inr (c, 0x26 # r)"
  "parseredirs c [] = Inr (c, [])"
  by (subst parseredirs.simps, simp add: scan_simps)+

lemma parseredirs_symbol:
  assumes "word w" "(m, fd) \<in> {(O_RDONLY_u, 0), (O_WR_CREATE_TRUNC, 1), (O_WR_CREATE, 1)}"
  shows "parseredirs c (redir_symbol m @ w @ 0x29 # r) = Inr (REDIR c (w @ 0x29 # r, 0x29 # r) m fd, 0x29 # r)"
proof -
  obtain x v where w: "w = x # v" using assms(1) by (cases w) (auto simp: word_def)
  have x: "x \<noteq> 0x3E" using in_word_facts(2) assms(1) w by (auto simp: word_def)
  have s: "skip_white (w @ 0x29 # r) = w @ 0x29 # r" by (rule skip_white_word [OF assms(1)])
  have g: "gettoken (w @ 0x29 # r) = (0x61, w @ 0x29 # r, 0x29 # r, 0x29 # r)"
    using gettoken_word [OF assms(1) not_in_word(2)] by (simp add: symbols_not_white)
  have p: "peek [0x3C, 0x3E] (redir_symbol m @ w @ 0x29 # r) = (True, redir_symbol m @ w @ 0x29 # r)"
    by (simp add: peek_def redir_symbol_def symbols_not_white)
  have "\<exists>tok q eq. gettoken (redir_symbol m @ w @ 0x29 # r) = (tok, q, eq, w @ 0x29 # r) \<and>
      redirected tok (w @ 0x29 # r) (0x29 # r) c = REDIR c (w @ 0x29 # r, 0x29 # r) m fd"
    using assms(2) x s by (auto simp: gettoken_def redir_symbol_def symbols_not_white w redirected_def)
  then show ?thesis by (subst parseredirs.simps) (auto simp: p g parseredirs_stop)
qed

text \<open>A block, and the rest of a line after one.\<close>

lemma parseexec_block:
  assumes "parseline n (x @ 0x29 # r) = Inr (c, 0x29 # r)" "skip_white (x @ 0x29 # r) = x @ 0x29 # r"
  shows "parseexec (parseline n) (0x28 # x @ 0x29 # r) = parseredirs c r"
  using assms by (simp add: parseexec_def parseblock_def scan_simps parseredirs_skip_white)

lemma parseline_single:
  assumes "parseexec (parseline (Suc n)) s = Inr (c, 0x29 # r)"
  shows "parseline (Suc (Suc n)) s = Inr (c, 0x29 # r)"
  using assms unfolding parseline.simps(2) [of "Suc n"] parsepipe.simps(2)
  by (simp add: scan_simps back_loop.simps)

lemma parseline_pipe:
  assumes "parseexec (parseline (Suc (Suc n))) s = Inr (c, 0x7C # s')" "skip_white s' = s'"
    "parseexec (parseline (Suc (Suc n))) s' = Inr (d, 0x29 # r)"
  shows "parseline (Suc (Suc (Suc n))) s = Inr (PIPE c d, 0x29 # r)"
  using assms unfolding parseline.simps(2) [of "Suc (Suc n)"] parsepipe.simps(2)
  by (simp add: scan_simps back_loop.simps)

lemma parseline_list:
  assumes "parseexec (parseline (Suc n)) s = Inr (c, 0x3B # s')" "skip_white s' = s'"
    "parseline (Suc n) s' = Inr (d, 0x29 # r)"
  shows "parseline (Suc (Suc n)) s = Inr (LIST c d, 0x29 # r)"
  using assms unfolding parseline.simps(2) [of "Suc n"] parsepipe.simps(2)
  by (simp add: scan_simps back_loop.simps)

lemma parseline_back:
  assumes "parseexec (parseline (Suc n)) s = Inr (c, 0x26 # 0x29 # r)"
  shows "parseline (Suc (Suc n)) s = Inr (BACK c, 0x29 # r)"
proof -
  have "back_loop c (0x26 # 0x29 # r) = (BACK c, 0x29 # r)"
    by (subst back_loop.simps, simp add: scan_simps) (subst back_loop.simps, simp add: scan_simps)
  then show ?thesis using assms unfolding parseline.simps(2) [of "Suc n"] parsepipe.simps(2)
    by (simp add: scan_simps)
qed

text \<open>A command is read back if it is given back by \<^verbatim>\<open>parseexec\<close>, whatever follows it.\<close>

definition read_back :: "byte list cmd \<Rightarrow> bool" where
  "read_back t \<longleftrightarrow> (\<forall>n rest. length (unparse t @ rest) + 1 \<le> n \<longrightarrow>
     (\<exists>c. map_cmd word_of c = t \<and> parseexec (parseline n) (unparse t @ rest) = parseredirs c rest))"

lemma read_backI:
  assumes "\<And>n rest. length (unparse t @ rest) + 1 \<le> n \<Longrightarrow>
    \<exists>c. map_cmd word_of c = t \<and> parseexec (parseline n) (unparse t @ rest) = parseredirs c rest"
  shows "read_back t"
  using assms by (simp add: read_back_def)

lemma read_backE:
  assumes "read_back t" "length (unparse t @ rest) + 1 \<le> n"
  obtains c where "map_cmd word_of c = t" "parseexec (parseline n) (unparse t @ rest) = parseredirs c rest"
  using assms unfolding read_back_def by blast

lemma read_exec:
  assumes ws: "length ws < MAXARGS" "\<forall>w\<in>set ws. word w"
  shows "read_back (EXEC ws)"
proof (rule read_backI)
  fix n and rest assume len: "length (unparse (EXEC ws) @ rest) + 1 \<le> n"
  let ?x = "concat (map (\<lambda>w. w @ [0x20]) ws)"
  obtain m where n: "n = Suc (Suc m)" using len le_Suc_ex [of 2 n] by auto
  obtain bs where bs: "map word_of bs = ws" "parse_args 0 (EXEC []) (?x @ 0x29 # rest) = Inr (EXEC bs, 0x29 # rest)"
    using parse_args_words [of ws "[]" rest] ws by auto
  have s: "skip_white (?x @ 0x29 # rest) = ?x @ 0x29 # rest" by (rule skip_white_words) (use ws in simp)
  have p: "peek toks (?x @ 0x29 # rest) = (False, ?x @ 0x29 # rest)" if "set toks \<subseteq> set symbols - {0x29}" "0x29 \<notin> set toks" for toks
  proof (cases ws)
    case Nil
    have "strchr toks 0x29 = None" using that(2) by (induction toks) auto
    then show ?thesis using Nil by (simp add: peek_def symbols_not_white)
  next
    case (Cons v vs)
    then show ?thesis using peek_word [of v toks] ws that by auto
  qed
  have "parseredirs (EXEC []) (?x @ 0x29 # rest) = Inr (EXEC [], ?x @ 0x29 # rest)"
    by (subst parseredirs.simps) (simp add: p symbols_def)
  then have "parseexec (parseline (Suc m)) (?x @ 0x29 # rest) = Inr (EXEC bs, 0x29 # rest)"
    using bs(2) by (simp add: parseexec_def p symbols_def)
  then have "parseline n (?x @ 0x29 # rest) = Inr (EXEC bs, 0x29 # rest)" unfolding n by (rule parseline_single)
  then have "parseexec (parseline n) (unparse (EXEC ws) @ rest) = parseredirs (EXEC bs) rest"
    using parseexec_block [OF _ s] by simp
  then show "\<exists>c. map_cmd word_of c = EXEC ws \<and> parseexec (parseline n) (unparse (EXEC ws) @ rest) = parseredirs c rest" using bs(1) by (intro exI [of _ "EXEC bs"]) simp
qed

lemma read_redir:
  assumes t: "read_back t" and w: "word w"
    and m: "(m, fd) \<in> {(O_RDONLY_u, 0), (O_WR_CREATE_TRUNC, 1), (O_WR_CREATE, 1)}"
  shows "read_back (REDIR t w m fd)"
proof (rule read_backI)
  fix n and rest assume len: "length (unparse (REDIR t w m fd) @ rest) + 1 \<le> n"
  obtain k where n: "n = Suc (Suc k)" using len le_Suc_ex [of 2 n] by auto
  let ?r = "redir_symbol m @ w @ 0x29 # rest"
  obtain c where c: "map_cmd word_of c = t" "parseexec (parseline (Suc k)) (unparse t @ ?r) = parseredirs c ?r"
    by (rule read_backE [OF t, of ?r "Suc k"]) (use len n in auto)
  let ?c = "REDIR c (w @ 0x29 # rest, 0x29 # rest) m fd"
  have "parseline n (unparse t @ ?r) = Inr (?c, 0x29 # rest)"
    unfolding n by (rule parseline_single) (simp add: c parseredirs_symbol [OF w m])
  then have "parseexec (parseline n) (unparse (REDIR t w m fd) @ rest) = parseredirs ?c rest"
    using parseexec_block [of n "unparse t @ redir_symbol m @ w" rest ?c] by simp
  then show "\<exists>c. map_cmd word_of c = REDIR t w m fd \<and> parseexec (parseline n) (unparse (REDIR t w m fd) @ rest) = parseredirs c rest" using c(1) by (intro exI [of _ ?c]) simp
qed

lemma read_pipe:
  assumes l: "read_back l" and r: "read_back r"
  shows "read_back (PIPE l r)"
proof (rule read_backI)
  fix n and rest assume "length (unparse (PIPE l r) @ rest) + 1 \<le> n"
  then have len: "length (unparse l @ 0x7C # unparse r @ 0x29 # rest) + 2 \<le> n" by simp
  then obtain k where n: "n = Suc (Suc (Suc k))" using le_Suc_ex [of 3 n] by auto
  let ?n = "Suc (Suc k)"
  obtain c where c: "map_cmd word_of c = l"
    "parseexec (parseline ?n) (unparse l @ 0x7C # unparse r @ 0x29 # rest) = Inr (c, 0x7C # unparse r @ 0x29 # rest)"
    by (rule read_backE [OF l, of "0x7C # unparse r @ 0x29 # rest" ?n]) (use len n in \<open>auto simp: parseredirs_stop\<close>)
  obtain d where d: "map_cmd word_of d = r" "parseexec (parseline ?n) (unparse r @ 0x29 # rest) = Inr (d, 0x29 # rest)"
    by (rule read_backE [OF r, of "0x29 # rest" ?n]) (use len n in \<open>auto simp: parseredirs_stop\<close>)
  have "parseline n (unparse l @ 0x7C # unparse r @ 0x29 # rest) = Inr (PIPE c d, 0x29 # rest)"
    unfolding n by (rule parseline_pipe [OF c(2) _ d(2)]) simp
  then have "parseexec (parseline n) (unparse (PIPE l r) @ rest) = parseredirs (PIPE c d) rest"
    using parseexec_block [of n "unparse l @ 0x7C # unparse r" rest "PIPE c d"] by simp
  then show "\<exists>c. map_cmd word_of c = PIPE l r \<and> parseexec (parseline n) (unparse (PIPE l r) @ rest) = parseredirs c rest" using c(1) d(1) by (intro exI [of _ "PIPE c d"]) simp
qed

lemma read_list:
  assumes l: "read_back l" and r: "read_back r"
  shows "read_back (LIST l r)"
proof (rule read_backI)
  fix n and rest assume "length (unparse (LIST l r) @ rest) + 1 \<le> n"
  then have len: "length (unparse l @ 0x3B # unparse r @ 0x29 # rest) + 2 \<le> n" by simp
  then obtain k where n: "n = Suc (Suc (Suc k))" using le_Suc_ex [of 3 n] by auto
  let ?n = "Suc (Suc k)"
  obtain c where c: "map_cmd word_of c = l"
    "parseexec (parseline ?n) (unparse l @ 0x3B # unparse r @ 0x29 # rest) = Inr (c, 0x3B # unparse r @ 0x29 # rest)"
    by (rule read_backE [OF l, of "0x3B # unparse r @ 0x29 # rest" ?n]) (use len n in \<open>auto simp: parseredirs_stop\<close>)
  obtain d where d: "map_cmd word_of d = r" "parseexec (parseline (Suc k)) (unparse r @ 0x29 # rest) = Inr (d, 0x29 # rest)"
    by (rule read_backE [OF r, of "0x29 # rest" "Suc k"]) (use len n in \<open>auto simp: parseredirs_stop\<close>)
  have "parseline ?n (unparse r @ 0x29 # rest) = Inr (d, 0x29 # rest)" by (rule parseline_single [OF d(2)])
  then have "parseline n (unparse l @ 0x3B # unparse r @ 0x29 # rest) = Inr (LIST c d, 0x29 # rest)"
    unfolding n by (rule parseline_list [OF c(2), rotated]) simp
  then have "parseexec (parseline n) (unparse (LIST l r) @ rest) = parseredirs (LIST c d) rest"
    using parseexec_block [of n "unparse l @ 0x3B # unparse r" rest "LIST c d"] by simp
  then show "\<exists>c. map_cmd word_of c = LIST l r \<and> parseexec (parseline n) (unparse (LIST l r) @ rest) = parseredirs c rest" using c(1) d(1) by (intro exI [of _ "LIST c d"]) simp
qed

lemma read_back_cmd:
  assumes t: "read_back t"
  shows "read_back (BACK t)"
proof (rule read_backI)
  fix n and rest assume len: "length (unparse (BACK t) @ rest) + 1 \<le> n"
  obtain k where n: "n = Suc (Suc k)" using len le_Suc_ex [of 2 n] by auto
  obtain c where c: "map_cmd word_of c = t"
    "parseexec (parseline (Suc k)) (unparse t @ 0x26 # 0x29 # rest) = Inr (c, 0x26 # 0x29 # rest)"
    by (rule read_backE [OF t, of "0x26 # 0x29 # rest" "Suc k"]) (use len n in \<open>auto simp: parseredirs_stop\<close>)
  have "parseline n (unparse t @ 0x26 # 0x29 # rest) = Inr (BACK c, 0x29 # rest)"
    unfolding n by (rule parseline_back [OF c(2)])
  then have "parseexec (parseline n) (unparse (BACK t) @ rest) = parseredirs (BACK c) rest"
    using parseexec_block [of n "unparse t @ [0x26]" rest "BACK c"] by simp
  then show "\<exists>c. map_cmd word_of c = BACK t \<and> parseexec (parseline n) (unparse (BACK t) @ rest) = parseredirs c rest" using c(1) by (intro exI [of _ "BACK c"]) simp
qed

lemma read_writable: "writable t \<Longrightarrow> read_back t"
  by (induction t) (auto intro: read_exec read_redir read_pipe read_list read_back_cmd)

lemma writable_no_0: "writable t \<Longrightarrow> 0 \<notin> set (unparse t)"
  by (induction t) (auto simp: word_def redir_symbol_def)

subsection \<open>Properties\<close>

text \<open>
  C39: the words of a command that the parser returns are words of the line, and the C strings that
  \<^verbatim>\<open>nulterminate\<close> leaves in the buffer are exactly these words: no 0 that ends one of them cuts another.
\<close>

theorem sh_words:
  assumes "0 \<notin> set line" "parsecmd line = Inr (c, buf)"
  shows "(\<forall>w\<in>set_cmd c. token line w) \<and> map_cmd (string_at buf) c = map_cmd word_of c"
  using parsecmd_words [OF assms] by simp

lemma parse_ls_f:
  "parsecmd [0x6C, 0x73, 0x3E, 0x66] =
     Inr (REDIR (EXEC [([0x6C, 0x73, 0x3E, 0x66], [0x3E, 0x66])]) ([0x66], []) O_WR_CREATE_TRUNC 1, [0x6C, 0x73, 0, 0x66, 0])"
  by code_simp

theorem sh_words_witness:
  "map_cmd (string_at [0x6C, 0x73, 0, 0x66, 0])
     (REDIR (EXEC [([0x6C, 0x73, 0x3E, 0x66], [0x3E, 0x66])]) ([0x66], []) O_WR_CREATE_TRUNC 1) =
   REDIR (EXEC [[0x6C, 0x73]]) [0x66] O_WR_CREATE_TRUNC 1"
  using sh_words [OF _ parse_ls_f] by (simp add: word_of_def)

text \<open>
  C38: a command written out with brackets is parsed, and the command that the shell then runs, with the
  C strings in its buffer, is the command that was written.
\<close>

theorem sh_roundtrip:
  assumes "writable t"
  shows "\<exists>c buf. parsecmd (unparse t) = Inr (c, buf) \<and> map_cmd (string_at buf) c = t"
proof -
  let ?n = "length (unparse t)"
  obtain c where c: "map_cmd word_of c = t" "parseexec (parseline (Suc ?n)) (unparse t) = Inr (c, [])"
    by (rule read_backE [OF read_writable [OF assms], of "[]" "Suc ?n"]) (auto simp: parseredirs_stop)
  have "parseline (?n + 2) (unparse t) = Inr (c, [])"
    using c(2) by (simp add: parseline.simps scan_simps back_loop.simps)
  then have p: "parsecmd (unparse t) = Inr (c, nulterminate c (unparse t @ [0]))"
    by (simp add: parsecmd_def scan_simps)
  then show ?thesis using parsecmd_words [OF writable_no_0 [OF assms] p] c(1) by auto
qed

theorem sh_roundtrip_witness:
  "\<exists>c buf. parsecmd (unparse (PIPE (EXEC [[0x6C, 0x73]]) (REDIR (EXEC [[0x77, 0x63]]) [0x66] O_WR_CREATE_TRUNC 1))) = Inr (c, buf) \<and>
     map_cmd (string_at buf) c = PIPE (EXEC [[0x6C, 0x73]]) (REDIR (EXEC [[0x77, 0x63]]) [0x66] O_WR_CREATE_TRUNC 1)"
  by (rule sh_roundtrip) (simp add: word_def in_word_def whitespace_def symbols_def)

end
