(* ===== verification/Sh_Run.thy ===== *)
theory Sh_Run
  imports Sh_Parse
begin

text \<open>
  How the shell, \<^verbatim>\<open>user/sh.c\<close>, runs commands. What a process does is a tree of its system calls, with the
  continuations for their results. The descriptors that the programs are started with are computed by a
  model of the descriptor table of the calls that concern it.
\<close>

subsection \<open>System calls\<close>

datatype act =
    Exit int
  | Exec "byte list" "byte list list" act
  | Close int act
  | Open "byte list" int "int \<Rightarrow> act"
  | Dup int act
  | Pipe_call "(int \<times> int) option \<Rightarrow> act"
  | Fork "int \<Rightarrow> act"
  | Wait act
  | Chdir "byte list" "int \<Rightarrow> act"
  | Write int "byte list" act
  | Looping

definition panic :: "string \<Rightarrow> act" where
  "panic s = Write 2 (str s @ [0x0A]) (Exit 1)"

definition fork1 :: "(int \<Rightarrow> act) \<Rightarrow> act" where
  "fork1 k = Fork (\<lambda>pid. if pid = - 1 then panic ''fork'' else k pid)"

subsection \<open>Commands\<close>

primrec runcmd :: "byte list cmd \<Rightarrow> act" where
  "runcmd (EXEC argv) =
     (if argv = [] then Exit 1
      else Exec (hd argv) argv
        (Write 2 (str ''exec '' @ hd argv @ str '' failed'' @ [0x0A]) (Exit 0)))"
| "runcmd (REDIR c file m fd) =
     Close fd (Open file m (\<lambda>r.
       if r < 0 then Write 2 (str ''open '' @ file @ str '' failed'' @ [0x0A]) (Exit 1)
       else runcmd c))"
| "runcmd (LIST l r) =
     fork1 (\<lambda>pid. if pid = 0 then runcmd l else Wait (runcmd r))"
| "runcmd (PIPE l r) =
     Pipe_call (\<lambda>p.
       case p of
         None \<Rightarrow> panic ''pipe''
       | Some (p0, p1) \<Rightarrow>
           fork1 (\<lambda>pid. if pid = 0 then Close 1 (Dup p1 (Close p0 (Close p1 (runcmd l))))
             else fork1 (\<lambda>pid. if pid = 0 then Close 0 (Dup p0 (Close p0 (Close p1 (runcmd r))))
               else Close p0 (Close p1 (Wait (Wait (Exit 0)))))))"
| "runcmd (BACK c) =
     fork1 (\<lambda>pid. if pid = 0 then runcmd c else Exit 0)"

subsection \<open>The main loop\<close>

text \<open>What \<^verbatim>\<open>parsecmd\<close> prints before it panics about the end of a command that is not the end of the line.\<close>

definition leftovers :: "byte list \<Rightarrow> byte list" where
  "leftovers line =
     (case parseline (length line + 2) line of
        Inl e \<Rightarrow> []
      | Inr (c, s) \<Rightarrow>
          (let (_, s) = peek [] s in
           if s \<noteq> [] then str ''leftovers: '' @ s @ [0x0A] else []))"

text \<open>\<^verbatim>\<open>runcmd(parsecmd(cmd))\<close>\<close>

definition run_line :: "byte list \<Rightarrow> act" where
  "run_line cmd =
     (case parsecmd cmd of
        Inr (c, buf) \<Rightarrow> runcmd (map_cmd (string_at buf) c)
      | Inl (Panic s) \<Rightarrow> (if leftovers cmd = [] then panic s else Write 2 (leftovers cmd) (panic s))
      | Inl e \<Rightarrow> Looping)"

text \<open>The body of the loop of \<^verbatim>\<open>main\<close> for a line, and what follows it.\<close>

definition shell_line :: "byte list \<Rightarrow> act \<Rightarrow> act" where
  "shell_line buf k =
     (let cmd = dropWhile (\<lambda>c. c = 0x20 \<or> c = 0x09) buf in
      if cmd \<noteq> [] \<and> hd cmd = 0x0A then k
      else if take 3 cmd = [0x63, 0x64, 0x20] then
        (let path = drop 3 (butlast cmd) in
         Chdir path (\<lambda>r.
           if r < 0 then Write 2 (str ''cannot cd '' @ path @ [0x0A]) k else k))
      else fork1 (\<lambda>pid. if pid = 0 then run_line cmd else Wait k))"

text \<open>\<^verbatim>\<open>getcmd\<close> and the loop, for the lines that \<^verbatim>\<open>gets\<close> returns one after the other; then the input ends.\<close>

primrec shell_loop :: "byte list list \<Rightarrow> act" where
  "shell_loop [] = Write 2 [0x24, 0x20] (Exit 0)"
| "shell_loop (buf # lines) =
     Write 2 [0x24, 0x20] (if buf = [] \<or> hd buf = 0 then Exit 0 else shell_line buf (shell_loop lines))"

text \<open>The loop that makes sure that three descriptors are open, for at most \<open>n\<close> rounds.\<close>

primrec open_console :: "nat \<Rightarrow> act \<Rightarrow> act" where
  "open_console 0 k = Looping"
| "open_console (Suc n) k =
     Open (str ''console'') 2 (\<lambda>fd.
       if fd < 0 then k else if fd \<ge> 3 then Close fd k else open_console n k)"

definition sh_main :: "byte list list \<Rightarrow> act" where
  "sh_main lines = open_console 4 (shell_loop lines)"

subsection \<open>Descriptors\<close>

datatype object = Named "byte list" int | Read_end nat | Write_end nat | Given nat

type_synonym fds = "nat \<Rightarrow> object option"

text \<open>The calls that make a descriptor take the lowest one that is free, of sixteen.\<close>

definition lowest :: "fds \<Rightarrow> nat option" where
  "lowest t = find (\<lambda>i. t i = None) [0..<16]"

definition opened :: "object \<Rightarrow> fds \<Rightarrow> (nat \<times> fds) option" where
  "opened ob t = map_option (\<lambda>i. (i, t(i \<mapsto> ob))) (lowest t)"

text \<open>
  The programs that a process and its children execute, with their arguments and descriptors. \<^verbatim>\<open>fork\<close>
  succeeds and returns \<open>pid\<close> to the parent, \<^verbatim>\<open>exec\<close> succeeds, and \<open>opens\<close> tells which files can be opened.
  Pipes are numbered.
\<close>

primrec run :: "(byte list \<Rightarrow> int \<Rightarrow> bool) \<Rightarrow> int \<Rightarrow> act \<Rightarrow> fds \<Rightarrow> nat \<Rightarrow> (byte list list \<times> fds) list \<times> nat" where
  "run opens pid (Exit st) = (\<lambda>t n. ([], n))"
| "run opens pid (Exec path argv k) = (\<lambda>t n. ([(argv, t)], n))"
| "run opens pid (Close fd k) = (\<lambda>t n. run opens pid k (t(nat fd := None)) n)"
| "run opens pid (Open file m k) = (\<lambda>t n.
     if opens file m then
       case opened (Named file m) t of
         None \<Rightarrow> run opens pid (k (- 1)) t n
       | Some (i, t') \<Rightarrow> run opens pid (k (int i)) t' n
     else run opens pid (k (- 1)) t n)"
| "run opens pid (Dup fd k) = (\<lambda>t n.
     case t (nat fd) of
       None \<Rightarrow> run opens pid k t n
     | Some ob \<Rightarrow> (case opened ob t of None \<Rightarrow> run opens pid k t n | Some (i, t') \<Rightarrow> run opens pid k t' n))"
| "run opens pid (Pipe_call k) = (\<lambda>t n.
     case opened (Read_end n) t of
       None \<Rightarrow> run opens pid (k None) t n
     | Some (i, t') \<Rightarrow>
         (case opened (Write_end n) t' of
            None \<Rightarrow> run opens pid (k None) t n
          | Some (j, t'') \<Rightarrow> run opens pid (k (Some (int i, int j))) t'' (Suc n)))"
| "run opens pid (Fork k) = (\<lambda>t n.
     let (xs, n) = run opens pid (k 0) t n; (ys, n) = run opens pid (k pid) t n in (xs @ ys, n))"
| "run opens pid (Wait k) = (\<lambda>t n. run opens pid k t n)"
| "run opens pid (Chdir path k) = (\<lambda>t n. run opens pid (k 0) t n)"
| "run opens pid (Write fd bs k) = (\<lambda>t n. run opens pid k t n)"
| "run opens pid Looping = (\<lambda>t n. ([], n))"

text \<open>
  What a command means: every program gets the descriptors of the shell, except for its input or its
  output where there is a redirection or a pipe.
\<close>

primrec meaning :: "(byte list \<Rightarrow> int \<Rightarrow> bool) \<Rightarrow> byte list cmd \<Rightarrow> fds \<Rightarrow> nat \<Rightarrow> (byte list list \<times> fds) list \<times> nat" where
  "meaning opens (EXEC argv) = (\<lambda>t n. (if argv = [] then [] else [(argv, t)], n))"
| "meaning opens (REDIR c file m fd) = (\<lambda>t n.
     if opens file m then meaning opens c (t(nat fd \<mapsto> Named file m)) n else ([], n))"
| "meaning opens (LIST l r) = (\<lambda>t n.
     let (xs, n) = meaning opens l t n; (ys, n) = meaning opens r t n in (xs @ ys, n))"
| "meaning opens (PIPE l r) = (\<lambda>t n.
     let (xs, m) = meaning opens l (t(1 \<mapsto> Write_end n)) (Suc n);
         (ys, m) = meaning opens r (t(0 \<mapsto> Read_end n)) m in (xs @ ys, m))"
| "meaning opens (BACK c) = meaning opens c"

end
