(* ===== verification/Sh_Plumb.thy ===== *)
theory Sh_Plumb
  imports Sh_Run Sh_Words
begin

text \<open>
  The system calls of the shell give every program the descriptors that the command means: the ends of
  a pipe are where they belong, and no other descriptor is changed or left open.
\<close>

subsection \<open>The descriptor table\<close>

lemma lowest_eq: "t i = None \<Longrightarrow> (\<And>j. j < i \<Longrightarrow> t j \<noteq> None) \<Longrightarrow> i < 16 \<Longrightarrow> lowest t = Some i"
  unfolding lowest_def find_Some_iff by (intro exI [of _ i]) auto

lemma lowest_exists:
  assumes "i < 16" "t i = None"
  obtains k where "lowest t = Some k" "t k = None" "k < 16"
proof (cases "lowest t")
  case None
  then show ?thesis using assms by (auto simp: lowest_def find_None_iff)
next
  case (Some k)
  then have "t k = None \<and> k < 16" by (auto simp: lowest_def find_Some_iff)
  then show ?thesis using that Some by blast
qed

text \<open>The input and the output are open, and there is room for a pipe.\<close>

definition ready :: "fds \<Rightarrow> bool" where
  "ready t \<longleftrightarrow> t 0 \<noteq> None \<and> t 1 \<noteq> None \<and> (\<exists>i<16. \<exists>j<16. i \<noteq> j \<and> t i = None \<and> t j = None)"

lemma ready_update: "ready t \<Longrightarrow> fd \<in> {0, 1} \<Longrightarrow> ready (t(fd \<mapsto> ob))"
proof -
  assume r: "ready t" and fd: "fd \<in> {0, 1}"
  then obtain i j where ij: "i < 16" "j < 16" "i \<noteq> j" "t i = None" "t j = None"
    and o: "t 0 \<noteq> None" "t 1 \<noteq> None" unfolding ready_def by blast
  then have "fd \<noteq> i" "fd \<noteq> j" using fd by auto
  then have "(t(fd \<mapsto> ob)) i = None \<and> (t(fd \<mapsto> ob)) j = None" using ij by simp
  moreover have "(t(fd \<mapsto> ob)) 0 \<noteq> None \<and> (t(fd \<mapsto> ob)) 1 \<noteq> None" using o by simp
  ultimately show "ready (t(fd \<mapsto> ob))" unfolding ready_def using ij(1-3) by blast
qed

lemma ready_pipe:
  assumes "ready t"
  obtains i j where "opened (Read_end n) t = Some (i, t(i \<mapsto> Read_end n))"
    "opened (Write_end n) (t(i \<mapsto> Read_end n)) = Some (j, t(i \<mapsto> Read_end n, j \<mapsto> Write_end n))"
    "t i = None" "t j = None" "i \<noteq> j" "1 < i" "1 < j"
proof -
  obtain a b where ab: "a < 16" "b < 16" "a \<noteq> b" "t a = None" "t b = None" and o: "t 0 \<noteq> None" "t 1 \<noteq> None"
    using assms unfolding ready_def by blast
  obtain i where i: "lowest t = Some i" "t i = None" using lowest_exists [of a t] ab(1,4) by metis
  have gt: "1 < k" if "t k = None" for k
    using o that by (metis less_one linorder_neqE_nat)
  let ?c = "if a = i then b else a"
  have "?c < 16" "(t(i \<mapsto> Read_end n)) ?c = None" using ab by auto
  then obtain j where j: "lowest (t(i \<mapsto> Read_end n)) = Some j" "(t(i \<mapsto> Read_end n)) j = None"
    using lowest_exists [of ?c "t(i \<mapsto> Read_end n)"] by metis
  then have "i \<noteq> j" "t j = None" by (auto split: if_splits)
  then show ?thesis using that [of i j] i j gt by (simp add: opened_def)
qed

subsection \<open>Commands\<close>

lemma reopened:
  assumes "ready t" "fd = 0 \<or> fd = 1"
  shows "opened ob (t(nat fd := None)) = Some (nat fd, t(nat fd \<mapsto> ob))"
proof -
  have "lowest (t(nat fd := None)) = Some (nat fd)"
    by (rule lowest_eq) (use assms in \<open>auto simp: ready_def less_one\<close>)
  then show ?thesis by (simp add: opened_def)
qed

lemma run_runcmd:
  assumes "0 < pid" "ready t" "std_redirs c"
  shows "run opens pid (runcmd c) t n = meaning opens c t n"
  using assms(2,3)
proof (induction c arbitrary: t n)
  case (REDIR c w m fd)
  then show ?case
    using reopened [of t fd "Named w m"] ready_update [of t "nat fd" "Named w m"] by auto
next
  case (PIPE l r)
  obtain i j where ij: "opened (Read_end n) t = Some (i, t(i \<mapsto> Read_end n))"
    "opened (Write_end n) (t(i \<mapsto> Read_end n)) = Some (j, t(i \<mapsto> Read_end n, j \<mapsto> Write_end n))"
    and free: "t i = None" "t j = None" "i \<noteq> j" "1 < i" "1 < j"
    by (rule ready_pipe [OF PIPE.prems(1)])
  let ?t = "t(i \<mapsto> Read_end n, j \<mapsto> Write_end n)"
  have std: "?t 0 \<noteq> None" "?t 1 \<noteq> None" using PIPE.prems(1) free by (auto simp: ready_def)
  have low: "lowest (?t(1 := None)) = Some 1" "lowest (?t(0 := None)) = Some 0"
    by (rule lowest_eq; use std in \<open>auto simp: less_one\<close>)+
  have left: "(?t(1 := None))(1 \<mapsto> Write_end n, i := None, j := None) = t(1 \<mapsto> Write_end n)"
    and right: "(?t(0 := None))(0 \<mapsto> Read_end n, i := None, j := None) = t(0 \<mapsto> Read_end n)"
    using free by (auto simp: fun_eq_iff)
  have l: "run opens pid (runcmd l) (t(1 \<mapsto> Write_end n)) (Suc n) = meaning opens l (t(1 \<mapsto> Write_end n)) (Suc n)"
    by (rule PIPE.IH(1), rule ready_update [OF PIPE.prems(1)]) (use PIPE.prems(2) in auto)
  have r: "run opens pid (runcmd r) (t(0 \<mapsto> Read_end n)) m = meaning opens r (t(0 \<mapsto> Read_end n)) m" for m
    by (rule PIPE.IH(2), rule ready_update [OF PIPE.prems(1)]) (use PIPE.prems(2) in auto)
  have "run opens pid (Close 1 (Dup (int j) (Close (int i) (Close (int j) (runcmd l))))) ?t (Suc n) =
      meaning opens l (t(1 \<mapsto> Write_end n)) (Suc n)"
    using l free low left by (simp add: opened_def)
  moreover have "run opens pid (Close 0 (Dup (int i) (Close (int i) (Close (int j) (runcmd r))))) ?t m =
      meaning opens r (t(0 \<mapsto> Read_end n)) m" for m
    using r [of m] free low right by (simp add: opened_def)
  moreover have "run opens pid (Close p (Close q (Wait (Wait (Exit 0))))) u m = ([], m)" for p q u m by simp
  ultimately show ?case using ij assms(1) by (simp add: fork1_def split_beta del: run.simps(3))
qed (use assms(1) in \<open>auto simp: fork1_def split_beta\<close>)

subsection \<open>Property\<close>


text \<open>\<^verbatim>\<open>a|b\<close>, for a shell with its three descriptors.\<close>

definition three_fds :: fds where
  "three_fds i = (if i < 3 then Some (Given i) else None)"

lemma three_fds_ready: "ready three_fds"
proof -
  have "(3::nat) < 16 \<and> (4::nat) < 16 \<and> (3::nat) \<noteq> 4 \<and> three_fds 3 = None \<and> three_fds 4 = None"
    by (simp add: three_fds_def)
  then have "\<exists>i<16. \<exists>j<16. i \<noteq> j \<and> three_fds i = None \<and> three_fds j = None" by blast
  then show ?thesis by (simp add: ready_def three_fds_def)
qed

lemma parse_a_b:
  "parsecmd [0x61, 0x7C, 0x62] =
     Inr (PIPE (EXEC [([0x61, 0x7C, 0x62], [0x7C, 0x62])]) (EXEC [([0x62], [])]), [0x61, 0, 0x62, 0])"
  by code_simp


end
