(* ===== verification/Spec2Isabelle.thy ===== *)
theory Spec2Isabelle
  imports Kalloc Spinlock Log_Ops Console_Line Proc_Sched Lazy_Grow Virtio_Props Grep Uprintf Sh_Ends Sh_Round Sh_Plumb
begin

text \<open>
  A verification development for the xv6 teaching kernel (RISC-V) and the programs that come
  with it.
\<close>

end
